(* ===== verification/Prelude.thy ===== *)
theory Prelude
  imports Main "HOL-Library.Word"
begin

text \<open>
  Shared vocabulary of the development: the C integer types as machine words, the ways a
  kernel routine can fail to return, and the error monad the component models are written in.

  A C routine that stops the kernel (\<open>panic\<close> and \<open>assert\<close> of log.h spin forever after
  logging), that reads or writes outside an object, or that follows a pointer that is not one,
  has no result. The model returns such an outcome as \<open>Inl fault\<close>; \<open>Inr\<close> is a return.
\<close>

unbundle bit_operations_syntax

section \<open>C integer types\<close>

type_synonym u8 = "8 word"
type_synonym u16 = "16 word"
type_synonym u32 = "32 word"
type_synonym u64 = "64 word"

section \<open>Outcomes\<close>

datatype fault =
    Panic string        \<comment> \<open>\<open>panic(msg)\<close>: log, then spin forever\<close>
  | Assert_Failed       \<comment> \<open>\<open>assert(x)\<close> of log.h on a false condition: spin forever\<close>
  | Out_Of_Bounds       \<comment> \<open>an access outside the object the pointer points into\<close>
  | Wild_Pointer        \<comment> \<open>a pointer that does not point at an object of its type\<close>
  | Div_By_Zero         \<comment> \<open>an integer division by zero\<close>
  | No_Return           \<comment> \<open>the fuel of a loop that may not end is used up\<close>
  | Not_Modelled        \<comment> \<open>a branch of the code that the model leaves out\<close>

type_synonym 'a result = "fault + 'a"

definition rbind :: "'a result \<Rightarrow> ('a \<Rightarrow> 'b result) \<Rightarrow> 'b result" where
  "rbind r f = (case r of Inl e \<Rightarrow> Inl e | Inr x \<Rightarrow> f x)"

definition guard :: "fault \<Rightarrow> bool \<Rightarrow> unit result" where
  "guard e b = (if b then Inr () else Inl e)"

lemma rbind_simps [simp]:
  "rbind (Inl e) f = Inl e"
  "rbind (Inr x) f = f x"
  by (simp_all add: rbind_def)

lemma rbind_Inr_iff: "rbind r f = Inr y \<longleftrightarrow> (\<exists>x. r = Inr x \<and> f x = Inr y)"
  by (cases r) simp_all

lemma rbind_assoc: "rbind (rbind r f) g = rbind r (\<lambda>x. rbind (f x) g)"
  by (cases r) simp_all

lemma rbind_cong [fundef_cong]:
  "\<lbrakk> r = r'; \<And>x. r' = Inr x \<Longrightarrow> f x = g x \<rbrakk> \<Longrightarrow> rbind r f = rbind r' g"
  by (cases r') simp_all

lemma guard_simps [simp]:
  "guard e True = Inr ()"
  "guard e False = Inl e"
  by (simp_all add: guard_def)

lemma guard_Inr_iff [simp]: "guard e b = Inr u \<longleftrightarrow> b"
  by (cases b) simp_all

lemma guard_Inl_iff [simp]: "guard e b = Inl e' \<longleftrightarrow> \<not> b \<and> e' = e"
  by (cases b) auto

section \<open>Words\<close>

lemma unat_dec: "w \<noteq> 0 \<Longrightarrow> unat (w - 1 :: 'a::len word) = unat w - 1"
  by (metis unat_minus_one)

lemma unat_inc: "unat (w :: 'a::len word) + 1 < 2 ^ LENGTH('a) \<Longrightarrow> unat (w + 1) = unat w + 1"
  by (simp add: unat_word_ariths)

lemma of_nat_dec: "0 < n \<Longrightarrow> (of_nat n - 1 :: 'a::len word) = of_nat (n - 1)"
  by (simp add: of_nat_diff)

lemma of_nat_word_0_iff:
  "n < 2 ^ LENGTH('a) \<Longrightarrow> (of_nat n :: 'a::len word) = 0 \<longleftrightarrow> n = 0"
  using nat_dvd_not_less [of n "2 ^ LENGTH('a)"] by (auto simp: word_of_nat_eq_0_iff)

lemma unat_ucast_small:
  "unat (w :: 'a::len word) < 2 ^ LENGTH('b) \<Longrightarrow> unat (ucast w :: 'b::len word) = unat w"
  by (simp add: unsigned_ucast_eq take_bit_nat_eq_self)

lemma unat_2p: "n < LENGTH('a) \<Longrightarrow> unat (2 ^ n :: 'a::len word) = 2 ^ n"
proof -
  assume n: "n < LENGTH('a)"
  have "(2 ^ n :: 'a word) = of_nat (2 ^ n)" by simp
  then have "unat (2 ^ n :: 'a word) = 2 ^ n mod 2 ^ LENGTH('a)"
    by (simp only: unat_of_nat)
  with n show ?thesis by simp
qed

lemma unat_of_nat_u64: "n < 2 ^ 64 \<Longrightarrow> unat (of_nat n :: u64) = n"
  by (rule of_nat_inverse [OF refl]) simp

lemma unat_of_nat_u32: "n < 2 ^ 32 \<Longrightarrow> unat (of_nat n :: u32) = n"
  by (rule of_nat_inverse [OF refl]) simp

end
