(* ===== verification/Linked_List.thy ===== *)
theory Linked_List
  imports Prelude
begin

text \<open>
  kernel/include/list.h: the circular doubly linked list whose nodes are embedded in other
  structures. A node is an address; the heap gives the two link fields of every address. The
  operations are the pointer assignments of the header, in the header's order, so aliasing
  (the only node of a list is its own head's predecessor and successor) is what the code does.
\<close>

record 'a links =
  prev :: "'a \<Rightarrow> 'a"
  nxt :: "'a \<Rightarrow> 'a"

definition set_prev :: "'a \<Rightarrow> 'a \<Rightarrow> 'a links \<Rightarrow> 'a links" where
  "set_prev a v h = h\<lparr>prev := (prev h)(a := v)\<rparr>"

definition set_next :: "'a \<Rightarrow> 'a \<Rightarrow> 'a links \<Rightarrow> 'a links" where
  "set_next a v h = h\<lparr>nxt := (nxt h)(a := v)\<rparr>"

definition init_list_head :: "'a \<Rightarrow> 'a links \<Rightarrow> 'a links" where
  "init_list_head l h = set_prev l l (set_next l l h)"

definition list_add :: "'a \<Rightarrow> 'a \<Rightarrow> 'a links \<Rightarrow> 'a links" where
  "list_add new head h =
    (let h = set_next new (nxt h head) h;
         h = set_prev new head h;
         h = set_prev (nxt h head) new h
     in set_next head new h)"

definition list_append :: "'a \<Rightarrow> 'a \<Rightarrow> 'a links \<Rightarrow> 'a links" where
  "list_append new head h = (let tail = prev h head in list_add new tail h)"

definition list_del :: "'a \<Rightarrow> 'a links \<Rightarrow> 'a links" where
  "list_del node h =
    (let h = set_next (prev h node) (nxt h node) h
     in set_prev (nxt h node) (prev h node) h)"

definition list_empty :: "'a \<Rightarrow> 'a links \<Rightarrow> bool" where
  "list_empty head h \<longleftrightarrow> prev h head = head \<and> nxt h head = head"

section \<open>The list a head represents\<close>

text \<open>
  \<open>seg h a xs b\<close>: from \<open>a\<close> the next-links lead through \<open>xs\<close> to \<open>b\<close>, and the prev-links lead
  back. A head represents the list \<open>xs\<close> when the segment from it comes round to it.
\<close>

fun seg :: "'a links \<Rightarrow> 'a \<Rightarrow> 'a list \<Rightarrow> 'a \<Rightarrow> bool" where
  "seg h a [] b \<longleftrightarrow> nxt h a = b \<and> prev h b = a"
| "seg h a (x # xs) b \<longleftrightarrow> nxt h a = x \<and> prev h x = a \<and> seg h x xs b"

definition dlist :: "'a links \<Rightarrow> 'a \<Rightarrow> 'a list \<Rightarrow> bool" where
  "dlist h l xs \<longleftrightarrow> seg h l xs l \<and> distinct (l # xs)"

lemma links_upd_simps [simp]:
  "prev (set_prev a v h) = (prev h)(a := v)"
  "nxt (set_prev a v h) = nxt h"
  "prev (set_next a v h) = prev h"
  "nxt (set_next a v h) = (nxt h)(a := v)"
  by (simp_all add: set_prev_def set_next_def)

lemma seg_append: "seg h a (xs @ y # ys) b \<longleftrightarrow> seg h a xs y \<and> seg h y ys b"
  by (induction xs arbitrary: a) auto

lemma seg_cong:
  "\<lbrakk> seg h a xs b; \<forall>x\<in>set (a # xs). nxt h' x = nxt h x; \<forall>x\<in>set (b # xs). prev h' x = prev h x \<rbrakk>
   \<Longrightarrow> seg h' a xs b"
  by (induction xs arbitrary: a) auto

lemma seg_prev_end: "seg h a xs b \<Longrightarrow> prev h b = last (a # xs)"
  by (induction xs arbitrary: a) auto

lemma seg_next_start: "seg h a xs b \<Longrightarrow> nxt h a = hd (xs @ [b])"
  by (cases xs) auto

lemma dlist_frame:
  "\<lbrakk> dlist h l xs; \<forall>x\<in>set (l # xs). nxt h' x = nxt h x \<and> prev h' x = prev h x \<rbrakk>
   \<Longrightarrow> dlist h' l xs"
  unfolding dlist_def by (intro conjI) (rule seg_cong, auto)

lemma dlist_first: "dlist h l (x # xs) \<Longrightarrow> nxt h l = x"
  by (simp add: dlist_def)

lemma dlist_empty_iff: "dlist h l xs \<Longrightarrow> list_empty l h \<longleftrightarrow> xs = []"
  by (cases xs) (auto simp: dlist_def list_empty_def)

lemma dlist_init: "dlist (init_list_head l h) l []"
  by (simp add: dlist_def init_list_head_def)

lemma dlist_append:
  assumes l: "dlist h l xs" and new: "new \<notin> set (l # xs)"
  shows "dlist (list_append new l h) l (xs @ [new])"
proof (cases xs rule: rev_cases)
  case Nil
  with l new show ?thesis
    by (auto simp: dlist_def list_append_def list_add_def Let_def)
next
  case (snoc ys t)
  let ?h = "list_append new l h"
  from l snoc have seg: "seg h l ys t" and t: "nxt h t = l" "prev h l = t"
    and d: "distinct (l # ys @ [t])"
    by (simp_all add: dlist_def seg_append)
  have "seg ?h l ys t"
    by (rule seg_cong [OF seg]) (use t d new snoc in \<open>auto simp: list_append_def list_add_def Let_def\<close>)
  moreover have "seg ?h t [new] l"
    using t d new snoc by (auto simp: list_append_def list_add_def Let_def)
  ultimately show ?thesis
    using d new snoc by (auto simp: dlist_def seg_append)
qed

lemma seg_del:
  "\<lbrakk> seg h a ys x; seg h x zs b; distinct (ys @ x # zs); a \<notin> set (ys @ x # zs); b \<notin> set (ys @ x # zs) \<rbrakk>
   \<Longrightarrow> seg (list_del x h) a (ys @ zs) b"
proof (induction ys arbitrary: a)
  case Nil
  show ?case
  proof (cases zs)
    case Nil
    with Nil.prems show ?thesis by (auto simp: list_del_def Let_def)
  next
    case (Cons n zs')
    with Nil.prems have "seg h n zs' b" by simp
    then have "seg (list_del x h) n zs' b"
      by (rule seg_cong) (use Nil.prems Cons in \<open>auto simp: list_del_def Let_def\<close>)
    with Nil.prems Cons show ?thesis by (auto simp: list_del_def Let_def)
  qed
next
  case (Cons y ys)
  have "seg (list_del x h) y (ys @ zs) b"
    by (rule Cons.IH) (use Cons.prems in auto)
  moreover have "prev h x = last (y # ys)"
    using Cons.prems(1) by (auto dest: seg_prev_end)
  moreover have "nxt h x = hd (zs @ [b])"
    using Cons.prems(2) by (rule seg_next_start)
  ultimately show ?case
    using Cons.prems by (cases zs) (auto simp: list_del_def Let_def split: if_splits)
qed

lemma dlist_del:
  assumes l: "dlist h l xs" and x: "x \<in> set xs"
  shows "dlist (list_del x h) l (remove1 x xs)"
proof -
  from x obtain ys zs where xs: "xs = ys @ x # zs" and "x \<notin> set ys"
    by (meson split_list_first)
  then have "remove1 x xs = ys @ zs" by (simp add: remove1_append)
  with l xs show ?thesis
    by (auto simp: dlist_def seg_append intro: seg_del)
qed

text \<open>Which links an operation may write: those of the list it works on and of the new node.\<close>

lemma list_append_frame:
  assumes "dlist h l xs" and "a \<notin> set (new # l # xs)"
  shows "nxt (list_append new l h) a = nxt h a \<and> prev (list_append new l h) a = prev h a"
proof -
  from assms(1) have "prev h l = last (l # xs)" "nxt h (last (l # xs)) = l"
    by (cases xs rule: rev_cases; simp add: dlist_def seg_append)+
  moreover have "last (l # xs) \<in> set (l # xs)" by (rule last_in_set) simp
  ultimately show ?thesis
    using assms(2) by (auto simp: list_append_def list_add_def Let_def)
qed

lemma list_del_frame:
  assumes "dlist h l xs" and "x \<in> set xs" and "a \<notin> set (l # xs)"
  shows "nxt (list_del x h) a = nxt h a \<and> prev (list_del x h) a = prev h a"
proof -
  from assms(2) obtain ys zs where xs: "xs = ys @ x # zs" by (meson split_list)
  with assms(1) have s: "seg h l ys x" "seg h x zs l" and d: "distinct (l # ys @ x # zs)"
    by (simp_all add: dlist_def seg_append)
  have "prev h x \<in> set (l # ys)" using seg_prev_end [OF s(1)] last_in_set [of "l # ys"] by simp
  moreover have "nxt h x \<in> set (zs @ [l])"
    using seg_next_start [OF s(2)] list.set_sel(1) [of "zs @ [l]"] by simp
  moreover have "nxt h (prev h x) = x"
    using s(1) by (cases ys rule: rev_cases) (auto simp: seg_append)
  ultimately show ?thesis
    using assms(3) d xs by (auto simp: list_del_def Let_def)
qed

lemma dlist_append_other:
  assumes "dlist h l xs" and m: "dlist h m ys" and disj: "set (x # l # xs) \<inter> set (m # ys) = {}"
  shows "dlist (list_append x l h) m ys"
proof (rule dlist_frame [OF m], rule ballI)
  fix a assume "a \<in> set (m # ys)"
  with disj have "a \<notin> set (x # l # xs)" by blast
  with assms(1) show "nxt (list_append x l h) a = nxt h a \<and> prev (list_append x l h) a = prev h a"
    by (rule list_append_frame)
qed

lemma dlist_del_other:
  assumes "dlist h l xs" and "x \<in> set xs" and m: "dlist h m ys"
    and disj: "set (l # xs) \<inter> set (m # ys) = {}"
  shows "dlist (list_del x h) m ys"
proof (rule dlist_frame [OF m], rule ballI)
  fix a assume "a \<in> set (m # ys)"
  with disj have "a \<notin> set (l # xs)" by blast
  with assms(1,2) show "nxt (list_del x h) a = nxt h a \<and> prev (list_del x h) a = prev h a"
    by (rule list_del_frame)
qed

section \<open>The list interface and families of disjoint lists\<close>

text \<open>
  What a client relies on: the list a head represents after each operation, and that an
  operation on one list leaves every disjoint list alone. \<open>family\<close> is an array of heads
  whose lists are pairwise disjoint.
\<close>

definition family :: "('h \<Rightarrow> 'a \<Rightarrow> 'a list \<Rightarrow> bool) \<Rightarrow> 'h \<Rightarrow> (nat \<Rightarrow> 'a) \<Rightarrow> nat \<Rightarrow> (nat \<Rightarrow> 'a list) \<Rightarrow> bool"
where
  "family rep h heads n fl \<longleftrightarrow>
     (\<forall>k<n. rep h (heads k) (fl k)) \<and>
     (\<forall>j<n. \<forall>k<n. j \<noteq> k \<longrightarrow> set (heads j # fl j) \<inter> set (heads k # fl k) = {})"

locale list_ops =
  fixes rep :: "'h \<Rightarrow> 'a \<Rightarrow> 'a list \<Rightarrow> bool"
    and app :: "'a \<Rightarrow> 'a \<Rightarrow> 'h \<Rightarrow> 'h"
    and del :: "'a \<Rightarrow> 'h \<Rightarrow> 'h"
    and fst_of :: "'h \<Rightarrow> 'a \<Rightarrow> 'a"
  assumes rep_distinct: "rep h l xs \<Longrightarrow> distinct (l # xs)"
    and rep_first: "rep h l (x # xs) \<Longrightarrow> fst_of h l = x"
    and rep_app: "\<lbrakk> rep h l xs; x \<notin> set (l # xs) \<rbrakk> \<Longrightarrow> rep (app x l h) l (xs @ [x])"
    and rep_del: "\<lbrakk> rep h l xs; x \<in> set xs \<rbrakk> \<Longrightarrow> rep (del x h) l (remove1 x xs)"
    and app_frame: "\<lbrakk> rep h l xs; rep h m ys; set (x # l # xs) \<inter> set (m # ys) = {} \<rbrakk>
      \<Longrightarrow> rep (app x l h) m ys"
    and del_frame: "\<lbrakk> rep h l xs; x \<in> set xs; rep h m ys; set (l # xs) \<inter> set (m # ys) = {} \<rbrakk>
      \<Longrightarrow> rep (del x h) m ys"
begin

lemma family_first:
  "\<lbrakk> family rep h heads n fl; k < n; fl k = x # xs \<rbrakk> \<Longrightarrow> fst_of h (heads k) = x"
  unfolding family_def by (metis rep_first)

lemma family_distinct: "\<lbrakk> family rep h heads n fl; k < n \<rbrakk> \<Longrightarrow> distinct (fl k)"
  unfolding family_def by (metis distinct.simps(2) rep_distinct)

lemma family_app:
  assumes f: "family rep h heads n fl" and k: "k < n"
    and x: "\<forall>j<n. x \<notin> set (heads j # fl j)"
  shows "family rep (app x (heads k) h) heads n (fl(k := fl k @ [x]))"
proof -
  have "rep (app x (heads k) h) (heads j) ((fl(k := fl k @ [x])) j)" if j: "j < n" for j
  proof (cases "j = k")
    case True
    with f k x show ?thesis by (auto simp: family_def intro: rep_app)
  next
    case False
    moreover have "set (x # heads k # fl k) \<inter> set (heads j # fl j) = {}"
      using f k j x False unfolding family_def by (metis Int_insert_left list.simps(15))
    moreover have "rep h (heads k) (fl k)" "rep h (heads j) (fl j)"
      using f k j by (simp_all add: family_def)
    ultimately show ?thesis by (simp add: app_frame)
  qed
  moreover have "set (heads i # (fl(k := fl k @ [x])) i) \<inter> set (heads j # (fl(k := fl k @ [x])) j) = {}"
    if "i < n" "j < n" "i \<noteq> j" for i j
  proof -
    from f that have "set (heads i # fl i) \<inter> set (heads j # fl j) = {}"
      by (simp add: family_def)
    with x that show ?thesis by (cases "i = k"; cases "j = k") auto
  qed
  ultimately show ?thesis by (simp add: family_def)
qed

lemma family_del:
  assumes f: "family rep h heads n fl" and k: "k < n" and x: "x \<in> set (fl k)"
  shows "family rep (del x h) heads n (fl(k := remove1 x (fl k)))"
proof -
  have "rep (del x h) (heads j) ((fl(k := remove1 x (fl k))) j)" if j: "j < n" for j
  proof (cases "j = k")
    case True
    with f k x show ?thesis by (auto simp: family_def intro: rep_del)
  next
    case False
    moreover have "set (heads k # fl k) \<inter> set (heads j # fl j) = {}"
      using f k j False by (simp add: family_def)
    moreover have "rep h (heads k) (fl k)" "rep h (heads j) (fl j)"
      using f k j by (simp_all add: family_def)
    ultimately show ?thesis using del_frame x by simp
  qed
  moreover have "set (heads i # (fl(k := remove1 x (fl k))) i)
      \<inter> set (heads j # (fl(k := remove1 x (fl k))) j) = {}"
    if "i < n" "j < n" "i \<noteq> j" for i j
  proof -
    from f that have "set (heads i # fl i) \<inter> set (heads j # fl j) = {}"
      by (simp add: family_def)
    moreover have "set (remove1 x (fl k)) \<subseteq> set (fl k)" by (rule set_remove1_subset)
    ultimately show ?thesis by (cases "i = k"; cases "j = k") auto
  qed
  ultimately show ?thesis by (simp add: family_def)
qed

end

interpretation dl: list_ops dlist list_append list_del nxt
proof
  show "\<And>h l xs. dlist h l xs \<Longrightarrow> distinct (l # xs)" by (simp add: dlist_def)
  show "\<And>h l x xs. dlist h l (x # xs) \<Longrightarrow> nxt h l = x" by (rule dlist_first)
  show "\<And>h l xs x. \<lbrakk> dlist h l xs; x \<notin> set (l # xs) \<rbrakk> \<Longrightarrow> dlist (list_append x l h) l (xs @ [x])"
    by (rule dlist_append)
  show "\<And>h l xs x. \<lbrakk> dlist h l xs; x \<in> set xs \<rbrakk> \<Longrightarrow> dlist (list_del x h) l (remove1 x xs)"
    by (rule dlist_del)
  show "\<And>h l xs m ys x. \<lbrakk> dlist h l xs; dlist h m ys; set (x # l # xs) \<inter> set (m # ys) = {} \<rbrakk>
      \<Longrightarrow> dlist (list_append x l h) m ys"
    by (rule dlist_append_other)
  show "\<And>h l xs x m ys. \<lbrakk> dlist h l xs; x \<in> set xs; dlist h m ys;
      set (l # xs) \<inter> set (m # ys) = {} \<rbrakk> \<Longrightarrow> dlist (list_del x h) m ys"
    by (rule dlist_del_other)
qed

end
