(* ===== verification/Buddy_Layout.thy ===== *)
theory Buddy_Layout
  imports Buddy
begin

text \<open>
  What the buddy allocator promises, as an abstract machine: the memory is cut into blocks
  (\<open>layout\<close> maps the first page of a block to its order) and \<open>avail k\<close> lists the free blocks of
  order \<open>k\<close>. \<open>tiled\<close> says that the blocks are disjoint and cover the memory. The specification
  operations split, take, give back and merge blocks; none of them mentions the page array, the
  counters or the linked lists.
\<close>

record alloc =
  layout :: "nat \<rightharpoonup> nat"
  avail :: "nat \<Rightarrow> nat list"

definition extent :: "nat \<Rightarrow> nat \<Rightarrow> nat set" where
  "extent i k = {i ..< i + 2 ^ k}"

definition tiled :: "(nat \<rightharpoonup> nat) \<Rightarrow> bool" where
  "tiled m \<longleftrightarrow>
     (\<forall>i k. m i = Some k \<longrightarrow> k < BUDDY_MAX_ORDER \<and> i + 2 ^ k \<le> npage) \<and>
     (\<forall>i k j. m i = Some k \<longrightarrow> i < j \<longrightarrow> j < i + 2 ^ k \<longrightarrow> m j = None) \<and>
     (\<forall>x<npage. \<exists>i k. m i = Some k \<and> x \<in> extent i k)"

definition spec_ok :: "alloc \<Rightarrow> bool" where
  "spec_ok a \<longleftrightarrow> tiled (layout a) \<and>
     (\<forall>k<BUDDY_MAX_ORDER. distinct (avail a k) \<and> (\<forall>i\<in>set (avail a k). layout a i = Some k))"

text \<open>The pages a caller may still get, and the blocks in use.\<close>

definition avail_pages :: "alloc \<Rightarrow> nat set" where
  "avail_pages a = (\<Union>k<BUDDY_MAX_ORDER. \<Union>i\<in>set (avail a k). extent i k)"

definition in_use :: "alloc \<Rightarrow> nat \<Rightarrow> nat \<Rightarrow> bool" where
  "in_use a i k \<longleftrightarrow> layout a i = Some k \<and> i \<notin> set (avail a k)"

fun spec_split :: "nat \<Rightarrow> alloc \<Rightarrow> alloc" where
  "spec_split t a =
    (case avail a (Suc t) of
       [] \<Rightarrow> a
     | i # rest \<Rightarrow> a\<lparr>layout := (layout a)(i \<mapsto> t, i + 2 ^ t \<mapsto> t),
                    avail := (avail a)(Suc t := rest, t := avail a t @ [i, i + 2 ^ t])\<rparr>)"

fun spec_take :: "nat \<Rightarrow> nat \<Rightarrow> alloc \<Rightarrow> alloc" where
  "spec_take i k a = a\<lparr>avail := (avail a)(k := remove1 i (avail a k))\<rparr>"

fun spec_give :: "nat \<Rightarrow> nat \<Rightarrow> alloc \<Rightarrow> alloc" where
  "spec_give i k a = a\<lparr>avail := (avail a)(k := avail a k @ [i])\<rparr>"

fun spec_merge :: "nat \<Rightarrow> nat \<Rightarrow> alloc \<Rightarrow> alloc" where
  "spec_merge i k a =
    a\<lparr>layout := (layout a)(i \<mapsto> Suc k, i + 2 ^ k := None),
      avail := (avail a)(k := remove1 i (remove1 (i + 2 ^ k) (avail a k)),
                         Suc k := avail a (Suc k) @ [i])\<rparr>"

section \<open>The abstract allocator\<close>

fun spec_split_loop :: "nat \<Rightarrow> nat \<Rightarrow> alloc \<Rightarrow> nat \<times> alloc" where
  "spec_split_loop 0 small a = (0, a)"
| "spec_split_loop (Suc t) small a =
    (let p = hd (avail a (Suc t)); a' = spec_split t a
     in if t > small then spec_split_loop t small a' else (p, a'))"

definition spec_allocate :: "nat \<Rightarrow> alloc \<Rightarrow> (nat \<times> alloc) option" where
  "spec_allocate k a =
    (case avail a k of
       p # _ \<Rightarrow> Some (p, spec_take p k a)
     | [] \<Rightarrow> (case find (\<lambda>j. avail a j \<noteq> []) [Suc k..<BUDDY_MAX_ORDER] of
               None \<Rightarrow> None
             | Some j \<Rightarrow> (case spec_split_loop j k a of (p, a') \<Rightarrow> Some (p, spec_take p k a'))))"

function spec_coalesce :: "nat \<Rightarrow> nat \<Rightarrow> alloc \<Rightarrow> alloc option" where
  "spec_coalesce p k a =
    (if Suc k < BUDDY_MAX_ORDER then
       (if \<not> p + 2 ^ k < npage then None
        else if p + 2 ^ k \<in> set (avail a k) then spec_coalesce p (Suc k) (spec_merge p k a)
        else Some a)
     else Some a)"
  by pat_completeness auto
termination
  by (relation "measure (\<lambda>(p, k, a). BUDDY_MAX_ORDER - k)") auto

declare spec_coalesce.simps [simp del]

definition spec_free :: "nat \<Rightarrow> nat \<Rightarrow> alloc \<Rightarrow> alloc option" where
  "spec_free p k a = spec_coalesce p k (spec_give p k a)"

section \<open>Blocks\<close>

lemma mem_extent [simp]: "x \<in> extent i k \<longleftrightarrow> i \<le> x \<and> x < i + 2 ^ k"
  by (auto simp: extent_def)

lemma card_extent [simp]: "card (extent i k) = 2 ^ k" "finite (extent i k)"
  by (simp_all add: extent_def)

lemma extent_split: "extent i (Suc t) = extent i t \<union> extent (i + 2 ^ t) t"
  by (auto simp: extent_def)

lemma tiled_bound: "\<lbrakk> tiled m; m i = Some k \<rbrakk> \<Longrightarrow> k < BUDDY_MAX_ORDER \<and> i + 2 ^ k \<le> npage"
  by (simp add: tiled_def)

lemma tiled_inside: "\<lbrakk> tiled m; m i = Some k; i < j; j < i + 2 ^ k \<rbrakk> \<Longrightarrow> m j = None"
  unfolding tiled_def by blast

lemma tiled_cover: "\<lbrakk> tiled m; x < npage \<rbrakk> \<Longrightarrow> \<exists>i k. m i = Some k \<and> i \<le> x \<and> x < i + 2 ^ k"
  by (auto simp: tiled_def)

lemma tiled_less: "\<lbrakk> tiled m; m i = Some k \<rbrakk> \<Longrightarrow> i < npage"
  using tiled_bound [of m i k] zero_less_power [of "2::nat" k] by linarith

lemma tiled_disjoint:
  assumes "tiled m" "m i = Some k" "m j = Some l" "i \<noteq> j"
  shows "extent i k \<inter> extent j l = {}"
proof (rule ccontr)
  assume "extent i k \<inter> extent j l \<noteq> {}"
  then obtain x where "i \<le> x" "x < i + 2 ^ k" "j \<le> x" "x < j + 2 ^ l" by auto
  with assms show False
    using tiled_inside [OF assms(1,2), of j] tiled_inside [OF assms(1,3), of i] by force
qed

text \<open>The page after a block starts the next one: the code's "buddy must be a head page".\<close>

lemma tiled_next_head:
  assumes m: "tiled m" "m i = Some k" and "i + 2 ^ k < npage"
  shows "m (i + 2 ^ k) \<noteq> None"
proof -
  from tiled_cover [OF m(1) assms(3)] obtain j l
    where j: "m j = Some l" "j \<le> i + 2 ^ k" "i + 2 ^ k < j + 2 ^ l" by blast
  have "j = i + 2 ^ k"
  proof (rule ccontr)
    assume ne: "j \<noteq> i + 2 ^ k"
    with j m have "j \<noteq> i" by auto
    moreover have "i \<in> extent i k" by simp
    ultimately show False
      using tiled_disjoint [OF m(1,2) j(1)] j ne tiled_inside [OF m(1) j(1), of i]
        tiled_inside [OF m(1,2), of j] m(2) by force
  qed
  with j show ?thesis by simp
qed

lemma tiled_split:
  assumes m: "tiled m" and i: "m i = Some (Suc t)"
  shows "tiled (m(i \<mapsto> t, i + 2 ^ t \<mapsto> t))"
proof -
  let ?m = "m(i \<mapsto> t, i + 2 ^ t \<mapsto> t)"
  have b: "Suc t < BUDDY_MAX_ORDER" "i + 2 ^ Suc t \<le> npage"
    using tiled_bound [OF m i] by simp_all
  have bound: "k < BUDDY_MAX_ORDER \<and> j + 2 ^ k \<le> npage" if "?m j = Some k" for j k
    using that tiled_bound [OF m, of j k] b by (auto split: if_splits)
  have inside: "?m j' = None" if j: "?m j = Some k" "j < j'" "j' < j + 2 ^ k" for j k j'
  proof (cases "j = i \<or> j = i + 2 ^ t")
    case True
    with j(1) have "k = t" by (auto split: if_splits)
    with True j(2,3) show ?thesis using tiled_inside [OF m i, of j'] by auto
  next
    case False
    with j(1) have mj: "m j = Some k" by (simp split: if_splits)
    with False have d: "extent i (Suc t) \<inter> extent j k = {}"
      using tiled_disjoint [OF m i mj] by simp
    have "j' \<in> extent j k" using j by simp
    with d have "j' \<notin> extent i (Suc t)" by blast
    then have "j' \<noteq> i" "j' \<noteq> i + 2 ^ t" by auto
    with tiled_inside [OF m mj j(2,3)] show ?thesis by simp
  qed
  have cover: "\<exists>j k. ?m j = Some k \<and> x \<in> extent j k" if x: "x < npage" for x
  proof -
    from tiled_cover [OF m x] obtain j k where j: "m j = Some k" "x \<in> extent j k" by auto
    consider "j = i" "x < i + 2 ^ t" | "j = i" "i + 2 ^ t \<le> x" | "j \<noteq> i" by linarith
    then show ?thesis
    proof cases
      case 1 with j i show ?thesis by (intro exI [of _ i] exI [of _ t]) auto
    next
      case 2 with j i show ?thesis by (intro exI [of _ "i + 2 ^ t"] exI [of _ t]) auto
    next
      case 3
      have "j \<noteq> i + 2 ^ t" using tiled_inside [OF m i, of "i + 2 ^ t"] j(1) by auto
      with 3 j show ?thesis by auto
    qed
  qed
  from bound inside cover show ?thesis unfolding tiled_def by blast
qed

lemma tiled_merge:
  assumes m: "tiled m" and i: "m i = Some k" and b: "m (i + 2 ^ k) = Some k"
    and k: "Suc k < BUDDY_MAX_ORDER"
  shows "tiled (m(i \<mapsto> Suc k, i + 2 ^ k := None))"
proof -
  let ?m = "m(i \<mapsto> Suc k, i + 2 ^ k := None)"
  have bound: "l < BUDDY_MAX_ORDER \<and> j + 2 ^ l \<le> npage" if "?m j = Some l" for j l
    using that tiled_bound [OF m, of j l] tiled_bound [OF m b] k by (auto split: if_splits)
  have inside: "?m j' = None" if j: "?m j = Some l" "j < j'" "j' < j + 2 ^ l" for j l j'
  proof (cases "j = i")
    case True
    with j have "j' < i + 2 ^ k \<or> j' = i + 2 ^ k \<or> i + 2 ^ k < j' \<and> j' < i + 2 ^ k + 2 ^ k"
      by (auto split: if_splits)
    with True j(2) show ?thesis
      using tiled_inside [OF m i, of j'] tiled_inside [OF m b, of j'] by auto
  next
    case False
    with j(1) have mj: "m j = Some l" "j \<noteq> i + 2 ^ k" by (auto split: if_splits)
    then have "m j' = None" using tiled_inside [OF m] j(2,3) by blast
    with i show ?thesis by auto
  qed
  have cover: "\<exists>j l. ?m j = Some l \<and> x \<in> extent j l" if x: "x < npage" for x
  proof -
    from tiled_cover [OF m x] obtain j l where j: "m j = Some l" "x \<in> extent j l" by auto
    show ?thesis
    proof (cases "j = i \<or> j = i + 2 ^ k")
      case True
      with j i b have "x \<in> extent i (Suc k)" by auto
      then show ?thesis by (intro exI [of _ i] exI [of _ "Suc k"]) simp
    next
      case False
      with j show ?thesis by (intro exI [of _ j] exI [of _ l]) simp
    qed
  qed
  from bound inside cover show ?thesis unfolding tiled_def by blast
qed

section \<open>The abstract allocator keeps its promises\<close>

lemma spec_okD:
  assumes "spec_ok a" and "k < BUDDY_MAX_ORDER"
  shows "distinct (avail a k)" and "i \<in> set (avail a k) \<Longrightarrow> layout a i = Some k"
  using assms by (auto simp: spec_ok_def)

lemma spec_ok_tiled: "spec_ok a \<Longrightarrow> tiled (layout a)"
  by (simp add: spec_ok_def)

lemma avail_unique:
  "\<lbrakk> spec_ok a; k < BUDDY_MAX_ORDER; l < BUDDY_MAX_ORDER; i \<in> set (avail a k); i \<in> set (avail a l) \<rbrakk>
   \<Longrightarrow> k = l"
  using spec_okD(2) [of a k i] spec_okD(2) [of a l i] by simp

lemma mem_avail_pages:
  "x \<in> avail_pages a \<longleftrightarrow> (\<exists>k<BUDDY_MAX_ORDER. \<exists>i\<in>set (avail a k). x \<in> extent i k)"
  by (auto simp: avail_pages_def)

lemma spec_ok_split:
  assumes a: "spec_ok a" and t: "Suc t < BUDDY_MAX_ORDER" and i: "avail a (Suc t) = i # rest"
  shows "spec_ok (spec_split t a)"
proof -
  have li: "layout a i = Some (Suc t)" using spec_okD(2) [OF a t, of i] i by simp
  have lb: "layout a (i + 2 ^ t) = None"
    using tiled_inside [OF spec_ok_tiled [OF a] li] by simp
  have new: "i \<notin> set (avail a k)" "i + 2 ^ t \<notin> set (avail a k)"
    if "k < BUDDY_MAX_ORDER" "k \<noteq> Suc t" for k
    using spec_okD(2) [OF a that(1)] that(2) li lb by auto
  have rest: "i \<notin> set rest" "i + 2 ^ t \<notin> set rest" "distinct rest"
    using spec_okD [OF a t] i lb by auto
  have "distinct (avail (spec_split t a) k) \<and>
      (\<forall>j\<in>set (avail (spec_split t a) k). layout (spec_split t a) j = Some k)"
    if k: "k < BUDDY_MAX_ORDER" for k
  proof (cases "k = Suc t")
    case True
    with i rest spec_okD(2) [OF a t] show ?thesis by auto
  next
    case False
    with i new [OF k] new [of t] spec_okD [OF a k] t show ?thesis by auto
  qed
  moreover have "tiled (layout (spec_split t a))"
    using tiled_split [OF spec_ok_tiled [OF a] li] i by simp
  ultimately show ?thesis by (simp add: spec_ok_def)
qed

lemma avail_pages_split:
  assumes t: "Suc t < BUDDY_MAX_ORDER" and i: "avail a (Suc t) = i # rest"
  shows "avail_pages (spec_split t a) = avail_pages a"
proof (rule set_eqI)
  fix x
  have "(\<exists>j\<in>set (avail (spec_split t a) k). x \<in> extent j k) \<longleftrightarrow>
      (if k = Suc t then \<exists>j\<in>set rest. x \<in> extent j k
       else (\<exists>j\<in>set (avail a k). x \<in> extent j k) \<or> k = t \<and> x \<in> extent i (Suc t))" for k
    using i by (auto simp: extent_split simp del: mem_extent)
  moreover have "(\<exists>j\<in>set (avail a (Suc t)). x \<in> extent j (Suc t)) \<longleftrightarrow>
      x \<in> extent i (Suc t) \<or> (\<exists>j\<in>set rest. x \<in> extent j (Suc t))"
    using i by simp
  ultimately show "x \<in> avail_pages (spec_split t a) \<longleftrightarrow> x \<in> avail_pages a"
    using t unfolding mem_avail_pages by (metis Suc_lessD n_not_Suc_n)
qed

lemma in_use_split:
  assumes a: "spec_ok a" and t: "Suc t < BUDDY_MAX_ORDER" and i: "avail a (Suc t) = i # rest"
  shows "in_use (spec_split t a) q l = in_use a q l"
proof -
  have li: "layout a i = Some (Suc t)" using spec_okD(2) [OF a t, of i] i by simp
  have "layout a (i + 2 ^ t) = None" using tiled_inside [OF spec_ok_tiled [OF a] li] by simp
  with li i spec_okD(1) [OF a t] show ?thesis by (auto simp: in_use_def)
qed

lemma spec_split_loop_ok:
  assumes "spec_split_loop (Suc t) small a = (p, a')" and "spec_ok a" and "Suc t < BUDDY_MAX_ORDER"
    and "small \<le> t" and "avail a (Suc t) \<noteq> []"
  shows "spec_ok a' \<and> p \<in> set (avail a' small) \<and> avail_pages a' = avail_pages a \<and>
    in_use a' = in_use a"
  using assms
proof (induction t arbitrary: a)
  case (0 a)
  then obtain i rest where i: "avail a (Suc 0) = i # rest" by (auto simp: neq_Nil_conv)
  with 0 have a': "a' = spec_split 0 a" "p = i" "small = 0"
    by (simp_all del: spec_split.simps)
  then have "p \<in> set (avail a' small)" using i by simp
  with 0 i a' show ?case
    using spec_ok_split [OF 0(2,3) i] avail_pages_split [OF 0(3) i] in_use_split [OF 0(2,3) i]
    by (simp add: fun_eq_iff del: spec_split.simps)
next
  case (Suc t)
  then obtain i rest where i: "avail a (Suc (Suc t)) = i # rest" by (auto simp: neq_Nil_conv)
  let ?a = "spec_split (Suc t) a"
  note ok = spec_ok_split [OF Suc.prems(2,3) i] avail_pages_split [OF Suc.prems(3) i]
    in_use_split [OF Suc.prems(2,3) i]
  show ?case
  proof (cases "small = Suc t")
    case True
    with Suc.prems i have a': "a' = ?a" "p = i" by (simp_all del: spec_split.simps)
    then have "p \<in> set (avail a' small)" using i True by simp
    with ok a' show ?thesis by (simp add: fun_eq_iff del: spec_split.simps)
  next
    case False
    with Suc.prems have "spec_split_loop (Suc t) small ?a = (p, a')" "small \<le> t"
      by (simp_all del: spec_split.simps spec_split_loop.simps add: spec_split_loop.simps(2) [of "Suc t"] Let_def)
    moreover have "avail ?a (Suc t) \<noteq> []" using i by simp
    ultimately show ?thesis
      using Suc.IH [of ?a] ok Suc.prems(3) by (simp add: fun_eq_iff del: spec_split.simps)
  qed
qed

lemma spec_ok_take: "spec_ok a \<Longrightarrow> spec_ok (spec_take p k a)"
  by (auto simp: spec_ok_def dest: in_set_remove1 set_mp [OF set_remove1_subset])

lemma in_use_take:
  assumes a: "spec_ok a" and k: "k < BUDDY_MAX_ORDER" and p: "p \<in> set (avail a k)"
  shows "in_use (spec_take p k a) q l \<longleftrightarrow> in_use a q l \<or> (q = p \<and> l = k)"
  using spec_okD [OF a k] p by (auto simp: in_use_def)

lemma avail_pages_take:
  assumes a: "spec_ok a" and k: "k < BUDDY_MAX_ORDER" and p: "p \<in> set (avail a k)"
  shows "avail_pages a = avail_pages (spec_take p k a) \<union> extent p k"
    and "avail_pages (spec_take p k a) \<inter> extent p k = {}"
proof -
  have split: "set (avail a k) = insert p (set (remove1 p (avail a k)))"
    using spec_okD(1) [OF a k] p by auto
  show "avail_pages a = avail_pages (spec_take p k a) \<union> extent p k"
  proof (rule set_eqI)
    fix x
    have "(\<exists>i\<in>set (avail a j). x \<in> extent i j) \<longleftrightarrow>
        (\<exists>i\<in>set (avail (spec_take p k a) j). x \<in> extent i j) \<or> j = k \<and> x \<in> extent p k" for j
      using split by (cases "j = k") (auto simp del: mem_extent)
    then show "x \<in> avail_pages a \<longleftrightarrow> x \<in> avail_pages (spec_take p k a) \<union> extent p k"
      using k unfolding Un_iff mem_avail_pages by metis
  qed
  have "extent i j \<inter> extent p k = {}"
    if j: "j < BUDDY_MAX_ORDER" and i: "i \<in> set (avail (spec_take p k a) j)" for i j
  proof (rule tiled_disjoint [OF spec_ok_tiled [OF a]])
    show "layout a i = Some j" using spec_okD(2) [OF spec_ok_take [OF a] j i] by simp
    show "layout a p = Some k" using spec_okD(2) [OF a k p] .
    show "i \<noteq> p"
    proof
      assume "i = p"
      then have "layout a p = Some j" using \<open>layout a i = Some j\<close> by simp
      with \<open>layout a p = Some k\<close> have "j = k" by simp
      with i \<open>i = p\<close> spec_okD(1) [OF a k] show False by simp
    qed
  qed
  then show "avail_pages (spec_take p k a) \<inter> extent p k = {}"
    unfolding avail_pages_def by blast
qed

text \<open>The contract of allocation.\<close>

lemma spec_allocate_split:
  assumes a: "spec_ok a" and k: "k < BUDDY_MAX_ORDER" and r: "spec_allocate k a = Some (p, a')"
  shows "\<exists>b. a' = spec_take p k b \<and> spec_ok b \<and> p \<in> set (avail b k) \<and>
    avail_pages b = avail_pages a \<and> in_use b = in_use a"
proof (cases "avail a k")
  case (Cons q rest)
  with r have "p = q" "a' = spec_take p k a"
    by (auto simp: spec_allocate_def simp del: spec_take.simps)
  with a Cons show ?thesis by (intro exI [of _ a]) simp
next
  case Nil
  with r obtain j b where j: "find (\<lambda>j. avail a j \<noteq> []) [Suc k..<BUDDY_MAX_ORDER] = Some j"
    and b: "spec_split_loop j k a = (p, b)" and a': "a' = spec_take p k b"
    by (auto simp: spec_allocate_def simp del: spec_take.simps split: option.splits prod.splits)
  from j have "j < BUDDY_MAX_ORDER" "k < j" "avail a j \<noteq> []"
    by (auto simp: find_Some_iff simp del: upt_Suc)
  then obtain t where t: "j = Suc t" by (cases j) auto
  with \<open>k < j\<close> have "k \<le> t" by simp
  from spec_split_loop_ok [OF b [unfolded t] a _ this] \<open>j < _\<close> \<open>avail a j \<noteq> []\<close> t a'
  show ?thesis by (intro exI [of _ b]) simp
qed

lemma spec_allocate_ok:
  assumes a: "spec_ok a" and k: "k < BUDDY_MAX_ORDER" and r: "spec_allocate k a = Some (p, a')"
  shows "spec_ok a' \<and> in_use a' p k \<and> avail_pages a = avail_pages a' \<union> extent p k \<and>
    avail_pages a' \<inter> extent p k = {} \<and>
    (\<forall>q l. in_use a' q l \<longleftrightarrow> in_use a q l \<or> q = p \<and> l = k)"
proof -
  from spec_allocate_split [OF assms] obtain b where b: "a' = spec_take p k b" "spec_ok b"
    "p \<in> set (avail b k)" "avail_pages b = avail_pages a" "in_use b = in_use a" by blast
  from spec_ok_take [OF b(2)] in_use_take [OF b(2) k b(3)] avail_pages_take [OF b(2) k b(3)] b
  show ?thesis by simp
qed

text \<open>Two blocks in use never share a page.\<close>

lemma in_use_disjoint:
  "\<lbrakk> spec_ok a; in_use a p k; in_use a q l; p \<noteq> q \<rbrakk> \<Longrightarrow> extent p k \<inter> extent q l = {}"
  unfolding in_use_def by (metis spec_ok_tiled tiled_disjoint)

lemma in_use_not_avail:
  assumes a: "spec_ok a" and u: "in_use a p k"
  shows "extent p k \<inter> avail_pages a = {}"
proof -
  have "extent i j \<inter> extent p k = {}" if j: "j < BUDDY_MAX_ORDER" and i: "i \<in> set (avail a j)" for i j
  proof (rule tiled_disjoint [OF spec_ok_tiled [OF a]])
    show li: "layout a i = Some j" using spec_okD(2) [OF a j i] .
    show lp: "layout a p = Some k" using u by (simp add: in_use_def)
    show "i \<noteq> p" using li lp i u by (auto simp: in_use_def)
  qed
  then show ?thesis unfolding avail_pages_def by blast
qed

text \<open>The contract of release.\<close>

lemma spec_give_ok:
  assumes a: "spec_ok a" and u: "in_use a p k"
  shows "spec_ok (spec_give p k a)" and "p \<in> set (avail (spec_give p k a) k)"
    and "avail_pages (spec_give p k a) = avail_pages a \<union> extent p k"
    and "in_use (spec_give p k a) q l \<longleftrightarrow> in_use a q l \<and> \<not> (q = p)"
proof -
  have k: "k < BUDDY_MAX_ORDER" and lp: "layout a p = Some k" and n: "p \<notin> set (avail a k)"
    using u tiled_bound [OF spec_ok_tiled [OF a]] by (auto simp: in_use_def)
  show "spec_ok (spec_give p k a)" using a lp n by (auto simp: spec_ok_def)
  show "p \<in> set (avail (spec_give p k a) k)" by simp
  show "in_use (spec_give p k a) q l \<longleftrightarrow> in_use a q l \<and> \<not> (q = p)"
    using lp by (auto simp: in_use_def)
  show "avail_pages (spec_give p k a) = avail_pages a \<union> extent p k"
  proof (rule set_eqI)
    fix x
    have "(\<exists>i\<in>set (avail (spec_give p k a) j). x \<in> extent i j) \<longleftrightarrow>
        (\<exists>i\<in>set (avail a j). x \<in> extent i j) \<or> j = k \<and> x \<in> extent p k" for j
      by (cases "j = k") (auto simp del: mem_extent)
    then show "x \<in> avail_pages (spec_give p k a) \<longleftrightarrow> x \<in> avail_pages a \<union> extent p k"
      using k unfolding Un_iff mem_avail_pages by metis
  qed
qed

lemma spec_merge_ok:
  assumes a: "spec_ok a" and k: "Suc k < BUDDY_MAX_ORDER" and p: "p \<in> set (avail a k)"
    and b: "p + 2 ^ k \<in> set (avail a k)"
  shows "spec_ok (spec_merge p k a)" and "avail_pages (spec_merge p k a) = avail_pages a"
    and "in_use (spec_merge p k a) = in_use a"
proof -
  have k': "k < BUDDY_MAX_ORDER" using k by simp
  have lp: "layout a p = Some k" and lb: "layout a (p + 2 ^ k) = Some k"
    using spec_okD(2) [OF a k'] p b by auto
  have d: "distinct (avail a k)" using spec_okD(1) [OF a k'] .
  have other: "p \<notin> set (avail a j)" "p + 2 ^ k \<notin> set (avail a j)"
    if "j < BUDDY_MAX_ORDER" "j \<noteq> k" for j
    using that avail_unique [OF a that(1) k'] p b by auto
  let ?a = "spec_merge p k a"
  have av: "set (avail ?a k) = set (avail a k) - {p, p + 2 ^ k}" using d by auto
  have "distinct (avail ?a j) \<and> (\<forall>i\<in>set (avail ?a j). layout ?a i = Some j)"
    if j: "j < BUDDY_MAX_ORDER" for j
  proof -
    consider "j = k" | "j = Suc k" | "j \<noteq> k" "j \<noteq> Suc k" by blast
    then show ?thesis
    proof cases
      case 1
      with av spec_okD(2) [OF a k'] d show ?thesis by auto
    next
      case 2
      with other [OF k] spec_okD [OF a k] show ?thesis by auto
    next
      case 3
      with other [OF j] spec_okD [OF a j] show ?thesis by auto
    qed
  qed
  moreover have "tiled (layout ?a)" using tiled_merge [OF spec_ok_tiled [OF a] lp lb k] by simp
  ultimately show "spec_ok ?a" by (simp add: spec_ok_def)
  show "avail_pages ?a = avail_pages a"
  proof (rule set_eqI)
    fix x
    have "(\<exists>i\<in>set (avail ?a j). x \<in> extent i j) \<longleftrightarrow>
        (if j = k then \<exists>i\<in>set (avail a k) - {p, p + 2 ^ k}. x \<in> extent i k
         else (\<exists>i\<in>set (avail a j). x \<in> extent i j) \<or> j = Suc k \<and> x \<in> extent p (Suc k))" for j
      using av by (auto simp del: mem_extent)
    moreover have "(\<exists>i\<in>set (avail a k). x \<in> extent i k) \<longleftrightarrow>
        (\<exists>i\<in>set (avail a k) - {p, p + 2 ^ k}. x \<in> extent i k) \<or> x \<in> extent p (Suc k)"
      using p b by (auto simp: extent_split simp del: mem_extent)
    ultimately show "x \<in> avail_pages ?a \<longleftrightarrow> x \<in> avail_pages a"
      using k unfolding mem_avail_pages by (metis Suc_lessD n_not_Suc_n)
  qed
  show "in_use ?a = in_use a"
  proof (intro ext)
    fix q l
    show "in_use ?a q l = in_use a q l"
    proof (cases "q = p \<or> q = p + 2 ^ k")
      case True
      with lp lb p b show ?thesis by (auto simp: in_use_def)
    next
      case False
      then show ?thesis by (auto simp: in_use_def in_set_remove1)
    qed
  qed
qed

lemma spec_coalesce_ok:
  "\<lbrakk> spec_coalesce p k a = Some a'; spec_ok a; k < BUDDY_MAX_ORDER; p \<in> set (avail a k) \<rbrakk>
   \<Longrightarrow> spec_ok a' \<and> avail_pages a' = avail_pages a \<and> in_use a' = in_use a"
proof (induction p k a rule: spec_coalesce.induct)
  case (1 p k a)
  show ?case
  proof (cases "Suc k < BUDDY_MAX_ORDER \<and> p + 2 ^ k < npage \<and> p + 2 ^ k \<in> set (avail a k)")
    case True
    then have "spec_coalesce p (Suc k) (spec_merge p k a) = Some a'"
      using "1.prems"(1) by (simp add: spec_coalesce.simps [of p k a] del: spec_merge.simps)
    moreover have "p \<in> set (avail (spec_merge p k a) (Suc k))" by simp
    ultimately show ?thesis
      using "1.IH" True spec_merge_ok [OF "1.prems"(2) _ "1.prems"(4), of] by (simp del: spec_merge.simps)
  next
    case False
    then have "a' = a"
      using "1.prems"(1) by (auto simp: spec_coalesce.simps [of p k a] split: if_splits)
    with "1.prems"(2) show ?thesis by simp
  qed
qed

lemma spec_free_ok:
  assumes a: "spec_ok a" and u: "in_use a p k" and r: "spec_free p k a = Some a'"
  shows "spec_ok a' \<and> avail_pages a' = avail_pages a \<union> extent p k \<and>
    (\<forall>q l. in_use a' q l \<longleftrightarrow> in_use a q l \<and> q \<noteq> p)"
proof -
  have k: "k < BUDDY_MAX_ORDER"
    using u tiled_bound [OF spec_ok_tiled [OF a]] by (auto simp: in_use_def)
  have "spec_ok a' \<and> avail_pages a' = avail_pages (spec_give p k a) \<and>
      in_use a' = in_use (spec_give p k a)"
    by (rule spec_coalesce_ok [OF r [unfolded spec_free_def] spec_give_ok(1) [OF a u] k
        spec_give_ok(2) [OF a u]])
  then show ?thesis using spec_give_ok(3,4) [OF a u] by simp
qed

text \<open>
  Coalescing looks at the block after \<open>p\<close>; while a block in use lies above \<open>p\<close> there is one.
\<close>

lemma spec_coalesce_returns:
  "\<lbrakk> spec_ok a; k < BUDDY_MAX_ORDER; p \<in> set (avail a k); in_use a q l; p < q \<rbrakk>
   \<Longrightarrow> \<exists>a'. spec_coalesce p k a = Some a'"
proof (induction p k a rule: spec_coalesce.induct)
  case (1 p k a)
  have lp: "layout a p = Some k" using spec_okD(2) [OF "1.prems"(1-3)] .
  have q: "q < npage" "layout a q = Some l"
    using "1.prems"(4) tiled_less [OF spec_ok_tiled [OF "1.prems"(1)]] by (auto simp: in_use_def)
  have "p + 2 ^ k \<le> q"
    using tiled_inside [OF spec_ok_tiled [OF "1.prems"(1)] lp, of q] "1.prems"(5) q(2)
    by (metis not_less option.distinct(1))
  with q have b: "p + 2 ^ k < npage" by simp
  show ?case
  proof (cases "Suc k < BUDDY_MAX_ORDER \<and> p + 2 ^ k \<in> set (avail a k)")
    case True
    note m = spec_merge_ok [OF "1.prems"(1) conjunct1 [OF True] "1.prems"(3) conjunct2 [OF True]]
    have "p \<in> set (avail (spec_merge p k a) (Suc k))" by simp
    then have "\<exists>a'. spec_coalesce p (Suc k) (spec_merge p k a) = Some a'"
      using "1.IH" b True m "1.prems"(4,5) by (simp del: spec_merge.simps)
    with True b show ?thesis
      by (simp add: spec_coalesce.simps [of p k a] del: spec_merge.simps)
  next
    case False
    with b show ?thesis by (auto simp: spec_coalesce.simps [of p k a])
  qed
qed

lemma spec_coalesce_head:
  "\<lbrakk> spec_coalesce p k a = Some a'; k < BUDDY_MAX_ORDER; p \<in> set (avail a k) \<rbrakk>
   \<Longrightarrow> \<exists>l<BUDDY_MAX_ORDER. p \<in> set (avail a' l)"
proof (induction p k a rule: spec_coalesce.induct)
  case (1 p k a)
  show ?case
  proof (cases "Suc k < BUDDY_MAX_ORDER \<and> p + 2 ^ k < npage \<and> p + 2 ^ k \<in> set (avail a k)")
    case True
    then have "spec_coalesce p (Suc k) (spec_merge p k a) = Some a'"
      using "1.prems"(1) by (simp add: spec_coalesce.simps [of p k a] del: spec_merge.simps)
    moreover have "p \<in> set (avail (spec_merge p k a) (Suc k))" by simp
    ultimately show ?thesis using "1.IH" True by (simp del: spec_merge.simps)
  next
    case False
    then have "a' = a"
      using "1.prems"(1) by (auto simp: spec_coalesce.simps [of p k a] split: if_splits)
    with "1.prems"(2,3) show ?thesis by blast
  qed
qed

end
