(* ===== verification/Buddy_Refine.thy ===== *)
theory Buddy_Refine
  imports Buddy_Layout
begin

text \<open>
  The simulation between the allocator of buddy.c (\<open>Buddy\<close>) and the abstract allocator
  (\<open>Buddy_Layout\<close>): \<open>buddy_rel s a\<close> ties the free lists in the link fields, the counters, the
  flags and the orders of a concrete state to an abstract one, and every routine takes related
  states to related states with the same page returned.
\<close>

definition lists_rel :: "buddy \<Rightarrow> (nat \<Rightarrow> nat list) \<Rightarrow> bool" where
  "lists_rel s fl \<longleftrightarrow>
     family dlist (blinks s) Head BUDDY_MAX_ORDER (\<lambda>k. map Link (fl k)) \<and>
     (\<forall>k<BUDDY_MAX_ORDER. nr s k = of_nat (length (fl k)))"

definition layout_of :: "buddy \<Rightarrow> nat \<rightharpoonup> nat" where
  "layout_of s = (\<lambda>i. if i < npage \<and> pg_flag (pages s i) = PG_HEAD
                      then Some (unat (pg_order (pages s i))) else None)"

definition buddy_rel :: "buddy \<Rightarrow> alloc \<Rightarrow> bool" where
  "buddy_rel s a \<longleftrightarrow>
     lists_rel s (avail a) \<and> layout a = layout_of s \<and>
     (\<forall>k<BUDDY_MAX_ORDER. \<forall>i.
        i \<in> set (avail a k) \<longleftrightarrow> layout a i = Some k \<and> pg_free (pages s i) = 1)"

section \<open>The free lists\<close>

lemma lists_rel_upd_page [simp]: "lists_rel (upd_page i f s) fl = lists_rel s fl"
  by (simp add: lists_rel_def upd_page_def)

lemma upd_simps [simp]:
  "pages (upd_links g s) = pages s" "pages (upd_nr k h s) = pages s"
  "pages (upd_page i f s) = (pages s)(i := f (pages s i))"
  "blinks (upd_page i f s) = blinks s" "blinks (upd_nr k h s) = blinks s"
  "blinks (upd_links g s) = g (blinks s)"
  "nr (upd_page i f s) = nr s" "nr (upd_links g s) = nr s"
  "nr (upd_nr k h s) = (nr s)(k := h (nr s k))"
  by (simp_all add: upd_page_def upd_links_def upd_nr_def)

lemma pages_push_unlink [simp]:
  "pages (push_free k p s) = pages s" "pages (unlink le k s) = pages s"
  by (simp_all add: push_free_def unlink_def)

lemma map_Link_upd: "(\<lambda>j. map Link ((fl(k := v)) j)) = (\<lambda>j. map Link (fl j))(k := map Link v)"
  by auto

lemma remove1_Link: "map Link (remove1 p xs) = remove1 (Link p) (map Link xs)"
  by (induction xs) auto

lemma family_push:
  "\<lbrakk> family dlist h Head n (\<lambda>k. map Link (fl k)); k < n; \<forall>j<n. p \<notin> set (fl j) \<rbrakk>
   \<Longrightarrow> family dlist (list_append (Link p) (Head k) h) Head n (\<lambda>j. map Link ((fl(k := fl k @ [p])) j))"
  unfolding map_Link_upd map_append list.map
  by (rule dl.family_app) auto

lemma lists_rel_push:
  "\<lbrakk> lists_rel s fl; k < BUDDY_MAX_ORDER; \<forall>j<BUDDY_MAX_ORDER. p \<notin> set (fl j) \<rbrakk>
   \<Longrightarrow> lists_rel (push_free k p s) (fl(k := fl k @ [p]))"
  unfolding lists_rel_def push_free_def
  using family_push [of "blinks s" BUDDY_MAX_ORDER fl k p] by simp

lemma lists_rel_unlink:
  assumes l: "lists_rel s fl" and k: "k < BUDDY_MAX_ORDER" and p: "p \<in> set (fl k)"
  shows "lists_rel (unlink (Link p) k s) (fl(k := remove1 p (fl k)))"
proof -
  have "family dlist (list_del (Link p) (blinks s)) Head BUDDY_MAX_ORDER
      (\<lambda>j. map Link ((fl(k := remove1 p (fl k))) j))"
    unfolding map_Link_upd remove1_Link
    using l k p by (intro dl.family_del) (auto simp: lists_rel_def)
  moreover have "of_nat (length (fl k)) - 1 = (of_nat (length (remove1 p (fl k))) :: u64)"
    using p of_nat_dec [where 'a = 64, OF length_pos_if_in_set [OF p]] by (simp add: length_remove1)
  ultimately show ?thesis
    using l k by (simp add: lists_rel_def unlink_def)
qed

lemma lists_rel_first:
  "\<lbrakk> lists_rel s fl; k < BUDDY_MAX_ORDER; fl k = p # r \<rbrakk> \<Longrightarrow> nxt (blinks s) (Head k) = Link p"
  unfolding lists_rel_def by (auto intro: dl.family_first)

lemma avail_bound:
  assumes "spec_ok a" and k: "k < BUDDY_MAX_ORDER"
  shows "length (avail a k) \<le> npage"
proof -
  from assms have d: "distinct (avail a k)" and m: "tiled (layout a)"
    and l: "\<forall>i\<in>set (avail a k). layout a i = Some k" by (simp_all add: spec_ok_def)
  have "set (avail a k) \<subseteq> {..<npage}"
    using l tiled_less [OF m] by blast
  then have "card (set (avail a k)) \<le> npage"
    by (metis card_lessThan card_mono finite_lessThan)
  with d show ?thesis by (simp add: distinct_card)
qed

lemma nr_zero_iff:
  assumes "buddy_rel s a" "spec_ok a" and k: "k < BUDDY_MAX_ORDER"
  shows "nr s k = 0 \<longleftrightarrow> avail a k = []"
proof -
  have "length (avail a k) < 2 ^ LENGTH(64)"
    using avail_bound [OF assms(2) k] by (simp add: npage_def mem_size_def PGSIZE_def)
  then show ?thesis
    using assms(1) k of_nat_word_0_iff [where 'a = 64, of "length (avail a k)"]
    by (simp add: buddy_rel_def lists_rel_def)
qed

lemma lists_rel_push2:
  assumes l: "lists_rel s fl" and k: "k < BUDDY_MAX_ORDER" and pb: "p \<noteq> b"
    and new: "\<forall>j<BUDDY_MAX_ORDER. p \<notin> set (fl j) \<and> b \<notin> set (fl j)"
  shows "lists_rel (upd_nr k (\<lambda>n. n + 2) (upd_links (list_append (Link b) (Head k))
      (upd_links (list_append (Link p) (Head k)) s))) (fl(k := fl k @ [p, b]))"
proof -
  let ?fl = "fl(k := fl k @ [p])"
  have fam: "family dlist (list_append (Link p) (Head k) (blinks s)) Head BUDDY_MAX_ORDER
      (\<lambda>j. map Link (?fl j))"
    using l k new by (intro family_push) (auto simp: lists_rel_def)
  have "\<forall>j<BUDDY_MAX_ORDER. b \<notin> set (?fl j)" using pb new k by simp
  from family_push [OF fam k this]
  have "family dlist (list_append (Link b) (Head k) (list_append (Link p) (Head k) (blinks s)))
      Head BUDDY_MAX_ORDER (\<lambda>j. map Link ((?fl(k := ?fl k @ [b])) j))" .
  moreover have "?fl(k := ?fl k @ [b]) = fl(k := fl k @ [p, b])" by simp
  ultimately show ?thesis using l k by (simp add: lists_rel_def)
qed

section \<open>Splitting and allocation\<close>

lemma buddy_relD:
  assumes "buddy_rel s a"
  shows "lists_rel s (avail a)" and "layout a = layout_of s"
    and "k < BUDDY_MAX_ORDER \<Longrightarrow> i \<in> set (avail a k) \<longleftrightarrow> layout a i = Some k \<and> pg_free (pages s i) = 1"
  using assms by (auto simp: buddy_rel_def)

lemma layout_of_Some:
  "layout_of s i = Some k \<longleftrightarrow>
     i < npage \<and> pg_flag (pages s i) = PG_HEAD \<and> unat (pg_order (pages s i)) = k"
  by (auto simp: layout_of_def)

lemma split_step_refines:
  assumes r: "buddy_rel s a" and a: "spec_ok a" and t: "Suc t < BUDDY_MAX_ORDER"
    and i: "avail a (Suc t) = i # rest"
  shows "\<exists>s'. split_step t s = Inr (i, s') \<and> buddy_rel s' (spec_split t a)"
proof -
  note rel = buddy_relD [OF r]
  let ?b = "i + 2 ^ t"
  have li: "layout a i = Some (Suc t)" using spec_okD(2) [OF a t, of i] i by simp
  then have pi: "i < npage" "pg_flag (pages s i) = PG_HEAD" "unat (pg_order (pages s i)) = Suc t"
    using rel(2) by (auto simp: layout_of_Some)
  then have ord: "unat (pg_order (pages s i) - 1) = t" by (subst unat_dec) auto
  have lb: "layout a ?b = None" using tiled_inside [OF spec_ok_tiled [OF a] li] by simp
  have b: "?b < npage" using tiled_bound [OF spec_ok_tiled [OF a] li]
    by (metis add_strict_left_mono less_le_trans lessI one_less_numeral_iff power_strict_increasing semiring_norm(76))
  define s1 where "s1 = unlink (Link i) (Suc t) s"
  define s2 where "s2 = upd_page i (\<lambda>pg. pg\<lparr>pg_order := pg_order pg - 1\<rparr>) s1"
  define s3 where "s3 = upd_nr t (\<lambda>n. n + 2) (upd_links (list_append (Link ?b) (Head t))
      (upd_links (list_append (Link i) (Head t)) s2))"
  define s' where "s' = upd_page i (\<lambda>pg. pg\<lparr>pg_free := 1\<rparr>) (upd_page ?b (\<lambda>pg. pg\<lparr>pg_free := 1\<rparr>)
      (upd_page ?b (\<lambda>pg. pg\<lparr>pg_order := pg_order (pages s i) - 1\<rparr>)
      (upd_page i (\<lambda>pg. pg\<lparr>pg_flag := PG_HEAD\<rparr>) (upd_page ?b (\<lambda>pg. pg\<lparr>pg_flag := PG_HEAD\<rparr>) s3))))"
  have bud: "get_buddy_page s2 i = ?b"
    using ord by (simp add: get_buddy_page_def s2_def s1_def)
  have "split_step t s = Inr (i, s')"
    unfolding split_step_def
    using lists_rel_first [OF rel(1) t i] pi(1) b bud
    by (simp add: Let_def le2page_def s1_def [symmetric] s2_def [symmetric])
      (simp add: s'_def s3_def s2_def s1_def)
  moreover have "lists_rel s' (avail (spec_split t a))"
  proof -
    have "lists_rel s1 ((avail a)(Suc t := rest))"
      unfolding s1_def using lists_rel_unlink [OF rel(1) t, of i] i by simp
    then have "lists_rel s2 ((avail a)(Suc t := rest))" by (simp add: s2_def)
    then have "lists_rel s3 (((avail a)(Suc t := rest))(t := ((avail a)(Suc t := rest)) t @ [i, ?b]))"
      unfolding s3_def
    proof (rule lists_rel_push2)
      show "\<forall>j<BUDDY_MAX_ORDER. i \<notin> set (((avail a)(Suc t := rest)) j) \<and>
          ?b \<notin> set (((avail a)(Suc t := rest)) j)"
      proof (intro allI impI)
        fix j assume j: "j < BUDDY_MAX_ORDER"
        show "i \<notin> set (((avail a)(Suc t := rest)) j) \<and> ?b \<notin> set (((avail a)(Suc t := rest)) j)"
          using spec_okD [OF a t] spec_okD(2) [OF a j, of ?b] avail_unique [OF a j t, of i] i lb
          by (auto simp: neq_Nil_conv)
      qed
    qed (use t in simp_all)
    then show ?thesis using i by (simp add: s'_def)
  qed
  moreover have pg: "pages s' = (pages s)(
      i := (pages s i)\<lparr>pg_order := pg_order (pages s i) - 1, pg_free := 1, pg_flag := PG_HEAD\<rparr>,
      ?b := (pages s ?b)\<lparr>pg_order := pg_order (pages s i) - 1, pg_free := 1, pg_flag := PG_HEAD\<rparr>)"
    by (simp add: s'_def s3_def s2_def s1_def fun_eq_iff)
  moreover have "layout (spec_split t a) = layout_of s'"
    using i pi b ord rel(2) by (auto simp: pg layout_of_def fun_eq_iff)
  moreover have "j \<in> set (avail (spec_split t a) k) \<longleftrightarrow>
      layout (spec_split t a) j = Some k \<and> pg_free (pages s' j) = 1" if k: "k < BUDDY_MAX_ORDER" for j k
  proof -
    have "i \<notin> set rest" using spec_okD(1) [OF a t] i by simp
    moreover have "j \<in> set (avail a k) \<longleftrightarrow> layout a j = Some k \<and> pg_free (pages s j) = 1"
      using rel(3) [OF k] .
    ultimately show ?thesis using i li lb pg by auto
  qed
  ultimately show ?thesis by (intro exI [of _ s']) (simp add: buddy_rel_def del: spec_split.simps)
qed

lemma split_loop_refines:
  "\<lbrakk> buddy_rel s a; spec_ok a; Suc t < BUDDY_MAX_ORDER; small \<le> t; avail a (Suc t) \<noteq> [];
     spec_split_loop (Suc t) small a = (p, a') \<rbrakk>
   \<Longrightarrow> \<exists>s'. split_loop (Suc t) small s = Inr (p, s') \<and> buddy_rel s' a'"
proof (induction t arbitrary: s a)
  case (0 s a)
  then obtain i rest where i: "avail a (Suc 0) = i # rest" by (auto simp: neq_Nil_conv)
  from split_step_refines [OF 0(1-3) i] obtain s' where
    "split_step 0 s = Inr (i, s')" "buddy_rel s' (spec_split 0 a)" by blast
  with 0 i show ?case by (auto simp del: spec_split.simps)
next
  case (Suc t)
  then obtain i rest where i: "avail a (Suc (Suc t)) = i # rest" by (auto simp: neq_Nil_conv)
  from split_step_refines [OF Suc.prems(1-3) i] obtain s' where
    s': "split_step (Suc t) s = Inr (i, s')" "buddy_rel s' (spec_split (Suc t) a)" by blast
  show ?case
  proof (cases "small = Suc t")
    case True
    with Suc.prems(6) i s' show ?thesis by (auto simp del: spec_split.simps)
  next
    case False
    have "avail (spec_split (Suc t) a) (Suc t) \<noteq> []" using i by simp
    moreover have "spec_split_loop (Suc t) small (spec_split (Suc t) a) = (p, a')"
      using False Suc.prems(4,6)
      by (simp del: spec_split.simps spec_split_loop.simps
          add: spec_split_loop.simps(2) [of "Suc t"] Let_def)
    ultimately have "\<exists>s''. split_loop (Suc t) small s' = Inr (p, s'') \<and> buddy_rel s'' a'"
      using Suc.IH [OF s'(2) spec_ok_split [OF Suc.prems(2,3) i]] Suc.prems(3,4) False by simp
    with False s'(1) Suc.prems(4) show ?thesis
      by (simp del: split_loop.simps add: split_loop.simps(2) [of "Suc t"])
  qed
qed

text \<open>Marking a page used and taking it off its list is \<open>spec_take\<close>.\<close>

lemma take_refines:
  assumes r: "buddy_rel s a" and a: "spec_ok a" and k: "k < BUDDY_MAX_ORDER"
    and p: "p \<in> set (avail a k)"
  shows "buddy_rel (unlink (Link p) k (upd_page p (\<lambda>pg. pg\<lparr>pg_free := 0\<rparr>) s)) (spec_take p k a)"
    and "upd_page p (\<lambda>pg. pg\<lparr>pg_free := 0\<rparr>) (unlink (Link p) k s) =
      unlink (Link p) k (upd_page p (\<lambda>pg. pg\<lparr>pg_free := 0\<rparr>) s)"
proof -
  note rel = buddy_relD [OF r]
  let ?s = "unlink (Link p) k (upd_page p (\<lambda>pg. pg\<lparr>pg_free := 0\<rparr>) s)"
  have "lists_rel ?s (avail (spec_take p k a))"
    using lists_rel_unlink [of "upd_page p (\<lambda>pg. pg\<lparr>pg_free := 0\<rparr>) s" "avail a" k p] rel(1) k p by simp
  moreover have "layout (spec_take p k a) = layout_of ?s"
    using rel(2) by (auto simp: layout_of_def fun_eq_iff)
  moreover have "j \<in> set (avail (spec_take p k a) l) \<longleftrightarrow>
      layout (spec_take p k a) j = Some l \<and> pg_free (pages ?s j) = 1" if l: "l < BUDDY_MAX_ORDER" for j l
    using rel(3) [OF l, of j] spec_okD [OF a k] p by auto
  ultimately show "buddy_rel ?s (spec_take p k a)" by (simp add: buddy_rel_def del: spec_take.simps)
  show "upd_page p (\<lambda>pg. pg\<lparr>pg_free := 0\<rparr>) (unlink (Link p) k s) = ?s"
    by (simp add: upd_page_def unlink_def upd_links_def upd_nr_def)
qed

lemma buddy_split_refines:
  assumes r: "buddy_rel s a" and a: "spec_ok a" and large: "large < BUDDY_MAX_ORDER"
    and ne: "avail a large \<noteq> []" and small: "small < large"
    and sp: "spec_split_loop large small a = (p, b)"
  shows "\<exists>s'. buddy_split large small s = Inr (p, s') \<and> buddy_rel s' (spec_take p small b)"
proof -
  from small obtain t where t: "large = Suc t" "small \<le> t" by (cases large) auto
  from split_loop_refines [OF r a large [unfolded t(1)] t(2) ne [unfolded t(1)] sp [unfolded t(1)]]
  obtain s1 where s1: "split_loop large small s = Inr (p, s1)" "buddy_rel s1 b" using t by blast
  from spec_split_loop_ok [OF sp [unfolded t(1)] a large [unfolded t(1)] t(2) ne [unfolded t(1)]]
  have b: "spec_ok b" "p \<in> set (avail b small)" by simp_all
  have k: "small < BUDDY_MAX_ORDER" using small large by simp
  then have "layout_of s1 p = Some small"
    using spec_okD(2) [OF b(1) k b(2)] buddy_relD(2) [OF s1(2)] by simp
  then have "small = unat (pg_order (pages s1 p))" by (simp add: layout_of_Some)
  then have "pg_order (pages s1 p) = of_nat small" by simp
  moreover have "nr s large \<noteq> 0" using nr_zero_iff [OF r a large] ne by simp
  ultimately show ?thesis
    using s1 t large take_refines(1) [OF s1(2) b(1) k b(2)]
    by (simp add: buddy_split_def del: spec_take.simps)
qed

lemma find_order_refines:
  "\<lbrakk> buddy_rel s a; spec_ok a \<rbrakk> \<Longrightarrow>
   find_order s k = (case find (\<lambda>j. avail a j \<noteq> []) [k..<BUDDY_MAX_ORDER] of
                       None \<Rightarrow> Inl Out_Of_Bounds | Some j \<Rightarrow> Inr j)"
proof (induction s k rule: find_order.induct)
  case (1 s k)
  show ?case
  proof (cases "k < BUDDY_MAX_ORDER")
    case True
    then show ?thesis
      using "1" nr_zero_iff [OF "1.prems" True]
      by (simp add: find_order.simps [of s k] upt_conv_Cons)
  qed (simp add: find_order.simps [of s k])
qed

lemma allocate_refines:
  assumes r: "buddy_rel s a" and a: "spec_ok a" and k: "unat (size2order sz) < BUDDY_MAX_ORDER"
  shows "case spec_allocate (unat (size2order sz)) a of
      None \<Rightarrow> buddy_allocate sz s = Inl Out_Of_Bounds
    | Some (p, a') \<Rightarrow> \<exists>s'. buddy_allocate sz s = Inr (p, s') \<and> buddy_rel s' a'"
proof -
  let ?k = "unat (size2order sz)"
  show ?thesis
  proof (cases "avail a ?k")
    case (Cons p rest)
    have p: "p \<in> set (avail a ?k)" using Cons by simp
    have pn: "p < npage"
      using tiled_less [OF spec_ok_tiled [OF a] spec_okD(2) [OF a k p]] .
    have "nr s ?k > 0" using nr_zero_iff [OF r a k] Cons word_gt_0 by auto
    moreover have "nxt (blinks s) (Head ?k) = Link p"
      using lists_rel_first [OF buddy_relD(1) [OF r] k Cons] .
    ultimately have "buddy_allocate sz s =
        Inr (p, unlink (Link p) ?k (upd_page p (\<lambda>pg. pg\<lparr>pg_free := 0\<rparr>) s))"
      using k pn take_refines(2) [OF r a k p] by (simp add: buddy_allocate_def Let_def le2page_def)
    with take_refines(1) [OF r a k p] Cons show ?thesis
      by (simp add: spec_allocate_def del: spec_take.simps)
  next
    case Nil
    then have nr: "nr s ?k = 0" using nr_zero_iff [OF r a k] by simp
    show ?thesis
    proof (cases "find (\<lambda>j. avail a j \<noteq> []) [Suc ?k..<BUDDY_MAX_ORDER]")
      case None
      with Nil nr k show ?thesis
        by (simp add: spec_allocate_def buddy_allocate_def find_order_refines [OF r a])
    next
      case (Some j)
      then have j: "j < BUDDY_MAX_ORDER" "?k < j" "avail a j \<noteq> []"
        by (auto simp: find_Some_iff simp del: upt_Suc)
      obtain p b where sp: "spec_split_loop j ?k a = (p, b)" by fastforce
      from buddy_split_refines [OF r a j(1,3,2) sp] Some Nil nr k sp show ?thesis
        by (simp add: spec_allocate_def buddy_allocate_def find_order_refines [OF r a]
            del: spec_take.simps)
    qed
  qed
qed

section \<open>Release\<close>

lemma merge_step_refines:
  assumes r: "buddy_rel s a" and a: "spec_ok a" and k: "Suc k < BUDDY_MAX_ORDER"
    and p: "p \<in> set (avail a k)" and b: "p + 2 ^ k \<in> set (avail a k)"
  defines "s1 \<equiv> upd_page (p + 2 ^ k) (\<lambda>pg. pg\<lparr>pg_flag := PG_TAIL\<rparr>) s"
  defines "s3 \<equiv> unlink (Link p) k (unlink (Link (p + 2 ^ k)) k s1)"
  shows "buddy_rel (push_free (Suc k) p (upd_page p (\<lambda>pg. pg\<lparr>pg_order := pg_order pg + 1\<rparr>) s3))
    (spec_merge p k a)"
proof -
  note rel = buddy_relD [OF r]
  let ?b = "p + 2 ^ k" and ?a = "spec_merge p k a"
  let ?s = "push_free (Suc k) p (upd_page p (\<lambda>pg. pg\<lparr>pg_order := pg_order pg + 1\<rparr>) s3)"
  have k': "k < BUDDY_MAX_ORDER" using k by simp
  have lp: "layout_of s p = Some k" and lb: "layout_of s ?b = Some k"
    using spec_okD(2) [OF a k'] p b rel(2) by auto
  have ord: "unat (pg_order (pages s p) + 1) = Suc k"
    using lp k by (subst unat_inc) (auto simp: layout_of_Some BUDDY_MAX_ORDER_def)
  have pg: "pages ?s = (pages s)(p := (pages s p)\<lparr>pg_order := pg_order (pages s p) + 1\<rparr>,
      ?b := (pages s ?b)\<lparr>pg_flag := PG_TAIL\<rparr>)"
    by (auto simp: s3_def s1_def fun_eq_iff)
  have d: "distinct (avail a k)" using spec_okD(1) [OF a k'] .
  define fl where "fl = (avail a)(k := remove1 p (remove1 ?b (avail a k)))"
  have "lists_rel (unlink (Link ?b) k s1) ((avail a)(k := remove1 ?b (avail a k)))"
    using lists_rel_unlink [of s1 "avail a" k ?b] rel(1) k' b by (simp add: s1_def)
  from lists_rel_unlink [OF this k', of p] have "lists_rel s3 fl"
    using p by (simp add: s3_def fl_def in_set_remove1)
  moreover have "\<forall>j<BUDDY_MAX_ORDER. p \<notin> set (fl j)"
    using avail_unique [OF a _ k'] p d by (auto simp: fl_def)
  ultimately have "lists_rel ?s (fl(Suc k := fl (Suc k) @ [p]))"
    using k by (intro lists_rel_push) simp_all
  then have "lists_rel ?s (avail ?a)" by (simp add: fl_def)
  moreover have "layout ?a = layout_of ?s"
    using rel(2) lp lb ord pg by (auto simp: layout_of_def fun_eq_iff PG_TAIL_def PG_HEAD_def)
  moreover have "j \<in> set (avail ?a l) \<longleftrightarrow> layout ?a j = Some l \<and> pg_free (pages ?s j) = 1"
    if l: "l < BUDDY_MAX_ORDER" for j l
  proof -
    have old: "j \<in> set (avail a l) \<longleftrightarrow> layout a j = Some l \<and> pg_free (pages s j) = 1"
      using rel(3) [OF l] .
    have "pg_free (pages s p) = 1" using rel(3) [OF k', of p] p by simp
    then show ?thesis
      using old lp lb d pg rel(2) by (auto simp: in_set_remove1)
  qed
  ultimately show ?thesis by (simp add: buddy_rel_def del: spec_merge.simps)
qed

lemma buddy_merge_refines:
  "\<lbrakk> buddy_rel s a; spec_ok a; k < BUDDY_MAX_ORDER; p \<in> set (avail a k) \<rbrakk> \<Longrightarrow>
   case spec_coalesce p k a of
     None \<Rightarrow> buddy_merge p s = Inl Out_Of_Bounds
   | Some a' \<Rightarrow> \<exists>s'. buddy_merge p s = Inr s' \<and> buddy_rel s' a'"
proof (induction p k a arbitrary: s rule: spec_coalesce.induct)
  case (1 p k a s)
  note rel = buddy_relD [OF "1.prems"(1)]
  let ?b = "p + 2 ^ k"
  have lp: "layout_of s p = Some k"
    using spec_okD(2) [OF "1.prems"(2-4)] rel(2) by simp
  then have ord: "unat (pg_order (pages s p)) = k" by (simp add: layout_of_Some)
  have bud: "get_buddy_page s p = ?b" using ord by (simp add: get_buddy_page_def)
  have free_b: "?b \<in> set (avail a k) \<longleftrightarrow> pg_free (pages s ?b) = 1 \<and> pg_flag (pages s ?b) = PG_HEAD
      \<and> pg_order (pages s ?b) = pg_order (pages s p)" if "?b < npage"
    using rel(2) rel(3) [OF "1.prems"(3), of ?b] that ord
    by (auto simp: layout_of_def word_unat_eq_iff)
  show ?case
  proof (cases "Suc k < BUDDY_MAX_ORDER \<and> ?b < npage \<and> ?b \<in> set (avail a k)")
    case True
    let ?s1 = "upd_page ?b (\<lambda>pg. pg\<lparr>pg_flag := PG_TAIL\<rparr>) s"
    let ?s3 = "unlink (Link p) k (unlink (Link ?b) k ?s1)"
    let ?s4 = "upd_page p (\<lambda>pg. pg\<lparr>pg_order := pg_order pg + 1\<rparr>) ?s3"
    have inc: "unat (pg_order (pages s p) + 1) = Suc k"
      using ord True by (subst unat_inc) (auto simp: BUDDY_MAX_ORDER_def)
    have eq1: "buddy_merge p s = buddy_merge p (push_free (Suc k) p ?s4)"
      using True free_b ord bud inc
      by (subst buddy_merge.simps) (simp add: Let_def less_diff_conv)
    have eq2: "spec_coalesce p k a = spec_coalesce p (Suc k) (spec_merge p k a)"
      using True by (simp add: spec_coalesce.simps [of p k a] del: spec_merge.simps)
    have "p \<in> set (avail (spec_merge p k a) (Suc k))" by simp
    then show ?thesis
      unfolding eq1 eq2
      using "1.IH" True merge_step_refines [OF "1.prems"(1,2) conjunct1 [OF True] "1.prems"(4)]
        spec_merge_ok(1) [OF "1.prems"(2) conjunct1 [OF True] "1.prems"(4)]
      by (simp del: spec_merge.simps)
  next
    case False
    then show ?thesis
      using free_b ord bud "1.prems"(1)
      by (auto simp: spec_coalesce.simps [of p k a] buddy_merge.simps [of p s] Let_def less_diff_conv)
  qed
qed

lemma free_refines:
  assumes r: "buddy_rel s a" and a: "spec_ok a" and u: "in_use a p k"
  shows "case spec_free p k a of
      None \<Rightarrow> buddy_free_page p s = Inl Out_Of_Bounds
    | Some a' \<Rightarrow> \<exists>s'. buddy_free_page p s = Inr s' \<and> buddy_rel s' a'"
proof -
  note rel = buddy_relD [OF r]
  have lp: "layout a p = Some k" and n: "p \<notin> set (avail a k)" using u by (auto simp: in_use_def)
  have k: "k < BUDDY_MAX_ORDER" using tiled_bound [OF spec_ok_tiled [OF a] lp] by simp
  have pg: "p < npage" "pg_flag (pages s p) = PG_HEAD" "unat (pg_order (pages s p)) = k"
    using lp rel(2) by (auto simp: layout_of_Some)
  have nf: "pg_free (pages s p) \<noteq> 1" using rel(3) [OF k, of p] lp n by simp
  let ?s = "push_free k p (upd_page p (\<lambda>pg. pg\<lparr>pg_free := 1\<rparr>) s)"
  have "\<forall>j<BUDDY_MAX_ORDER. p \<notin> set (avail a j)"
    using spec_okD(2) [OF a] lp n by fastforce
  then have "lists_rel ?s (avail (spec_give p k a))"
    using lists_rel_push [of "upd_page p (\<lambda>pg. pg\<lparr>pg_free := 1\<rparr>) s" "avail a" k p] rel(1) k by simp
  moreover have "layout (spec_give p k a) = layout_of ?s"
    using rel(2) by (auto simp: layout_of_def fun_eq_iff)
  moreover have "j \<in> set (avail (spec_give p k a) l) \<longleftrightarrow>
      layout (spec_give p k a) j = Some l \<and> pg_free (pages ?s j) = 1" if l: "l < BUDDY_MAX_ORDER" for j l
    using rel(3) [OF l, of j] lp by auto
  ultimately have "buddy_rel ?s (spec_give p k a)" by (simp add: buddy_rel_def del: spec_give.simps)
  from buddy_merge_refines [OF this spec_give_ok(1) [OF a u] k spec_give_ok(2) [OF a u]]
  moreover have "buddy_free_page p s = buddy_merge p ?s"
    using pg nf k by (simp add: buddy_free_page_def PG_HEAD_def PG_TAIL_def Let_def)
  ultimately show ?thesis by (simp only: spec_free_def)
qed

end
