(* ===== verification/Buddy_Props.thy ===== *)
theory Buddy_Props
  imports Buddy_Refine
begin

text \<open>
  What the buddy allocator guarantees to the rest of the kernel, stated on the concrete state of
  buddy.c: the invariant, the effect of every call on the free pages and on the blocks in use,
  and the inputs on which a call does not return.
\<close>

definition buddy_inv :: "buddy \<Rightarrow> bool" where
  "buddy_inv s \<longleftrightarrow> (\<exists>a. buddy_rel s a \<and> spec_ok a)"

text \<open>A block in use, and the pages of the free blocks, read off the page descriptors.\<close>

definition used_block :: "buddy \<Rightarrow> nat \<Rightarrow> nat \<Rightarrow> bool" where
  "used_block s p k \<longleftrightarrow> layout_of s p = Some k \<and> pg_free (pages s p) \<noteq> 1"

definition free_block :: "buddy \<Rightarrow> nat \<Rightarrow> nat \<Rightarrow> bool" where
  "free_block s p k \<longleftrightarrow> layout_of s p = Some k \<and> pg_free (pages s p) = 1"

definition free_pages :: "buddy \<Rightarrow> nat set" where
  "free_pages s = (\<Union>(i, k)\<in>{(i, k). free_block s i k}. extent i k)"

lemma layout_bound: "\<lbrakk> buddy_inv s; layout_of s p = Some k \<rbrakk> \<Longrightarrow> k < BUDDY_MAX_ORDER \<and> p + 2 ^ k \<le> npage"
  unfolding buddy_inv_def by (metis buddy_relD(2) spec_ok_tiled tiled_bound)

lemma rel_used: "\<lbrakk> buddy_rel s a; spec_ok a \<rbrakk> \<Longrightarrow> in_use a = used_block s"
  using buddy_relD(2,3) [of s a] tiled_bound [OF spec_ok_tiled, of a]
  by (fastforce simp: in_use_def used_block_def fun_eq_iff)

lemma rel_free_block:
  "\<lbrakk> buddy_rel s a; spec_ok a \<rbrakk> \<Longrightarrow> free_block s i k \<longleftrightarrow> k < BUDDY_MAX_ORDER \<and> i \<in> set (avail a k)"
  using buddy_relD(2,3) [of s a] tiled_bound [OF spec_ok_tiled, of a i k]
  by (auto simp: free_block_def)

lemma rel_free_pages: "\<lbrakk> buddy_rel s a; spec_ok a \<rbrakk> \<Longrightarrow> avail_pages a = free_pages s"
  by (auto simp: avail_pages_def free_pages_def rel_free_block)

section \<open>Allocation\<close>

lemma allocate_cases:
  assumes i: "buddy_inv s" and k: "unat (size2order sz) < BUDDY_MAX_ORDER"
  obtains (fail) "buddy_allocate sz s = Inl Out_Of_Bounds" "\<forall>l p. unat (size2order sz) \<le> l \<longrightarrow> \<not> free_block s p l"
  | (ok) p s' where "buddy_allocate sz s = Inr (p, s')" "buddy_inv s'"
      "used_block s' p (unat (size2order sz))"
      "free_pages s = free_pages s' \<union> extent p (unat (size2order sz))"
      "free_pages s' \<inter> extent p (unat (size2order sz)) = {}"
      "\<forall>q l. used_block s' q l \<longleftrightarrow> used_block s q l \<or> q = p \<and> l = unat (size2order sz)"
proof -
  let ?k = "unat (size2order sz)"
  from i obtain a where a: "buddy_rel s a" "spec_ok a" by (auto simp: buddy_inv_def)
  show thesis
  proof (cases "spec_allocate ?k a")
    case None
    then have "avail a ?k = []" "find (\<lambda>j. avail a j \<noteq> []) [Suc ?k..<BUDDY_MAX_ORDER] = None"
      by (auto simp: spec_allocate_def split: list.splits option.splits prod.splits)
    then have "avail a l = []" if "?k \<le> l" "l < BUDDY_MAX_ORDER" for l
      using that by (cases "l = ?k") (auto simp: find_None_iff)
    then have "\<forall>l p. ?k \<le> l \<longrightarrow> \<not> free_block s p l"
      by (auto simp: rel_free_block [OF a])
    with None allocate_refines [OF a k] show ?thesis by (intro fail) auto
  next
    case (Some r)
    obtain p a' where r: "r = (p, a')" by (cases r)
    with Some allocate_refines [OF a k] obtain s' where
      s': "buddy_allocate sz s = Inr (p, s')" "buddy_rel s' a'" by auto
    from spec_allocate_ok [OF a(2) k Some [unfolded r]] s' a
    show ?thesis
      by (intro ok [of p s'])
        (auto simp: buddy_inv_def rel_used [symmetric] rel_free_pages [symmetric])
  qed
qed

text \<open>
  C15: a page that \<open>buddy_allocate\<close> returns starts a block of the order asked for that was wholly
  free before the call; the free pages lose exactly that block, every other block in use stays
  in use with its order, and the allocator's invariant is kept.
\<close>

theorem allocate_sound:
  assumes "buddy_inv s" and "buddy_allocate sz s = Inr (p, s')"
  shows "buddy_inv s' \<and> used_block s' p (unat (size2order sz)) \<and>
    extent p (unat (size2order sz)) \<subseteq> free_pages s \<and>
    free_pages s' = free_pages s - extent p (unat (size2order sz)) \<and>
    (\<forall>q l. used_block s' q l \<longleftrightarrow> used_block s q l \<or> q = p \<and> l = unat (size2order sz))"
proof -
  have "unat (size2order sz) < BUDDY_MAX_ORDER"
    by (rule ccontr) (use assms(2) in \<open>simp add: buddy_allocate_def\<close>)
  with assms(1) show ?thesis
  proof (cases rule: allocate_cases)
    case (ok q t)
    with assms(2) show ?thesis by auto
  qed (use assms(2) in simp)
qed

section \<open>Sizes and orders\<close>

lemma order_loop_le1: "t \<le> 1 \<Longrightarrow> order_loop t n = n"
  by (auto simp: order_loop.simps [of t n])

lemma order_loop_log:
  "\<lbrakk> 0 < t; unat n + unat t < 2 ^ 32 \<rbrakk> \<Longrightarrow>
   \<exists>r. unat (order_loop t n) = unat n + r \<and> 2 ^ r \<le> unat t \<and> unat t < 2 ^ Suc r"
proof (induction t n rule: order_loop.induct)
  case (1 t n)
  show ?case
  proof (cases "t > 1")
    case False
    then have "t = 1" using "1.prems"(1) by unat_arith
    then show ?thesis by (simp add: order_loop_le1)
  next
    case True
    let ?t = "drop_bit 1 t"
    have t1: "1 < unat t" using True by (simp add: word_less_nat_alt)
    have t: "unat ?t = unat t div 2" by (simp add: drop_bit_eq_div unat_div)
    have n: "unat (n + 1) = unat n + 1" using "1.prems"(2) t1 by (intro unat_inc) simp
    have "0 < ?t" using t t1 by (simp add: word_less_nat_alt)
    moreover have "unat (n + 1) + unat ?t < 2 ^ 32" using "1.prems"(2) n t t1 by simp
    ultimately obtain r where r: "unat (order_loop ?t (n + 1)) = unat (n + 1) + r"
      "2 ^ r \<le> unat ?t" "unat ?t < 2 ^ Suc r" using "1.IH" [OF True] by blast
    have "2 ^ Suc r \<le> unat t" "unat t < 2 ^ Suc (Suc r)" using r(2,3) t by auto
    then show ?thesis
      using True r(1) n by (intro exI [of _ "Suc r"]) (simp add: order_loop.simps [of t n])
  qed
qed

lemma block_bytes: "r \<le> 18 \<Longrightarrow> (scast (push_bit r 1 * 0x1000 :: u32) :: u64) = 2 ^ (r + 12)"
proof -
  assume "r \<le> 18"
  then have "r \<in> set [0..<19]" by simp
  then show ?thesis by (auto simp: upt_rec)
qed

lemma size2order_least:
  assumes small: "sz \<le> 2 ^ 30"
  defines "k \<equiv> unat (size2order sz)"
  shows "unat sz \<le> 2 ^ (k + 12) \<and> (k = 0 \<or> 2 ^ (k + 11) < unat sz)"
proof -
  let ?n = "ucast (sz div 0x1000) :: u32"
  have szn: "unat sz \<le> 2 ^ 30" using small by (simp add: word_le_nat_alt)
  have n: "unat ?n = unat sz div 4096"
    using szn by (subst unat_ucast_small) (simp_all add: unat_div)
  have nb: "unat ?n \<le> 2 ^ 18" using n szn by simp
  obtain r where r: "unat (order_loop ?n 0) = r" "r \<le> 18"
    and lo: "r \<noteq> 0 \<longrightarrow> 2 ^ r \<le> unat ?n" and hi: "unat ?n < 2 ^ Suc r"
  proof (cases "0 < ?n")
    case True
    then obtain r where r: "unat (order_loop ?n 0) = r" "2 ^ r \<le> unat ?n" "unat ?n < 2 ^ Suc r"
      using order_loop_log [of ?n 0] nb by auto
    have "(2::nat) ^ r \<le> 2 ^ 18" using r(2) nb by simp
    then have "r \<le> 18" by (simp only: power_increasing_iff)
    with r show ?thesis by (intro that) auto
  next
    case False
    then have "?n = 0" by (simp add: word_gt_0)
    then show ?thesis by (intro that [of 0]) (simp_all add: order_loop_le1)
  qed
  have res: "unat (scast (push_bit r 1 * of_nat BUDDY_PAGE_SIZE :: u32) :: u64) = 2 ^ (r + 12)"
    using block_bytes [OF r(2)] r(2) unat_2p [where 'a = 64, of "r + 12"] by (simp add: BUDDY_PAGE_SIZE_def)
  have k: "k = (if unat sz > 2 ^ (r + 12) then Suc r else r)"
    using r res by (simp add: k_def size2order_def Let_def word_less_nat_alt BUDDY_PAGE_SIZE_def unat_word_ariths)
  have "unat sz < 2 ^ Suc r * 4096" using hi n by (simp add: div_less_iff_less_mult)
  then have up: "unat sz < 2 ^ (Suc r + 12)" by (simp add: power_add)
  have "r \<noteq> 0 \<longrightarrow> 2 ^ r * 4096 \<le> unat sz" using lo n by (simp add: less_eq_div_iff_mult_less_eq)
  then have low: "r \<noteq> 0 \<longrightarrow> 2 ^ (r + 12) \<le> unat sz" by (simp add: power_add)
  have mid: "(2::nat) ^ (r + 11) < 2 ^ (r + 12)" by simp
  show ?thesis
  proof (cases "2 ^ (r + 12) < unat sz")
    case True
    with k have "k = Suc r" by simp
    with True up show ?thesis by (simp add: add.commute)
  next
    case False
    with k have "k = r" by simp
    moreover have "r \<noteq> 0 \<longrightarrow> 2 ^ (r + 11) < unat sz" using low mid by linarith
    ultimately show ?thesis using False by auto
  qed
qed

text \<open>
  Up to 1 GB, \<open>size2order\<close> is the least order whose block holds the size.
\<close>

theorem size2order_small:
  assumes "sz \<le> 2 ^ 30"
  shows "unat sz \<le> 2 ^ (unat (size2order sz) + 12) \<and>
    (size2order sz \<noteq> 0 \<longrightarrow> 2 ^ (unat (size2order sz) + 11) < unat sz)"
  using size2order_least [OF assms] by (auto simp: unat_eq_0)

lemma size2order_eq_small: "size2order 0x1000 = 0" "size2order 1 = 0" "size2order 0x8000 = 3"
  by (simp_all add: size2order_def order_loop.simps BUDDY_PAGE_SIZE_def)

section \<open>Initialisation\<close>

definition init_alloc :: alloc where
  "init_alloc = \<lparr>layout = [0 \<mapsto> 13, 8192 \<mapsto> 13], avail = (\<lambda>_. [])(13 := [0, 8192])\<rparr>"

lemma npage_eq: "npage = 16384"
  by (simp add: npage_def mem_size_def PGSIZE_def)

lemma spec_ok_init: "spec_ok init_alloc"
proof -
  have "tiled [0 \<mapsto> 13, 8192 \<mapsto> 13]"
    unfolding tiled_def
  proof (intro conjI allI impI)
    fix x :: nat assume "x < npage"
    then have "x \<in> extent 0 13 \<or> x \<in> extent 8192 13" by (auto simp: npage_eq)
    then show "\<exists>i k. [0 \<mapsto> 13, 8192 \<mapsto> (13::nat)] i = Some k \<and> x \<in> extent i k"
      by (metis fun_upd_same fun_upd_other zero_neq_numeral)
  qed (auto simp: npage_eq BUDDY_MAX_ORDER_def split: if_splits)
  then show ?thesis
    by (auto simp: spec_ok_def init_alloc_def)
qed

lemma dlist_empty_heads:
  "k < n \<Longrightarrow> dlist (blinks (fold (\<lambda>i s. upd_nr i (\<lambda>_. 0) (upd_links (init_list_head (Head i)) s)) [0..<n] s))
     (Head k) []"
proof (induction n)
  case (Suc n)
  then show ?case
    by (cases "k = n") (auto simp: dlist_def init_list_head_def)
qed simp

lemma nr_empty_heads:
  "k < n \<Longrightarrow> nr (fold (\<lambda>i s. upd_nr i (\<lambda>_. 0) (upd_links (init_list_head (Head i)) s)) [0..<n] s) k = 0"
  by (induction n) (auto simp: less_Suc_eq)

lemma pages_lists_init [simp]: "pages (buddy_lists_init s) = pages s"
proof -
  have "pages (fold (\<lambda>i s. upd_nr i (\<lambda>_. 0) (upd_links (init_list_head (Head i)) s)) xs s) = pages s" for xs
    by (induction xs arbitrary: s) simp_all
  then show ?thesis by (simp add: buddy_lists_init_def)
qed

lemma lists_rel_init: "lists_rel (memset_pages (buddy_lists_init s)) (\<lambda>_. [])"
proof -
  have "dlist (blinks (memset_pages (buddy_lists_init s))) (Head k) []" if "k < BUDDY_MAX_ORDER" for k
    by (rule dlist_frame [OF dlist_empty_heads [OF that, of s, folded buddy_lists_init_def]])
      (simp add: memset_pages_def Let_def)
  moreover have "nr (memset_pages (buddy_lists_init s)) k = 0" if "k < BUDDY_MAX_ORDER" for k
    using nr_empty_heads [OF that, of s] by (simp add: memset_pages_def Let_def buddy_lists_init_def)
  ultimately show ?thesis by (simp add: lists_rel_def family_def)
qed

lemma pages_init_unfold:
  "buddy_pages_init s = init_chunk 8192 (init_chunk 0 (memset_pages s))"
  by (simp add: buddy_pages_init_def pages_init_from.simps npage_eq BUDDY_MAX_ORDER_NR_PAGES_def
      BUDDY_MAX_ORDER_def)

lemma init_chunk_lists:
  "\<lbrakk> lists_rel s fl; \<forall>j<BUDDY_MAX_ORDER. i \<notin> set (fl j) \<rbrakk> \<Longrightarrow>
   lists_rel (init_chunk i s) (fl(13 := fl 13 @ [i]))"
  using lists_rel_push [of s fl 13 i]
  by (simp add: init_chunk_def Let_def BUDDY_MAX_ORDER_def push_free_def lists_rel_def)

lemma init_rel:
  assumes "\<forall>i<npage. npage div sizeof_page \<le> i \<longrightarrow> pg_flag (pages s i) \<noteq> PG_HEAD"
  shows "buddy_rel (buddy_init s) init_alloc"
proof -
  let ?s = "memset_pages (buddy_lists_init s)"
  have "lists_rel (init_chunk 8192 (init_chunk 0 ?s)) (((\<lambda>_. [])(13 := [] @ [0]))(13 := [0] @ [8192]))"
    using init_chunk_lists [OF init_chunk_lists [OF lists_rel_init [of s], of 0], of 8192] by simp
  moreover have "((\<lambda>_. [])(13 := [] @ [0]))(13 := [0] @ [8192]) = avail init_alloc"
    by (simp add: init_alloc_def)
  ultimately have "lists_rel (buddy_init s) (avail init_alloc)"
    by (simp only: buddy_init_def pages_init_unfold)
  moreover have flags: "pages (buddy_init s) = (pages ?s)(0 := \<lparr>pg_order = 13, pg_free = 1, pg_flag = PG_HEAD\<rparr>,
      8192 := (pages ?s 8192)\<lparr>pg_order := 13, pg_free := 1, pg_flag := PG_HEAD\<rparr>)"
    by (simp add: buddy_init_def pages_init_unfold init_chunk_def Let_def BUDDY_MAX_ORDER_def
        memset_pages_def npage_eq sizeof_page_def fun_eq_iff)
  moreover have "pg_flag (pages ?s i) \<noteq> PG_HEAD" if "i < npage" for i
    using assms that by (simp add: memset_pages_def Let_def PG_HEAD_def)
  ultimately show ?thesis
    by (auto simp: buddy_rel_def init_alloc_def layout_of_def fun_eq_iff npage_eq)
qed

lemma init_avail: "avail_pages init_alloc = {..<npage}"
proof -
  have "avail_pages init_alloc = extent 0 13 \<union> extent 8192 13"
    by (auto simp: avail_pages_def init_alloc_def BUDDY_MAX_ORDER_def simp del: mem_extent split: if_splits)
  then show ?thesis by (auto simp: npage_eq)
qed

text \<open>
  C20: from a page array whose descriptors past the first 512 are not marked as heads (a zeroed
  \<open>.bss\<close>), \<open>buddy_init\<close> establishes the invariant with every page free and no block in use.
\<close>

theorem init_establishes:
  assumes "\<forall>i<npage. npage div sizeof_page \<le> i \<longrightarrow> pg_flag (pages s i) \<noteq> PG_HEAD"
  shows "buddy_inv (buddy_init s) \<and> free_pages (buddy_init s) = {..<npage} \<and>
    (\<forall>p k. \<not> used_block (buddy_init s) p k)"
proof -
  note r = init_rel [OF assms]
  have "\<not> in_use init_alloc p k" for p k
    by (auto simp: in_use_def init_alloc_def)
  then show ?thesis
    using init_avail r spec_ok_init rel_used [OF r spec_ok_init] rel_free_pages [OF r spec_ok_init]
    by (auto simp: buddy_inv_def)
qed

definition zero_buddy :: buddy where
  "zero_buddy = \<lparr>pages = (\<lambda>_. \<lparr>pg_order = 0, pg_free = 0, pg_flag = 0\<rparr>),
     blinks = \<lparr>prev = (\<lambda>_. Null), nxt = (\<lambda>_. Null)\<rparr>, nr = (\<lambda>_. 0)\<rparr>"

lemma zero_flags: "\<forall>i<npage. npage div sizeof_page \<le> i \<longrightarrow> pg_flag (pages zero_buddy i) \<noteq> PG_HEAD"
  by (simp add: zero_buddy_def PG_HEAD_def)

theorem init_establishes_witness:
  "buddy_inv (buddy_init zero_buddy) \<and> free_pages (buddy_init zero_buddy) = {..<16384}"
  using init_establishes [OF zero_flags] by (simp add: npage_eq)

lemma zero_rel: "buddy_rel (buddy_init zero_buddy) init_alloc"
  by (rule init_rel [OF zero_flags])

lemma zero_inv: "buddy_inv (buddy_init zero_buddy)"
  using zero_rel spec_ok_init by (auto simp: buddy_inv_def)

section \<open>When a call returns\<close>

text \<open>C21: while some free block is large enough, \<open>buddy_allocate\<close> returns.\<close>

theorem allocate_succeeds:
  assumes "buddy_inv s" and "free_block s q l" and "unat (size2order sz) \<le> l"
  shows "\<exists>p s'. buddy_allocate sz s = Inr (p, s')"
proof -
  have "unat (size2order sz) < BUDDY_MAX_ORDER"
    using assms layout_bound [OF assms(1), of q l] by (simp add: free_block_def)
  with assms(1) show ?thesis
    by (cases rule: allocate_cases) (use assms in auto)
qed

text \<open>
  C37: when no free block is large enough the call does not reach its "allocate size too large"
  panic: the search reads \<open>buddy_lists[BUDDY_MAX_ORDER]\<close>, past the end of the array.
\<close>

theorem allocate_exhausted:
  assumes "buddy_inv s" and "unat (size2order sz) < BUDDY_MAX_ORDER"
    and "\<forall>q l. unat (size2order sz) \<le> l \<longrightarrow> \<not> free_block s q l"
  shows "buddy_allocate sz s = Inl Out_Of_Bounds"
  using assms(1,2)
proof (cases rule: allocate_cases)
  case (ok p s')
  from assms(1) obtain a where a: "buddy_rel s a" "spec_ok a" by (auto simp: buddy_inv_def)
  have none: "avail a j = []" if "unat (size2order sz) \<le> j" "j < BUDDY_MAX_ORDER" for j
    using assms(3) that rel_free_block [OF a, of "hd (avail a j)" j] by (cases "avail a j") auto
  then have "find (\<lambda>j. avail a j \<noteq> []) [Suc (unat (size2order sz))..<BUDDY_MAX_ORDER] = None"
    by (auto simp: find_None_iff simp del: upt_Suc)
  with none [OF order.refl assms(2)] have "spec_allocate (unat (size2order sz)) a = None"
    by (simp add: spec_allocate_def)
  with allocate_refines [OF a assms(2)] show ?thesis by simp
qed

section \<open>Release\<close>

text \<open>
  C16: when \<open>buddy_free_page\<close> returns, the pages of the block are free again, every other block in
  use is untouched and the invariant is kept, whatever blocks were merged.
\<close>

theorem free_sound:
  assumes "buddy_inv s" and "used_block s p k" and "buddy_free_page p s = Inr s'"
  shows "buddy_inv s' \<and> free_pages s' = free_pages s \<union> extent p k \<and>
    (\<forall>q l. used_block s' q l \<longleftrightarrow> used_block s q l \<and> q \<noteq> p)"
proof -
  from assms(1) obtain a where a: "buddy_rel s a" "spec_ok a" by (auto simp: buddy_inv_def)
  have u: "in_use a p k" using assms(2) by (simp add: rel_used [OF a])
  from free_refines [OF a u] assms(3) obtain a' where
    a': "spec_free p k a = Some a'" "buddy_rel s' a'" by (auto split: option.splits)
  from spec_free_ok [OF a(2) u a'(1)] show ?thesis
    using a a'(2) by (auto simp: buddy_inv_def rel_used [symmetric] rel_free_pages [symmetric])
qed

text \<open>
  C22: releasing a block returns whenever some block further up the memory is still in use (so
  that merging stops before the end of the page array).
\<close>

theorem free_returns:
  assumes "buddy_inv s" and "used_block s p k" and "used_block s q l" and "p < q"
  shows "\<exists>s'. buddy_free_page p s = Inr s'"
proof -
  from assms(1) obtain a where a: "buddy_rel s a" "spec_ok a" by (auto simp: buddy_inv_def)
  have u: "in_use a p k" "in_use a q l" using assms(2,3) by (simp_all add: rel_used [OF a])
  have k: "k < BUDDY_MAX_ORDER"
    using assms(2) layout_bound [OF assms(1), of p k] by (simp add: used_block_def)
  have "in_use (spec_give p k a) q l"
    using spec_give_ok(4) [OF a(2) u(1)] u(2) assms(4) by simp
  then obtain a' where "spec_free p k a = Some a'"
    unfolding spec_free_def
    using spec_coalesce_returns [OF spec_give_ok(1) [OF a(2) u(1)] k spec_give_ok(2) [OF a(2) u(1)] _ assms(4)]
    by blast
  with free_refines [OF a u(1)] show ?thesis by auto
qed

text \<open>
  C38: releasing a block that ends where the memory ends (and is not of the largest order) looks
  for a buddy past the end of \<open>pages\<close>: \<open>get_buddy_page\<close> never returns the null pointer its caller
  tests for.
\<close>

theorem free_last_block_out_of_bounds:
  assumes "buddy_inv s" and "used_block s p k" and "Suc k < BUDDY_MAX_ORDER" and "p + 2 ^ k = npage"
  shows "buddy_free_page p s = Inl Out_Of_Bounds"
proof -
  from assms(1) obtain a where a: "buddy_rel s a" "spec_ok a" by (auto simp: buddy_inv_def)
  have u: "in_use a p k" using assms(2) by (simp add: rel_used [OF a])
  have "spec_free p k a = None"
    using assms(3,4) by (simp add: spec_free_def spec_coalesce.simps del: spec_give.simps)
  with free_refines [OF a u] show ?thesis by simp
qed

text \<open>A second release of the same block is caught by the "free a free page" panic.\<close>

theorem double_free_panics:
  assumes "buddy_inv s" and "used_block s p k" and "buddy_free_page p s = Inr s'"
  shows "buddy_free_page p s' = Inl (Panic ''[buddy]: free a free page.'')"
proof -
  from assms(1) obtain a where a: "buddy_rel s a" "spec_ok a" by (auto simp: buddy_inv_def)
  have u: "in_use a p k" using assms(2) by (simp add: rel_used [OF a])
  from free_refines [OF a u] assms(3) obtain a' where
    a': "spec_free p k a = Some a'" "buddy_rel s' a'" by (auto split: option.splits)
  have k: "k < BUDDY_MAX_ORDER"
    using assms(2) layout_bound [OF assms(1), of p k] by (simp add: used_block_def)
  from spec_coalesce_head [OF a'(1) [unfolded spec_free_def] k spec_give_ok(2) [OF a(2) u]]
  obtain l where "l < BUDDY_MAX_ORDER" "p \<in> set (avail a' l)" by blast
  then have "layout_of s' p = Some l" "pg_free (pages s' p) = 1"
    using buddy_relD(2,3) [OF a'(2)] by auto
  then show ?thesis
    by (auto simp: buddy_free_page_def layout_of_Some PG_HEAD_def PG_TAIL_def)
qed

section \<open>Statistics\<close>

lemma fold_sum:
  "fold (\<lambda>i t. t + f i) xs (c :: 'a::comm_monoid_add) = c + (\<Sum>i\<leftarrow>xs. f i)"
  by (induction xs arbitrary: c) (simp_all add: algebra_simps)

lemma card_avail:
  assumes "spec_ok a"
  shows "card (avail_pages a) = (\<Sum>k<BUDDY_MAX_ORDER. length (avail a k) * 2 ^ k)"
proof -
  have level: "card (\<Union>i\<in>set (avail a k). extent i k) = length (avail a k) * 2 ^ k"
    if k: "k < BUDDY_MAX_ORDER" for k
  proof (subst card_UN_disjoint)
    show "\<forall>i\<in>set (avail a k). \<forall>j\<in>set (avail a k). i \<noteq> j \<longrightarrow> extent i k \<inter> extent j k = {}"
      using tiled_disjoint [OF spec_ok_tiled [OF assms]] spec_okD(2) [OF assms k] by blast
  qed (use spec_okD(1) [OF assms k] in \<open>simp_all add: distinct_card del: mem_extent\<close>)
  have "extent i k \<inter> extent j l = {}"
    if "k < BUDDY_MAX_ORDER" "l < BUDDY_MAX_ORDER" "k \<noteq> l" "i \<in> set (avail a k)" "j \<in> set (avail a l)" for i j k l
    using that tiled_disjoint [OF spec_ok_tiled [OF assms], of i k j l] spec_okD(2) [OF assms]
      avail_unique [OF assms that(1,2)] by metis
  then have "\<forall>k\<in>{..<BUDDY_MAX_ORDER}. \<forall>l\<in>{..<BUDDY_MAX_ORDER}. k \<noteq> l \<longrightarrow>
      (\<Union>i\<in>set (avail a k). extent i k) \<inter> (\<Union>i\<in>set (avail a l). extent i l) = {}"
    by blast
  then show ?thesis
    unfolding avail_pages_def by (subst card_UN_disjoint) (simp_all add: level)
qed

lemma avail_pages_bound:
  assumes "spec_ok a" shows "card (avail_pages a) \<le> npage"
proof -
  have "avail_pages a \<subseteq> {..<npage}"
  proof
    fix x assume "x \<in> avail_pages a"
    then obtain k i where "k < BUDDY_MAX_ORDER" "i \<in> set (avail a k)" "x < i + 2 ^ k"
      by (auto simp: avail_pages_def)
    moreover from this have "i + 2 ^ k \<le> npage"
      using tiled_bound [OF spec_ok_tiled [OF assms]] spec_okD(2) [OF assms] by blast
    ultimately show "x \<in> {..<npage}" by simp
  qed
  from card_mono [OF _ this] show ?thesis by simp
qed

text \<open>
  The total that \<open>buddy_statistics\<close> prints is the number of bytes in the free pages.
\<close>

theorem statistics_counts_free_bytes:
  assumes "buddy_inv s"
  shows "unat (buddy_statistics s) = PGSIZE * card (free_pages s)"
proof -
  from assms obtain a where a: "buddy_rel s a" "spec_ok a" by (auto simp: buddy_inv_def)
  have nr: "nr s k = of_nat (length (avail a k))" if "k < BUDDY_MAX_ORDER" for k
    using a(1) that by (simp add: buddy_rel_def lists_rel_def)
  let ?n = "\<Sum>k<BUDDY_MAX_ORDER. length (avail a k) * 2 ^ k"
  have "buddy_statistics s = (\<Sum>k<BUDDY_MAX_ORDER. nr s k * (of_nat BUDDY_PAGE_SIZE * push_bit k 1))"
    unfolding buddy_statistics_def fold_sum by (simp add: sum_list_distinct_conv_sum_set lessThan_atLeast0)
  also have "\<dots> = (\<Sum>k<BUDDY_MAX_ORDER. of_nat (BUDDY_PAGE_SIZE * (length (avail a k) * 2 ^ k)))"
    by (rule sum.cong) (simp_all add: nr push_bit_eq_mult ac_simps)
  also have "\<dots> = of_nat (BUDDY_PAGE_SIZE * ?n)"
    by (simp only: sum_distrib_left of_nat_sum)
  finally have st: "buddy_statistics s = of_nat (BUDDY_PAGE_SIZE * ?n)" .
  have n: "?n = card (free_pages s)"
    using card_avail [OF a(2)] rel_free_pages [OF a] by simp
  have "?n \<le> 16384" using avail_pages_bound [OF a(2)] card_avail [OF a(2)] npage_eq by simp
  then have "unat (of_nat (BUDDY_PAGE_SIZE * ?n) :: u64) = BUDDY_PAGE_SIZE * ?n"
    by (intro of_nat_inverse [OF refl]) (simp add: BUDDY_PAGE_SIZE_def)
  with st n show ?thesis by (simp add: BUDDY_PAGE_SIZE_def PGSIZE_def)
qed

text \<open>
  The \<open>memset\<close> of \<open>buddy_pages_init\<close> leaves the descriptors from 512 on as they were: over a
  stale one that says \<open>PG_HEAD\<close>, the invariant does not hold after initialisation.
\<close>

definition stale_buddy :: buddy where
  "stale_buddy = zero_buddy\<lparr>pages := (pages zero_buddy)(600 := \<lparr>pg_order = 0, pg_free = 0, pg_flag = PG_HEAD\<rparr>)\<rparr>"

theorem init_keeps_stale_descriptor: "\<not> buddy_inv (buddy_init stale_buddy)"
proof
  let ?s = "buddy_init stale_buddy"
  assume "buddy_inv ?s"
  then obtain a where a: "buddy_rel ?s a" "spec_ok a" by (auto simp: buddy_inv_def)
  have "pages ?s 600 = \<lparr>pg_order = 0, pg_free = 0, pg_flag = PG_HEAD\<rparr>" "pg_order (pages ?s 0) = 13"
    "pg_flag (pages ?s 0) = PG_HEAD"
    by (simp_all add: buddy_init_def pages_init_unfold init_chunk_def Let_def BUDDY_MAX_ORDER_def
        memset_pages_def npage_eq sizeof_page_def stale_buddy_def)
  then have "layout a 600 = Some 0" "layout a 0 = Some 13"
    unfolding buddy_relD(2) [OF a(1)] by (simp_all add: layout_of_def npage_eq)
  with tiled_inside [OF spec_ok_tiled [OF a(2)], of 0 13 600] show False by simp
qed
section \<open>The allocator's own tests\<close>

text \<open>
  \<open>buddy_test1\<close> and \<open>buddy_test2\<close> as lists of calls; \<open>Free i\<close> releases the page of the \<open>i\<close>-th
  allocation. A run gives the counts that \<open>buddy_statistics\<close> prints after every call.
\<close>

datatype test_op = Alloc u64 | Free nat

fun run_test :: "test_op list \<Rightarrow> nat list \<Rightarrow> buddy \<Rightarrow> u64 list list result" where
  "run_test [] ps s = Inr []"
| "run_test (Alloc sz # ops) ps s =
    rbind (buddy_allocate sz s) (\<lambda>(p, s').
    rbind (run_test ops (ps @ [p]) s') (\<lambda>r. Inr (map (nr s') [0..<BUDDY_MAX_ORDER] # r)))"
| "run_test (Free i # ops) ps s =
    rbind (buddy_free_page (ps ! i) s) (\<lambda>s'.
    rbind (run_test ops ps s') (\<lambda>r. Inr (map (nr s') [0..<BUDDY_MAX_ORDER] # r)))"

definition buddy_test1 :: "test_op list" where
  "buddy_test1 = [Alloc 4097, Alloc 1, Alloc 4097, Alloc 0x1000, Alloc 0x1000000, Alloc 0x400000,
     Alloc 0x400000, Alloc 0x400000, Alloc 0x400000, Alloc 0x400000, Alloc 0x400000]"

definition buddy_test2 :: "test_op list" where
  "buddy_test2 = [Alloc 0x1000, Alloc 0x1000, Free 1, Free 0, Alloc 0x1000, Alloc 0x1000, Free 3,
     Free 2, Alloc 0x8000, Alloc 0x8000, Free 5, Free 4, Alloc 0x8000, Alloc 0x8000, Free 6, Free 7]"

end
