(* ===== verification/Buddy_Exec.thy ===== *)
theory Buddy_Exec
  imports Buddy_Props "HOL-Library.AList"
begin

text \<open>
  The abstract allocator on tables, so that a run of many calls can be evaluated by rewriting:
  the layout is an association list and the free lists are a list indexed by the order. \<open>table\<close>
  reads an abstract state off the tables, and each table operation computes the abstract one.
  The last section gives the states after a few calls, described by their tables.
\<close>

type_synonym tables = "(nat \<times> nat) list \<times> nat list list"

definition table :: "tables \<Rightarrow> alloc" where
  "table e = \<lparr>layout = map_of (fst e), avail = (\<lambda>k. if k < length (snd e) then snd e ! k else [])\<rparr>"

fun t_split :: "nat \<Rightarrow> tables \<Rightarrow> tables" where
  "t_split t (m, xs) =
    (case xs ! Suc t of [] \<Rightarrow> (m, xs)
     | i # rest \<Rightarrow> (AList.update (i + 2 ^ t) t (AList.update i t m),
                   xs[Suc t := rest, t := xs ! t @ [i, i + 2 ^ t]]))"

fun t_split_loop :: "nat \<Rightarrow> nat \<Rightarrow> tables \<Rightarrow> nat \<times> tables" where
  "t_split_loop 0 small e = (0, e)"
| "t_split_loop (Suc t) small e =
    (if t > small then t_split_loop t small (t_split t e)
     else (hd (snd e ! Suc t), t_split t e))"

definition t_take :: "nat \<Rightarrow> nat \<Rightarrow> tables \<Rightarrow> tables" where
  "t_take p k e = (fst e, (snd e)[k := remove1 p (snd e ! k)])"

definition t_allocate :: "nat \<Rightarrow> tables \<Rightarrow> (nat \<times> tables) option" where
  "t_allocate k e =
    (case snd e ! k of
       p # _ \<Rightarrow> Some (p, t_take p k e)
     | [] \<Rightarrow> (case find (\<lambda>j. snd e ! j \<noteq> []) [Suc k..<BUDDY_MAX_ORDER] of
               None \<Rightarrow> None
             | Some j \<Rightarrow> (case t_split_loop j k e of (p, e') \<Rightarrow> Some (p, t_take p k e'))))"

definition t_merge :: "nat \<Rightarrow> nat \<Rightarrow> tables \<Rightarrow> tables" where
  "t_merge p k e =
    (AList.delete (p + 2 ^ k) (AList.update p (Suc k) (fst e)),
     (snd e)[k := remove1 p (remove1 (p + 2 ^ k) (snd e ! k)), Suc k := snd e ! Suc k @ [p]])"

fun t_coalesce :: "nat \<Rightarrow> nat \<Rightarrow> nat \<Rightarrow> tables \<Rightarrow> tables option" where
  "t_coalesce 0 p k e = Some e"
| "t_coalesce (Suc n) p k e =
    (if \<not> p + 2 ^ k < npage then None
     else if p + 2 ^ k \<in> set (snd e ! k) then t_coalesce n p (Suc k) (t_merge p k e)
     else Some e)"

definition t_free :: "nat \<Rightarrow> nat \<Rightarrow> tables \<Rightarrow> tables option" where
  "t_free p k e = t_coalesce (BUDDY_MAX_ORDER - 1 - k) p k (fst e, (snd e)[k := snd e ! k @ [p]])"

section \<open>The table operations compute the abstract ones\<close>

definition sized :: "tables \<Rightarrow> bool" where
  "sized e \<longleftrightarrow> length (snd e) = BUDDY_MAX_ORDER"

lemma layout_table [simp]: "layout (table e) = map_of (fst e)"
  by (simp add: table_def)

lemma avail_table: "\<lbrakk> sized e; k < BUDDY_MAX_ORDER \<rbrakk> \<Longrightarrow> avail (table e) k = snd e ! k"
  by (simp add: table_def sized_def)

lemma avail_table_upd:
  "k < length xs \<Longrightarrow> (\<lambda>j. if j < length (xs[k := v]) then xs[k := v] ! j else [])
    = (\<lambda>j. if j < length xs then xs ! j else [])(k := v)"
  by (auto simp: fun_eq_iff nth_list_update)

lemma sized_split: "sized (t_split t e) = sized e"
  by (cases e) (auto simp: sized_def split: list.splits)

lemma table_split:
  assumes "sized e" "Suc t < BUDDY_MAX_ORDER"
  shows "table (t_split t e) = spec_split t (table e)"
proof (cases "snd e ! Suc t")
  case Nil
  with assms show ?thesis by (cases e) (simp add: table_def sized_def)
next
  case (Cons i rest)
  obtain m xs where e: "e = (m, xs)" by (cases e)
  have len: "length xs = BUDDY_MAX_ORDER" using assms(1) e by (simp add: sized_def)
  with Cons e assms(2) show ?thesis
    by (auto simp: table_def update_conv' fun_eq_iff nth_list_update)
qed

lemma table_split_loop:
  "\<lbrakk> sized e; n < BUDDY_MAX_ORDER; t_split_loop n small e = (p, e') \<rbrakk>
   \<Longrightarrow> spec_split_loop n small (table e) = (p, table e') \<and> sized e'"
proof (induction n arbitrary: e)
  case (Suc n)
  note IH = Suc.IH [of "t_split n e"]
  have "spec_split n (table e) = table (t_split n e)" "sized (t_split n e)"
    using Suc.prems by (simp_all add: table_split sized_split)
  then show ?case
    using IH Suc.prems
    by (auto simp: Let_def avail_table simp del: t_split.simps spec_split.simps split: if_splits)
qed simp

lemma table_take:
  "\<lbrakk> sized e; k < BUDDY_MAX_ORDER \<rbrakk> \<Longrightarrow> table (t_take p k e) = spec_take p k (table e) \<and> sized (t_take p k e)"
  by (auto simp: table_def t_take_def sized_def fun_eq_iff nth_list_update)

lemma table_allocate:
  assumes e: "sized e" and k: "k < BUDDY_MAX_ORDER" and r: "t_allocate k e = Some (p, e')"
  shows "spec_allocate k (table e) = Some (p, table e') \<and> sized e'"
proof (cases "snd e ! k")
  case (Cons q rest)
  with r e k show ?thesis
    by (auto simp: t_allocate_def spec_allocate_def avail_table table_take simp del: spec_take.simps)
next
  case Nil
  then obtain j b where j: "find (\<lambda>j. snd e ! j \<noteq> []) [Suc k..<BUDDY_MAX_ORDER] = Some j"
    and b: "t_split_loop j k e = (p, b)" and e': "e' = t_take p k b"
    using r by (auto simp: t_allocate_def split: option.splits prod.splits)
  have "find (\<lambda>j. avail (table e) j \<noteq> []) [Suc k..<BUDDY_MAX_ORDER] =
      find (\<lambda>j. snd e ! j \<noteq> []) [Suc k..<BUDDY_MAX_ORDER]"
    using e by (intro find_cong) (auto simp: avail_table)
  moreover have "j < BUDDY_MAX_ORDER" using j by (auto simp: find_Some_iff simp del: upt_Suc)
  ultimately show ?thesis
    using Nil j table_split_loop [OF e _ b] e' e k
    by (simp add: spec_allocate_def avail_table table_take del: spec_take.simps)
qed

lemma table_merge:
  assumes "sized e" "Suc k < BUDDY_MAX_ORDER"
  shows "table (t_merge p k e) = spec_merge p k (table e) \<and> sized (t_merge p k e)"
proof -
  have "map_of (AList.delete b (AList.update p (Suc k) m)) = (map_of m)(p \<mapsto> Suc k, b := None)"
    for b :: nat and m by (simp add: delete_conv' update_conv')
  with assms show ?thesis
    by (auto simp: table_def t_merge_def sized_def fun_eq_iff nth_list_update)
qed

lemma table_coalesce:
  "\<lbrakk> t_coalesce n p k e = Some e'; sized e; k + n = BUDDY_MAX_ORDER - 1 \<rbrakk>
   \<Longrightarrow> spec_coalesce p k (table e) = Some (table e') \<and> sized e'"
proof (induction n arbitrary: k e)
  case 0
  then show ?case by (subst spec_coalesce.simps) (simp add: BUDDY_MAX_ORDER_def)
next
  case (Suc n)
  then have k: "Suc k < BUDDY_MAX_ORDER" by simp
  have b: "p + 2 ^ k < npage" using Suc.prems(1) by (simp split: if_splits)
  show ?case
  proof (cases "p + 2 ^ k \<in> set (snd e ! k)")
    case True
    with Suc.prems(1) have "t_coalesce n p (Suc k) (t_merge p k e) = Some e'"
      by (simp split: if_splits)
    moreover note table_merge [OF Suc.prems(2) k, of p]
    ultimately have "spec_coalesce p (Suc k) (spec_merge p k (table e)) = Some (table e') \<and> sized e'"
      using Suc.IH [of "Suc k" "t_merge p k e"] Suc.prems(3) by (simp del: spec_merge.simps)
    with True b k Suc.prems(2) show ?thesis
      by (simp add: spec_coalesce.simps [of p k] avail_table del: spec_merge.simps)
  next
    case False
    with Suc.prems b have "e' = e" by (simp split: if_splits)
    with False b k Suc.prems(2) show ?thesis
      by (simp add: spec_coalesce.simps [of p k] avail_table)
  qed
qed

lemma table_free:
  assumes e: "sized e" and k: "k < BUDDY_MAX_ORDER" and r: "t_free p k e = Some e'"
  shows "spec_free p k (table e) = Some (table e') \<and> sized e'"
proof -
  let ?e = "(fst e, (snd e)[k := snd e ! k @ [p]])"
  have "table ?e = spec_give p k (table e)"
    using e k by (auto simp: table_def sized_def fun_eq_iff nth_list_update)
  moreover have "sized ?e" using e by (simp add: sized_def)
  ultimately show ?thesis
    using table_coalesce [OF r [unfolded t_free_def]] k by (simp add: spec_free_def del: spec_give.simps)
qed

section \<open>The initial tables and evaluation rules\<close>

definition init_tables :: tables where
  "init_tables = ([(0, 13), (8192, 13)], [[], [], [], [], [], [], [], [], [], [], [], [], [], [0, 8192]])"

lemma init_free_lists:
  "[[], [], [], [], [], [], [], [], [], [], [], [], [], xs] = replicate 13 [] @ [xs]"
  by (simp add: numeral_eq_Suc)

lemma table_init: "table init_tables = init_alloc" "sized init_tables"
  by (auto simp: table_def init_tables_def init_free_lists init_alloc_def sized_def
      BUDDY_MAX_ORDER_def fun_eq_iff nth_append)

lemma list_update_numeral [simp]: "(x # xs)[numeral n := y] = x # xs[pred_numeral n := y]"
  by (simp add: numeral_eq_Suc)

lemma t_split_loop_numeral:
  "t_split_loop (numeral n) small e =
    (if pred_numeral n > small then t_split_loop (pred_numeral n) small (t_split (pred_numeral n) e)
     else (hd (snd e ! numeral n), t_split (pred_numeral n) e))"
  by (simp add: numeral_eq_Suc)

lemma t_coalesce_numeral:
  "t_coalesce (numeral n) p k e =
    (if \<not> p + 2 ^ k < npage then None
     else if p + 2 ^ k \<in> set (snd e ! k) then t_coalesce (pred_numeral n) p (Suc k) (t_merge p k e)
     else Some e)"
  by (simp add: numeral_eq_Suc)

lemmas t_eval = t_allocate_def t_take_def t_split_loop_numeral t_coalesce_numeral t_free_def t_merge_def
  BUDDY_MAX_ORDER_def npage_eq upt_rec

lemma test_orders:
  "unat (size2order 4097) = 1" "unat (size2order 1) = 0" "unat (size2order 0x1000) = 0"
  "unat (size2order 0x1000000) = 12" "unat (size2order 0x400000) = 10" "unat (size2order 0x8000) = 3"
  by (simp_all add: size2order_def order_loop.simps BUDDY_PAGE_SIZE_def)

lemmas table_init_rel = zero_rel [folded table_init(1)] spec_ok_init [folded table_init(1)] table_init(2)

section \<open>Concrete states\<close>

definition described :: "buddy \<Rightarrow> tables \<Rightarrow> bool" where
  "described s e \<longleftrightarrow> buddy_rel s (table e) \<and> spec_ok (table e) \<and> sized e"

lemma described_init: "described (buddy_init zero_buddy) init_tables"
  using table_init_rel by (simp add: described_def)

lemma described_inv: "described s e \<Longrightarrow> buddy_inv s"
  by (auto simp: described_def buddy_inv_def)

lemma described_used:
  assumes "described s e" "k < BUDDY_MAX_ORDER"
  shows "used_block s p k \<longleftrightarrow> map_of (fst e) p = Some k \<and> p \<notin> set (snd e ! k)"
proof -
  from assms have "used_block s p k = in_use (table e) p k"
    using rel_used [of s "table e"] by (simp add: described_def)
  then show ?thesis using assms by (simp add: described_def in_use_def avail_table)
qed

lemma described_free_block:
  "described s e \<Longrightarrow> free_block s p k \<longleftrightarrow> k < BUDDY_MAX_ORDER \<and> p \<in> set (snd e ! k)"
  using rel_free_block [of s "table e" p k] by (auto simp: described_def avail_table)

lemma described_allocate:
  "\<lbrakk> described s e; unat (size2order sz) = k; k < BUDDY_MAX_ORDER; t_allocate k e = Some (p, e') \<rbrakk>
   \<Longrightarrow> \<exists>s'. buddy_allocate sz s = Inr (p, s') \<and> described s' e'"
  using table_allocate [of e k p e'] allocate_refines [of s "table e" sz]
    spec_allocate_ok [of "table e" k p "table e'"]
  by (auto simp: described_def)

lemma described_free:
  "\<lbrakk> described s e; used_block s p k; k < BUDDY_MAX_ORDER; t_free p k e = Some e' \<rbrakk>
   \<Longrightarrow> \<exists>s'. buddy_free_page p s = Inr s' \<and> described s' e'"
  using table_free [of e k p e'] free_refines [of s "table e" p k] rel_used [of s "table e"]
    spec_free_ok [of "table e" p k "table e'"]
  by (auto simp: described_def)

text \<open>One page, two pages, the whole memory in one, two and four blocks.\<close>

lemma one_page:
  obtains s1 s2 where "buddy_allocate 0x1000 (buddy_init zero_buddy) = Inr (0, s1)" "buddy_inv s1"
    "used_block s1 0 0" "buddy_allocate 0x1000 s1 = Inr (1, s2)" "buddy_inv s2"
    "used_block s2 0 0" "used_block s2 1 0"
proof -
  have k: "(0::nat) < BUDDY_MAX_ORDER" by (simp add: BUDDY_MAX_ORDER_def)
  obtain e1 e2 where e: "t_allocate 0 init_tables = Some (0, e1)" "map_of (fst e1) 0 = Some 0"
    "0 \<notin> set (snd e1 ! 0)" "t_allocate 0 e1 = Some (1, e2)" "map_of (fst e2) 0 = Some 0"
    "map_of (fst e2) 1 = Some 0" "snd e2 ! 0 = []"
    by (simp add: t_eval init_tables_def)
  from described_allocate [OF described_init test_orders(3) k e(1)] obtain s1 where
    s1: "buddy_allocate 0x1000 (buddy_init zero_buddy) = Inr (0, s1)" "described s1 e1" by blast
  from described_allocate [OF s1(2) test_orders(3) k e(4)] obtain s2 where
    s2: "buddy_allocate 0x1000 s1 = Inr (1, s2)" "described s2 e2" by blast
  show ?thesis
    by (rule that [OF s1(1) described_inv [OF s1(2)] _ s2(1) described_inv [OF s2(2)]])
      (simp_all add: described_used [OF s1(2) k] described_used [OF s2(2) k] e del: One_nat_def)
qed

lemma three_pages:
  obtains s1 s2 s3 where "buddy_allocate 0x1000 (buddy_init zero_buddy) = Inr (0, s1)" "buddy_inv s1"
    "buddy_allocate 0x1000 s1 = Inr (1, s2)" "buddy_allocate 0x1000 s2 = Inr (2, s3)"
proof -
  have k: "(0::nat) < BUDDY_MAX_ORDER" by (simp add: BUDDY_MAX_ORDER_def)
  obtain e1 e2 e3 where e: "t_allocate 0 init_tables = Some (0, e1)" "t_allocate 0 e1 = Some (1, e2)"
    "t_allocate 0 e2 = Some (2, e3)"
    by (simp add: t_eval init_tables_def)
  from described_allocate [OF described_init test_orders(3) k e(1)] obtain s1 where
    s1: "buddy_allocate 0x1000 (buddy_init zero_buddy) = Inr (0, s1)" "described s1 e1" by blast
  from described_allocate [OF s1(2) test_orders(3) k e(2)] obtain s2 where
    s2: "buddy_allocate 0x1000 s1 = Inr (1, s2)" "described s2 e2" by blast
  from described_allocate [OF s2(2) test_orders(3) k e(3)] obtain s3 where
    "buddy_allocate 0x1000 s2 = Inr (2, s3)" by blast
  from that [OF s1(1) described_inv [OF s1(2)] s2(1) this] show ?thesis .
qed

text \<open>The same with one release, and the whole memory handed out in two and in four blocks.\<close>

lemma one_page_back:
  obtains s1 s2 where "buddy_allocate 0x1000 (buddy_init zero_buddy) = Inr (0, s1)" "buddy_inv s1"
    "used_block s1 0 0" "buddy_free_page 0 s1 = Inr s2"
proof -
  have k: "(0::nat) < BUDDY_MAX_ORDER" by (simp add: BUDDY_MAX_ORDER_def)
  obtain e1 e2 where e: "t_allocate 0 init_tables = Some (0, e1)" "map_of (fst e1) 0 = Some 0"
    "0 \<notin> set (snd e1 ! 0)" "t_free 0 0 e1 = Some e2"
    by (simp add: t_eval init_tables_def)
  from described_allocate [OF described_init test_orders(3) k e(1)] obtain s1 where
    s1: "buddy_allocate 0x1000 (buddy_init zero_buddy) = Inr (0, s1)" "described s1 e1" by blast
  have u: "used_block s1 0 0" by (simp add: described_used [OF s1(2) k] e)
  from described_free [OF s1(2) u k e(4)] obtain s2 where "buddy_free_page 0 s1 = Inr s2" by blast
  from that [OF s1(1) described_inv [OF s1(2)] u this] show ?thesis .
qed

lemma two_halves:
  obtains s1 s2 where "buddy_allocate 0x2000000 (buddy_init zero_buddy) = Inr (0, s1)"
    "buddy_allocate 0x2000000 s1 = Inr (8192, s2)" "buddy_inv s2" "\<forall>q l. \<not> free_block s2 q l"
proof -
  have o13: "unat (size2order 0x2000000) = 13" and k: "(13::nat) < BUDDY_MAX_ORDER"
    by (simp_all add: size2order_def order_loop.simps BUDDY_PAGE_SIZE_def BUDDY_MAX_ORDER_def)
  obtain e1 where e1: "t_allocate 13 init_tables = Some (0, e1)"
    "snd e1 = [[], [], [], [], [], [], [], [], [], [], [], [], [], [8192]]"
    by (simp add: t_eval init_tables_def)
  then obtain e2 where e2: "t_allocate 13 e1 = Some (8192, e2)"
    "snd e2 = replicate 13 [] @ [[]]"
    by (simp add: t_eval init_free_lists nth_append list_update_append)
  note e = e1(1) e2
  from described_allocate [OF described_init o13 k e(1)] obtain s1 where
    s1: "buddy_allocate 0x2000000 (buddy_init zero_buddy) = Inr (0, s1)" "described s1 e1" by blast
  from described_allocate [OF s1(2) o13 k e(2)] obtain s2 where
    s2: "buddy_allocate 0x2000000 s1 = Inr (8192, s2)" "described s2 e2" by blast
  have "\<forall>q l. \<not> free_block s2 q l"
    by (auto simp: described_free_block [OF s2(2)] e BUDDY_MAX_ORDER_def nth_append)
  with s1 s2 described_inv [OF s2(2)] show ?thesis by (intro that)
qed

lemma four_quarters:
  obtains s where "buddy_inv s" "used_block s 12288 12"
proof -
  have k: "(12::nat) < BUDDY_MAX_ORDER" by (simp add: BUDDY_MAX_ORDER_def)
  obtain e1 e2 e3 e4 where e: "t_allocate 12 init_tables = Some (0, e1)"
    "t_allocate 12 e1 = Some (4096, e2)" "t_allocate 12 e2 = Some (8192, e3)"
    "t_allocate 12 e3 = Some (12288, e4)" "map_of (fst e4) 12288 = Some 12" "snd e4 ! 12 = []"
    by (simp add: t_eval init_tables_def)
  from described_allocate [OF described_init test_orders(4) k e(1)] obtain s1 where "described s1 e1" by blast
  from described_allocate [OF this test_orders(4) k e(2)] obtain s2 where "described s2 e2" by blast
  from described_allocate [OF this test_orders(4) k e(3)] obtain s3 where "described s3 e3" by blast
  from described_allocate [OF this test_orders(4) k e(4)] obtain s4 where s: "described s4 e4" by blast
  show ?thesis
    by (rule that [OF described_inv [OF s]]) (simp add: described_used [OF s k] e)
qed

section \<open>The properties at concrete states\<close>

theorem size2order_small_witness: "unat (size2order 0x8000) = 3"
  using size2order_small [of "0x8000"] size2order_eq_small by simp

theorem allocate_sound_witness:
  "\<exists>s. buddy_allocate 0x1000 (buddy_init zero_buddy) = Inr (0, s) \<and> buddy_inv s \<and> used_block s 0 0"
proof -
  obtain s1 s2 where r: "buddy_allocate 0x1000 (buddy_init zero_buddy) = Inr (0, s1)"
    by (rule one_page)
  from allocate_sound [OF zero_inv r] show ?thesis using r test_orders(3) by auto
qed

theorem allocate_succeeds_witness: "\<exists>p s. buddy_allocate 0x1000 (buddy_init zero_buddy) = Inr (p, s)"
proof -
  have "free_block (buddy_init zero_buddy) 0 13"
    by (simp add: described_free_block [OF described_init] init_tables_def BUDDY_MAX_ORDER_def)
  from allocate_succeeds [where sz = "0x1000", OF zero_inv this] test_orders(3) show ?thesis by simp
qed

theorem allocate_exhausted_witness:
  "\<exists>s1 s2. buddy_allocate 0x2000000 (buddy_init zero_buddy) = Inr (0, s1) \<and>
     buddy_allocate 0x2000000 s1 = Inr (8192, s2) \<and> buddy_allocate 0x1000 s2 = Inl Out_Of_Bounds"
proof -
  obtain s1 s2 where r: "buddy_allocate 0x2000000 (buddy_init zero_buddy) = Inr (0, s1)"
    "buddy_allocate 0x2000000 s1 = Inr (8192, s2)" "buddy_inv s2" "\<forall>q l. \<not> free_block s2 q l"
    by (rule two_halves)
  from allocate_exhausted [where sz = "0x1000", OF r(3)] r(4) test_orders(3)
  have "buddy_allocate 0x1000 s2 = Inl Out_Of_Bounds" by (simp add: BUDDY_MAX_ORDER_def)
  with r(1,2) show ?thesis by blast
qed

theorem free_sound_witness:
  "\<exists>s1 s2. buddy_allocate 0x1000 (buddy_init zero_buddy) = Inr (0, s1) \<and>
     buddy_free_page 0 s1 = Inr s2 \<and> buddy_inv s2 \<and> 0 \<in> free_pages s2"
proof -
  obtain s1 s2 where r: "buddy_allocate 0x1000 (buddy_init zero_buddy) = Inr (0, s1)" "buddy_inv s1"
    "used_block s1 0 0" "buddy_free_page 0 s1 = Inr s2" by (rule one_page_back)
  from free_sound [OF r(2-4)] show ?thesis using r by auto
qed

theorem free_returns_witness:
  "\<exists>s1 s2 s3. buddy_allocate 0x1000 (buddy_init zero_buddy) = Inr (0, s1) \<and>
     buddy_allocate 0x1000 s1 = Inr (1, s2) \<and> buddy_free_page 0 s2 = Inr s3"
proof -
  obtain s1 s2 where r: "buddy_allocate 0x1000 (buddy_init zero_buddy) = Inr (0, s1)"
    "buddy_allocate 0x1000 s1 = Inr (1, s2)" "buddy_inv s2" "used_block s2 0 0" "used_block s2 1 0"
    by (rule one_page)
  from free_returns [OF r(3-5)] show ?thesis using r(1,2) by auto
qed

theorem free_last_block_out_of_bounds_witness:
  "\<exists>s. buddy_inv s \<and> used_block s 12288 12 \<and> buddy_free_page 12288 s = Inl Out_Of_Bounds"
proof -
  obtain s where s: "buddy_inv s" "used_block s 12288 12" by (rule four_quarters)
  from free_last_block_out_of_bounds [OF s] s show ?thesis
    by (auto simp: BUDDY_MAX_ORDER_def npage_eq)
qed

theorem double_free_panics_witness:
  "\<exists>s1 s2. buddy_allocate 0x1000 (buddy_init zero_buddy) = Inr (0, s1) \<and>
     buddy_free_page 0 s1 = Inr s2 \<and>
     buddy_free_page 0 s2 = Inl (Panic ''[buddy]: free a free page.'')"
proof -
  obtain s1 s2 where r: "buddy_allocate 0x1000 (buddy_init zero_buddy) = Inr (0, s1)" "buddy_inv s1"
    "used_block s1 0 0" "buddy_free_page 0 s1 = Inr s2" by (rule one_page_back)
  from double_free_panics [OF r(2-4)] show ?thesis using r(1,4) by auto
qed

theorem statistics_counts_free_bytes_witness:
  "unat (buddy_statistics (buddy_init zero_buddy)) = 4096 * card (free_pages (buddy_init zero_buddy))"
  using statistics_counts_free_bytes [OF zero_inv] by (simp add: PGSIZE_def)

section \<open>Releasing a page that was never handed out\<close>

text \<open>
  C39: a page inside a free block, never handed out, can be released: its flag is neither
  \<open>PG_TAIL\<close> nor is it marked free. The next allocation of one page then returns it although it
  still belongs to the free block that starts at page 0.
\<close>

theorem free_interior_page:
  "\<exists>s s'. buddy_free_page 5 (buddy_init zero_buddy) = Inr s \<and> buddy_allocate 0x1000 s = Inr (5, s') \<and>
     free_block s' 0 13"
proof -
  let ?i = "buddy_init zero_buddy"
  let ?f = "upd_page 5 (\<lambda>pg. pg\<lparr>pg_free := 1\<rparr>) ?i"
  let ?s = "push_free 0 5 ?f"
  have pg: "pages ?i = (pages zero_buddy)(0 := \<lparr>pg_order = 13, pg_free = 1, pg_flag = PG_HEAD\<rparr>,
      8192 := \<lparr>pg_order = 13, pg_free = 1, pg_flag = PG_HEAD\<rparr>)"
    by (simp add: buddy_init_def pages_init_unfold init_chunk_def Let_def BUDDY_MAX_ORDER_def
        memset_pages_def npage_eq sizeof_page_def zero_buddy_def fun_eq_iff)
  have z: "pages zero_buddy i = \<lparr>pg_order = 0, pg_free = 0, pg_flag = 0\<rparr>" for i
    by (simp add: zero_buddy_def)
  have "lists_rel ?f (avail init_alloc)"
    using buddy_relD(1) [OF zero_rel] by (simp add: lists_rel_def)
  from lists_rel_push [OF this, of 0 5] have l: "lists_rel ?s ((avail init_alloc)(0 := [5]))"
    by (simp add: init_alloc_def BUDDY_MAX_ORDER_def)
  have "0 < BUDDY_MAX_ORDER" by (simp add: BUDDY_MAX_ORDER_def)
  with l have "dlist (blinks ?s) (Head 0) (map Link (((avail init_alloc)(0 := [5])) 0))"
    "nr ?s 0 = of_nat (length (((avail init_alloc)(0 := [5])) 0))"
    unfolding lists_rel_def family_def by blast+
  then have n: "nxt (blinks ?s) (Head 0) = Link 5" "nr ?s 0 = 1" by (simp_all add: dlist_def)
  have "buddy_free_page 5 ?i = Inr ?s"
    by (simp add: buddy_free_page_def pg z npage_eq PG_HEAD_def PG_TAIL_def BUDDY_MAX_ORDER_def
        buddy_merge.simps get_buddy_page_def)
  moreover from n test_orders(3) have "\<exists>s'. buddy_allocate 0x1000 ?s = Inr (5, s') \<and> pages s' 0 = pages ?i 0"
    by (simp add: buddy_allocate_def BUDDY_MAX_ORDER_def le2page_def npage_eq)
  ultimately show ?thesis
    by (auto simp: free_block_def layout_of_Some pg npage_eq)
qed
end
