(* ===== verification/Buddy_Tests.thy ===== *)
theory Buddy_Tests
  imports Buddy_Exec
begin

text \<open>
  The tests \<open>buddy_test1\<close> and \<open>buddy_test2\<close> of buddy.c, replayed on the tables. Their outputs are
  recorded in docs/buddy_test1_bench.txt and docs/buddy_test2_bench.txt.
\<close>

section \<open>Runs\<close>

text \<open>The orders of the calls are given beside them: \<open>spec_run\<close> checks them.\<close>

fun t_run :: "test_op list \<Rightarrow> nat list \<Rightarrow> nat list \<Rightarrow> tables \<Rightarrow> nat list list option" where
  "t_run [] ks ps e = Some []"
| "t_run (op # ops) [] ps e = None"
| "t_run (Alloc sz # ops) (k # ks) ps e =
    (case t_allocate k e of None \<Rightarrow> None
     | Some (p, e') \<Rightarrow> (case t_run ops ks (ps @ [p]) e' of None \<Rightarrow> None
         | Some r \<Rightarrow> Some (map length (snd e') # r)))"
| "t_run (Free i # ops) (k # ks) ps e =
    (if map_of (fst e) (ps ! i) \<noteq> Some k \<or> ps ! i \<in> set (snd e ! k) then None
     else case t_free (ps ! i) k e of None \<Rightarrow> None
       | Some e' \<Rightarrow> (case t_run ops ks ps e' of None \<Rightarrow> None
           | Some r \<Rightarrow> Some (map length (snd e') # r)))"

fun orders_ok :: "test_op list \<Rightarrow> nat list \<Rightarrow> bool" where
  "orders_ok (Alloc sz # ops) (k # ks) \<longleftrightarrow> unat (size2order sz) = k \<and> k < BUDDY_MAX_ORDER \<and> orders_ok ops ks"
| "orders_ok (Free i # ops) (k # ks) \<longleftrightarrow> k < BUDDY_MAX_ORDER \<and> orders_ok ops ks"
| "orders_ok [] ks \<longleftrightarrow> True"
| "orders_ok (op # ops) [] \<longleftrightarrow> False"

lemma table_counts:
  assumes "buddy_rel s (table e)" "sized e"
  shows "map (nr s) [0..<BUDDY_MAX_ORDER] = map of_nat (map length (snd e))"
proof (rule nth_equalityI)
  fix i assume "i < length (map (nr s) [0..<BUDDY_MAX_ORDER])"
  with assms show "map (nr s) [0..<BUDDY_MAX_ORDER] ! i = map of_nat (map length (snd e)) ! i"
    by (simp add: buddy_rel_def lists_rel_def avail_table) (simp add: sized_def)
qed (use assms in \<open>simp add: sized_def\<close>)

lemma run_test_table:
  "\<lbrakk> t_run ops ks ps e = Some r; orders_ok ops ks; buddy_rel s (table e); spec_ok (table e); sized e \<rbrakk>
   \<Longrightarrow> run_test ops ps s = Inr (map (map of_nat) r)"
proof (induction ops ks ps e arbitrary: s r rule: t_run.induct)
  case (3 sz ops k ks ps e)
  from "3.prems"(1) obtain p e' r' where al: "t_allocate k e = Some (p, e')"
    and r': "t_run ops ks (ps @ [p]) e' = Some r'" and r: "r = map length (snd e') # r'"
    by (auto split: option.splits)
  have k: "unat (size2order sz) = k" "k < BUDDY_MAX_ORDER" using "3.prems"(2) by simp_all
  from table_allocate [OF "3.prems"(5) k(2) al] have
    sp: "spec_allocate k (table e) = Some (p, table e')" and e': "sized e'" by simp_all
  from allocate_refines [OF "3.prems"(3,4)] k sp obtain s' where
    s': "buddy_allocate sz s = Inr (p, s')" "buddy_rel s' (table e')" by fastforce
  have "run_test ops (ps @ [p]) s' = Inr (map (map of_nat) r')"
    using "3.IH" [OF al refl r' _ s'(2)] "3.prems"(2) e' spec_allocate_ok [OF "3.prems"(4) k(2) sp]
    by simp
  with s' r table_counts [OF s'(2) e'] show ?case by simp
next
  case (4 i ops k ks ps e)
  have k: "k < BUDDY_MAX_ORDER" using "4.prems"(2) by simp
  from "4.prems"(1) k "4.prems"(5) obtain e' r' where u: "in_use (table e) (ps ! i) k"
    and fr: "t_free (ps ! i) k e = Some e'" and r': "t_run ops ks ps e' = Some r'"
    and r: "r = map length (snd e') # r'"
    by (auto simp: in_use_def avail_table split: if_splits option.splits)
  from table_free [OF "4.prems"(5) k fr] have
    sp: "spec_free (ps ! i) k (table e) = Some (table e')" and e': "sized e'" by simp_all
  from free_refines [OF "4.prems"(3,4) u] sp obtain s' where
    s': "buddy_free_page (ps ! i) s = Inr s'" "buddy_rel s' (table e')" by auto
  have "run_test ops ps s' = Inr (map (map of_nat) r')"
    using "4.IH" [OF _ fr r' _ s'(2)] u "4.prems"(2,5) k e' spec_free_ok [OF "4.prems"(4) u sp]
    by (simp add: in_use_def avail_table)
  with s' r table_counts [OF s'(2) e'] show ?case by simp
qed simp_all

lemma test1_tables:
  "t_run buddy_test1 [1, 0, 1, 0, 12, 10, 10, 10, 10, 10, 10] [] init_tables = Some [
   [0, 1, 1, 1, 1, 1, 1, 1, 1, 1, 1, 1, 1, 1],
   [1, 0, 1, 1, 1, 1, 1, 1, 1, 1, 1, 1, 1, 1],
   [1, 1, 0, 1, 1, 1, 1, 1, 1, 1, 1, 1, 1, 1],
   [0, 1, 0, 1, 1, 1, 1, 1, 1, 1, 1, 1, 1, 1],
   [0, 1, 0, 1, 1, 1, 1, 1, 1, 1, 1, 1, 0, 1],
   [0, 1, 0, 1, 1, 1, 1, 1, 1, 1, 0, 1, 0, 1],
   [0, 1, 0, 1, 1, 1, 1, 1, 1, 1, 1, 0, 0, 1],
   [0, 1, 0, 1, 1, 1, 1, 1, 1, 1, 0, 0, 0, 1],
   [0, 1, 0, 1, 1, 1, 1, 1, 1, 1, 1, 1, 1, 0],
   [0, 1, 0, 1, 1, 1, 1, 1, 1, 1, 0, 1, 1, 0],
   [0, 1, 0, 1, 1, 1, 1, 1, 1, 1, 1, 0, 1, 0]]"
  by (simp add: t_eval buddy_test1_def init_tables_def)

lemma test2_tables:
  "t_run buddy_test2 [0, 0, 0, 0, 0, 0, 0, 0, 3, 3, 3, 3, 3, 3, 3, 3] [] init_tables = Some [
   [1, 1, 1, 1, 1, 1, 1, 1, 1, 1, 1, 1, 1, 1],
   [0, 1, 1, 1, 1, 1, 1, 1, 1, 1, 1, 1, 1, 1],
   [1, 1, 1, 1, 1, 1, 1, 1, 1, 1, 1, 1, 1, 1],
   [0, 0, 0, 0, 0, 0, 0, 0, 0, 0, 0, 0, 0, 2],
   [1, 1, 1, 1, 1, 1, 1, 1, 1, 1, 1, 1, 1, 1],
   [0, 1, 1, 1, 1, 1, 1, 1, 1, 1, 1, 1, 1, 1],
   [1, 1, 1, 1, 1, 1, 1, 1, 1, 1, 1, 1, 1, 1],
   [0, 0, 0, 0, 0, 0, 0, 0, 0, 0, 0, 0, 0, 2],
   [0, 0, 0, 1, 1, 1, 1, 1, 1, 1, 1, 1, 1, 1],
   [0, 0, 0, 0, 1, 1, 1, 1, 1, 1, 1, 1, 1, 1],
   [0, 0, 0, 1, 1, 1, 1, 1, 1, 1, 1, 1, 1, 1],
   [0, 0, 0, 0, 0, 0, 0, 0, 0, 0, 0, 0, 0, 2],
   [0, 0, 0, 1, 1, 1, 1, 1, 1, 1, 1, 1, 1, 1],
   [0, 0, 0, 0, 1, 1, 1, 1, 1, 1, 1, 1, 1, 1],
   [0, 0, 0, 1, 1, 1, 1, 1, 1, 1, 1, 1, 1, 1],
   [0, 0, 0, 2, 1, 1, 1, 1, 1, 1, 1, 1, 1, 1]]"
  by (simp add: t_eval buddy_test2_def init_tables_def)

lemma tests_orders_ok:
  "orders_ok buddy_test1 [1, 0, 1, 0, 12, 10, 10, 10, 10, 10, 10]"
  "orders_ok buddy_test2 [0, 0, 0, 0, 0, 0, 0, 0, 3, 3, 3, 3, 3, 3, 3, 3]"
  by (simp_all add: buddy_test1_def buddy_test2_def test_orders BUDDY_MAX_ORDER_def)

text \<open>
  C19: replayed from the initial state, the allocator's two tests print the counts recorded in
  docs/buddy_test1_bench.txt and docs/buddy_test2_bench.txt, the missed merge of the last two
  releases included (two free blocks of order 3 that are buddies).
\<close>

theorem buddy_tests_match_bench:
  "run_test buddy_test1 [] (buddy_init zero_buddy) = Inr [
   [0, 1, 1, 1, 1, 1, 1, 1, 1, 1, 1, 1, 1, 1],
   [1, 0, 1, 1, 1, 1, 1, 1, 1, 1, 1, 1, 1, 1],
   [1, 1, 0, 1, 1, 1, 1, 1, 1, 1, 1, 1, 1, 1],
   [0, 1, 0, 1, 1, 1, 1, 1, 1, 1, 1, 1, 1, 1],
   [0, 1, 0, 1, 1, 1, 1, 1, 1, 1, 1, 1, 0, 1],
   [0, 1, 0, 1, 1, 1, 1, 1, 1, 1, 0, 1, 0, 1],
   [0, 1, 0, 1, 1, 1, 1, 1, 1, 1, 1, 0, 0, 1],
   [0, 1, 0, 1, 1, 1, 1, 1, 1, 1, 0, 0, 0, 1],
   [0, 1, 0, 1, 1, 1, 1, 1, 1, 1, 1, 1, 1, 0],
   [0, 1, 0, 1, 1, 1, 1, 1, 1, 1, 0, 1, 1, 0],
   [0, 1, 0, 1, 1, 1, 1, 1, 1, 1, 1, 0, 1, 0]] \<and>
   run_test buddy_test2 [] (buddy_init zero_buddy) = Inr [
   [1, 1, 1, 1, 1, 1, 1, 1, 1, 1, 1, 1, 1, 1],
   [0, 1, 1, 1, 1, 1, 1, 1, 1, 1, 1, 1, 1, 1],
   [1, 1, 1, 1, 1, 1, 1, 1, 1, 1, 1, 1, 1, 1],
   [0, 0, 0, 0, 0, 0, 0, 0, 0, 0, 0, 0, 0, 2],
   [1, 1, 1, 1, 1, 1, 1, 1, 1, 1, 1, 1, 1, 1],
   [0, 1, 1, 1, 1, 1, 1, 1, 1, 1, 1, 1, 1, 1],
   [1, 1, 1, 1, 1, 1, 1, 1, 1, 1, 1, 1, 1, 1],
   [0, 0, 0, 0, 0, 0, 0, 0, 0, 0, 0, 0, 0, 2],
   [0, 0, 0, 1, 1, 1, 1, 1, 1, 1, 1, 1, 1, 1],
   [0, 0, 0, 0, 1, 1, 1, 1, 1, 1, 1, 1, 1, 1],
   [0, 0, 0, 1, 1, 1, 1, 1, 1, 1, 1, 1, 1, 1],
   [0, 0, 0, 0, 0, 0, 0, 0, 0, 0, 0, 0, 0, 2],
   [0, 0, 0, 1, 1, 1, 1, 1, 1, 1, 1, 1, 1, 1],
   [0, 0, 0, 0, 1, 1, 1, 1, 1, 1, 1, 1, 1, 1],
   [0, 0, 0, 1, 1, 1, 1, 1, 1, 1, 1, 1, 1, 1],
   [0, 0, 0, 2, 1, 1, 1, 1, 1, 1, 1, 1, 1, 1]]"
  using run_test_table [OF test1_tables tests_orders_ok(1) table_init_rel]
    run_test_table [OF test2_tables tests_orders_ok(2) table_init_rel]
  by simp

end
