(* ===== verification/C_Strings.thy ===== *)
theory C_Strings
  imports Prelude
begin

text \<open>
  kernel/common/strings.c over a byte-addressed memory. Pointers are 64-bit addresses, \<open>NULL\<close> is 0
  and \<open>char\<close> is unsigned, as on RISC-V. A loop that runs to a terminating zero is a partial
  function: \<open>None\<close> is a loop that never meets one. \<open>cstr m a xs\<close> says that memory \<open>m\<close> holds at \<open>a\<close>
  the string \<open>xs\<close>, and each function is described on such strings.
\<close>

type_synonym bytes = "u64 \<Rightarrow> u8"

section \<open>The functions\<close>

text \<open>The counter of \<open>memset\<close> and \<open>memcpy\<close> is an \<open>int\<close>: the model is for sizes up to \<open>2 ^ 31\<close>.\<close>

definition memset :: "u64 \<Rightarrow> u32 \<Rightarrow> u32 \<Rightarrow> bytes \<Rightarrow> bytes" where
  "memset dst c n m = fold (\<lambda>i m. m(dst + of_nat i := ucast c)) [0..<unat n] m"

definition memcpy :: "u64 \<Rightarrow> u64 \<Rightarrow> u32 \<Rightarrow> bytes \<Rightarrow> bytes" where
  "memcpy dst src n m = fold (\<lambda>i m. m(dst + of_nat i := m (src + of_nat i))) [0..<unat n] m"

partial_function (option) strcpy :: "u64 \<Rightarrow> u64 \<Rightarrow> bytes \<Rightarrow> bytes option" where
  "strcpy dest src m =
    (if m src \<noteq> 0 then strcpy (dest + 1) (src + 1) (m(dest := m src)) else Some (m(dest := 0)))"

text \<open>The counter is tested before it is decremented and the final zero is always written.\<close>

fun strncpy_loop :: "u64 \<Rightarrow> u64 \<Rightarrow> nat \<Rightarrow> bytes \<Rightarrow> bytes" where
  "strncpy_loop dest src 0 m = m(dest := 0)"
| "strncpy_loop dest src (Suc n) m =
    (if m src \<noteq> 0 then strncpy_loop (dest + 1) (src + 1) n (m(dest := m src)) else m(dest := 0))"

definition strncpy :: "u64 \<Rightarrow> u64 \<Rightarrow> u64 \<Rightarrow> bytes \<Rightarrow> bytes" where
  "strncpy dest src n m = strncpy_loop dest src (unat n) m"

partial_function (option) strlen_loop :: "u64 \<Rightarrow> u32 \<Rightarrow> bytes \<Rightarrow> u32 option" where
  "strlen_loop str i m = (if m (str + ucast i) \<noteq> 0 then strlen_loop str (i + 1) m else Some i)"

definition strlen :: "u64 \<Rightarrow> bytes \<Rightarrow> u32 option" where
  "strlen str m = strlen_loop str 0 m"

partial_function (option) strcmp :: "u64 \<Rightarrow> u64 \<Rightarrow> bytes \<Rightarrow> u32 option" where
  "strcmp s1 s2 m =
    (if m s1 = m s2 then (if m s1 = 0 then Some 0 else strcmp (s1 + 1) (s2 + 1) m)
     else Some (ucast (m s1) - ucast (m s2)))"

partial_function (option) strchr :: "u64 \<Rightarrow> u32 \<Rightarrow> bytes \<Rightarrow> u64 option" where
  "strchr s c m = (if m s \<noteq> ucast c then (if m s = 0 then Some 0 else strchr (s + 1) c m) else Some s)"

text \<open>\<open>strrchr\<close> reads \<open>*s++\<close>: the pointer it keeps is already one past the character.\<close>

partial_function (option) strrchr_loop :: "u64 \<Rightarrow> u32 \<Rightarrow> u64 \<Rightarrow> bytes \<Rightarrow> u64 option" where
  "strrchr_loop s c occ m =
    (if m s \<noteq> 0 then strrchr_loop (s + 1) c (if ucast (m s) = c then s + 1 else occ) m else Some occ)"

definition strrchr :: "u64 \<Rightarrow> u32 \<Rightarrow> bytes \<Rightarrow> u64 option" where
  "strrchr s c m = strrchr_loop s c 0 m"

definition tolower :: "u32 \<Rightarrow> u32" where
  "tolower c = (if 65 <=s c \<and> c <=s 90 then c + (97 - 65) else c)"

definition toupper :: "u32 \<Rightarrow> u32" where
  "toupper c = (if 97 <=s c \<and> c <=s 122 then c + (65 - 97) else c)"

fun memcmp_loop :: "u64 \<Rightarrow> u64 \<Rightarrow> nat \<Rightarrow> bytes \<Rightarrow> int" where
  "memcmp_loop a b 0 m = 0"
| "memcmp_loop a b (Suc n) m =
    (if m a < m b then -1 else if m a > m b then 1 else memcmp_loop (a + 1) (b + 1) n m)"

definition memcmp :: "u64 \<Rightarrow> u64 \<Rightarrow> u64 \<Rightarrow> bytes \<Rightarrow> int" where
  "memcmp a b n m = memcmp_loop a b (unat n) m"

section \<open>Strings in memory\<close>

fun cstr :: "bytes \<Rightarrow> u64 \<Rightarrow> u8 list \<Rightarrow> bool" where
  "cstr m a [] \<longleftrightarrow> m a = 0"
| "cstr m a (x # xs) \<longleftrightarrow> m a = x \<and> x \<noteq> 0 \<and> cstr m (a + 1) xs"

definition zone :: "u64 \<Rightarrow> nat \<Rightarrow> u64 set" where
  "zone a n = (\<lambda>i. a + of_nat i) ` {..<n}"

definition read_bytes :: "bytes \<Rightarrow> u64 \<Rightarrow> nat \<Rightarrow> u8 list" where
  "read_bytes m a n = map (\<lambda>i. m (a + of_nat i)) [0..<n]"

lemma zone_Suc: "zone a (Suc n) = insert a (zone (a + 1) n)"
  unfolding zone_def lessThan_Suc_eq_insert_0 image_insert image_image
  by (simp add: algebra_simps)

lemma offset_inj: "\<lbrakk> (a :: u64) + of_nat i = a + of_nat j; i < 2 ^ 64; j < 2 ^ 64 \<rbrakk> \<Longrightarrow> i = j"
  by (metis add_left_imp_eq unat_of_nat_u64)

lemma zone_fresh: "n < 2 ^ 64 \<Longrightarrow> a \<notin> zone (a + 1) n"
proof
  assume "n < 2 ^ 64" "a \<in> zone (a + 1) n"
  then obtain i where i: "i < n" "a + of_nat 0 = a + of_nat (Suc i)" by (auto simp: zone_def algebra_simps)
  with \<open>n < 2 ^ 64\<close> offset_inj [OF i(2)] show False by simp
qed

lemma cstr_cong: "(\<And>x. x \<in> zone a (Suc (length xs)) \<Longrightarrow> m x = m' x) \<Longrightarrow> cstr m a xs = cstr m' a xs"
proof (induction xs arbitrary: a)
  case (Cons x xs)
  have "cstr m (a + 1) xs = cstr m' (a + 1) xs"
    by (rule Cons.IH) (use Cons.prems in \<open>auto simp: zone_Suc\<close>)
  with Cons.prems [of a] show ?case by (simp add: zone_Suc)
qed (simp add: zone_Suc)

lemma cstr_upd: "b \<notin> zone a (Suc (length xs)) \<Longrightarrow> cstr (m(b := v)) a xs = cstr m a xs"
  by (rule cstr_cong) auto

lemma cstr_unique: "\<lbrakk> cstr m a xs; cstr m a ys \<rbrakk> \<Longrightarrow> xs = ys"
proof (induction xs arbitrary: a ys)
  case Nil then show ?case by (cases ys) auto
next
  case (Cons x xs) then show ?case by (cases ys) auto
qed

lemma cstr_drop: "cstr m a (xs @ zs) \<Longrightarrow> cstr m (a + of_nat (length xs)) zs"
proof (induction xs arbitrary: a)
  case (Cons x xs)
  then show ?case using Cons.IH [of "a + 1"] by (simp add: add.assoc)
qed simp

lemma cstr_end: "cstr m a xs \<Longrightarrow> m (a + of_nat (length xs)) = 0"
  using cstr_drop [of m a xs "[]"] by simp

lemma cstr_read: "cstr m a xs \<Longrightarrow> read_bytes m a (length xs) = xs"
proof (induction xs arbitrary: a)
  case (Cons x xs)
  have "read_bytes m a (Suc n) = m a # read_bytes m (a + 1) n" for n
    by (simp add: read_bytes_def map_upt_Suc o_def add.assoc del: upt_Suc)
  with Cons show ?case by simp
qed (simp add: read_bytes_def)

section \<open>Reading functions\<close>

lemma ucast_inc:
  assumes "unat (i + 1 :: u32) = unat i + 1" shows "ucast (i + 1) = (ucast i + 1 :: u64)"
proof -
  have "(of_nat (unat (i + 1)) :: u64) = of_nat (unat i + 1)" by (simp only: assms)
  then show ?thesis by simp
qed

lemma strlen_loop_cstr:
  "\<lbrakk> cstr m (str + ucast i) xs; unat i + length xs < 2 ^ 32 \<rbrakk> \<Longrightarrow>
   strlen_loop str i m = Some (i + of_nat (length xs))"
proof (induction xs arbitrary: i)
  case (Cons x xs)
  then have i: "unat (i + 1) = unat i + 1" by (intro unat_inc) simp
  then have "ucast (i + 1) = (ucast i + 1 :: u64)" by (rule ucast_inc)
  with Cons.IH [of "i + 1"] Cons.prems i show ?case
    by (simp add: strlen_loop.simps [of str i] algebra_simps)
qed (simp add: strlen_loop.simps)

lemma strlen_cstr: "\<lbrakk> cstr m a xs; length xs < 2 ^ 32 \<rbrakk> \<Longrightarrow> strlen a m = Some (of_nat (length xs))"
  unfolding strlen_def by (subst strlen_loop_cstr [of m a 0 xs]) simp_all

text \<open>The comparison of C: the difference of the first bytes that differ, the final zero included.\<close>

fun diff :: "u8 list \<Rightarrow> u8 list \<Rightarrow> u32" where
  "diff [] [] = 0"
| "diff [] (y # ys) = 0 - ucast y"
| "diff (x # xs) [] = ucast x"
| "diff (x # xs) (y # ys) = (if x = y then diff xs ys else ucast x - ucast y)"

lemma strcmp_cstr: "\<lbrakk> cstr m a xs; cstr m b ys \<rbrakk> \<Longrightarrow> strcmp a b m = Some (diff xs ys)"
proof (induction xs ys arbitrary: a b rule: diff.induct)
  case (4 x xs y ys)
  then show ?case by (auto simp: strcmp.simps [of a b])
qed (auto simp: strcmp.simps)

lemma ucast_char [simp]: "ucast (ucast (c :: u8) :: u32) = c"
  by transfer simp

lemma ucast_char_eq [simp]: "ucast x = (ucast y :: u32) \<longleftrightarrow> x = (y :: u8)"
  by (metis ucast_char)

lemma ucast_diff_0: "(ucast (x :: u8) - ucast y :: u32) = 0 \<longleftrightarrow> x = y"
  by simp

lemma diff_0: "\<lbrakk> 0 \<notin> set xs; 0 \<notin> set ys \<rbrakk> \<Longrightarrow> diff xs ys = 0 \<longleftrightarrow> xs = ys"
proof (induction xs ys rule: diff.induct)
  case (2 y ys)
  then show ?case using ucast_diff_0 [of 0 y] by auto
next
  case (3 x xs)
  then show ?case using ucast_diff_0 [of x 0] by auto
next
  case (4 x xs y ys)
  then show ?case using ucast_diff_0 [of x y] by auto
qed simp

lemma cstr_nonzero: "cstr m a xs \<Longrightarrow> 0 \<notin> set xs"
  by (induction xs arbitrary: a) auto

text \<open>Positions: the first occurrence, and one past the last.\<close>

fun first_at :: "u8 \<Rightarrow> u8 list \<Rightarrow> nat option" where
  "first_at c [] = None"
| "first_at c (x # xs) = (if x = c then Some 0 else map_option Suc (first_at c xs))"

fun past_last :: "u8 \<Rightarrow> u8 list \<Rightarrow> nat option" where
  "past_last c [] = None"
| "past_last c (x # xs) =
    (case past_last c xs of Some i \<Rightarrow> Some (Suc i) | None \<Rightarrow> if x = c then Some 1 else None)"

lemma strchr_cstr:
  "\<lbrakk> cstr m a xs; c \<noteq> 0 \<rbrakk> \<Longrightarrow>
   strchr a (ucast c) m = Some (case first_at c xs of None \<Rightarrow> 0 | Some i \<Rightarrow> a + of_nat i)"
proof (induction xs arbitrary: a)
  case (Cons x xs)
  then show ?case
    by (auto simp: strchr.simps [of a] algebra_simps split: option.splits)
qed (simp add: strchr.simps)

lemma strrchr_loop_cstr:
  "cstr m a xs \<Longrightarrow> strrchr_loop a (ucast c) occ m =
     Some (case past_last c xs of None \<Rightarrow> occ | Some i \<Rightarrow> a + of_nat i)"
proof (induction xs arbitrary: a occ)
  case (Cons x xs)
  then show ?case
    by (auto simp: strrchr_loop.simps [of a] algebra_simps split: option.splits)
qed (simp add: strrchr_loop.simps)

lemma strrchr_cstr:
  "cstr m a xs \<Longrightarrow> strrchr a (ucast c) m = Some (case past_last c xs of None \<Rightarrow> 0 | Some i \<Rightarrow> a + of_nat i)"
  unfolding strrchr_def by (rule strrchr_loop_cstr)

section \<open>Writing functions\<close>

lemma fill_zone:
  "fold (\<lambda>i m. m(dst + of_nat i := c)) [0..<n] m x = (if x \<in> zone dst n then c else m x)"
  by (induction n arbitrary: x) (auto simp: zone_def less_Suc_eq)

lemma memset_zone: "memset dst c n m x = (if x \<in> zone dst (unat n) then ucast c else m x)"
  unfolding memset_def by (rule fill_zone)

lemma copy_zone:
  assumes g: "g 0 = m" "\<And>k. g (Suc k) = (g k)(dst + of_nat k := g k (src + of_nat k))"
  shows "\<lbrakk> zone dst n \<inter> zone src n = {}; n < 2 ^ 64 \<rbrakk> \<Longrightarrow>
    (\<forall>i<n. g n (dst + of_nat i) = m (src + of_nat i)) \<and> (\<forall>x. x \<notin> zone dst n \<longrightarrow> g n x = (m :: bytes) x)"
proof (induction n)
  case (Suc n)
  then have IH: "\<forall>i<n. g n (dst + of_nat i) = m (src + of_nat i)" "\<forall>x. x \<notin> zone dst n \<longrightarrow> g n x = m x"
    by (auto simp: zone_def lessThan_Suc)
  have "src + of_nat n \<notin> zone dst n" using Suc.prems(1) by (auto simp: zone_def lessThan_Suc)
  then have "g n (src + of_nat n) = m (src + of_nat n)" using IH(2) by blast
  moreover have "dst + of_nat i \<noteq> dst + of_nat n" if "i < n" for i
    using offset_inj [of dst i n] Suc.prems(2) that by auto
  ultimately show ?case
    using IH by (auto simp: g less_Suc_eq zone_def lessThan_Suc)
qed (simp add: zone_def g)

lemma memcpy_zone:
  assumes "zone dst (unat n) \<inter> zone src (unat n) = {}"
  shows "read_bytes (memcpy dst src n m) dst (unat n) = read_bytes m src (unat n)"
    and "x \<notin> zone dst (unat n) \<Longrightarrow> memcpy dst src n m x = m x"
proof -
  have "unat n < 2 ^ 32" using unsigned_less [where 'a = nat, of n] by simp
  then have "unat n < 2 ^ 64" by simp
  from copy_zone [where g = "\<lambda>k. fold (\<lambda>i m. m(dst + of_nat i := m (src + of_nat i))) [0..<k] m",
      OF _ _ assms this] show
    "read_bytes (memcpy dst src n m) dst (unat n) = read_bytes m src (unat n)"
    "x \<notin> zone dst (unat n) \<Longrightarrow> memcpy dst src n m x = m x"
    by (simp_all add: memcpy_def read_bytes_def)
qed

lemma strncpy_loop_cstr:
  "\<lbrakk> cstr m src xs; zone dest (Suc (length xs)) \<inter> zone src (Suc (length xs)) = {}; Suc (length xs) < 2 ^ 64 \<rbrakk>
   \<Longrightarrow> cstr (strncpy_loop dest src n m) dest (take n xs) \<and>
       (\<forall>x. x \<notin> zone dest (Suc (min n (length xs))) \<longrightarrow> strncpy_loop dest src n m x = m x)"
proof (induction xs arbitrary: dest src n m)
  case Nil
  then show ?case by (cases n) (auto simp: zone_Suc)
next
  case (Cons x xs)
  define m1 where "m1 = m(dest := m src)"
  show ?case
  proof (cases n)
    case 0
    then show ?thesis by (auto simp: zone_Suc)
  next
    case (Suc k)
    have dis: "zone (dest + 1) (Suc (length xs)) \<inter> zone (src + 1) (Suc (length xs)) = {}"
      "dest \<notin> zone (src + 1) (Suc (length xs))"
      using Cons.prems(2) unfolding length_Cons zone_Suc [of _ "Suc (length xs)"] by auto
    have "cstr m1 (src + 1) xs" using Cons.prems(1) dis(2) by (simp add: cstr_upd m1_def)
    from Cons.IH [OF this dis(1), of k] Cons.prems(3)
    have IH: "cstr (strncpy_loop (dest + 1) (src + 1) k m1) (dest + 1) (take k xs)"
      "\<forall>y. y \<notin> zone (dest + 1) (Suc (min k (length xs))) \<longrightarrow> strncpy_loop (dest + 1) (src + 1) k m1 y = m1 y"
      by simp_all
    have "dest \<notin> zone (dest + 1) (Suc (min k (length xs)))"
      using Cons.prems(3) by (intro zone_fresh) simp
    then have "strncpy_loop (dest + 1) (src + 1) k m1 dest = x"
      using IH(2) Cons.prems(1) by (simp add: m1_def)
    moreover have "strncpy_loop dest src n m = strncpy_loop (dest + 1) (src + 1) k m1"
      using Cons.prems(1) Suc by (simp add: m1_def)
    moreover have "m1 y = m y" if "y \<noteq> dest" for y using that by (simp add: m1_def)
    ultimately show ?thesis using IH Cons.prems(1) Suc by (auto simp: zone_Suc [of dest])
  qed
qed

lemma strcpy_strncpy:
  "\<lbrakk> cstr m src xs; zone dest (Suc (length xs)) \<inter> zone src (Suc (length xs)) = {}; Suc (length xs) < 2 ^ 64 \<rbrakk>
   \<Longrightarrow> strcpy dest src m = Some (strncpy_loop dest src (length xs) m)"
proof (induction xs arbitrary: dest src m)
  case (Cons x xs)
  have dis: "zone (dest + 1) (Suc (length xs)) \<inter> zone (src + 1) (Suc (length xs)) = {}"
    "dest \<notin> zone (src + 1) (Suc (length xs))"
    using Cons.prems(2) unfolding length_Cons zone_Suc [of _ "Suc (length xs)"] by auto
  define m1 where "m1 = m(dest := m src)"
  have "cstr m1 (src + 1) xs" using Cons.prems(1) dis(2) by (simp add: cstr_upd m1_def)
  from Cons.IH [OF this dis(1)] Cons.prems(3)
  have "strcpy (dest + 1) (src + 1) m1 = Some (strncpy_loop (dest + 1) (src + 1) (length xs) m1)" by simp
  with Cons.prems(1) show ?case by (simp add: strcpy.simps [of dest src m] m1_def)
qed (simp add: strcpy.simps)

lemma memcmp_loop_0: "memcmp_loop a b n m = 0 \<longleftrightarrow> read_bytes m a n = read_bytes m b n"
proof (induction n arbitrary: a b)
  case (Suc n)
  have "read_bytes m a (Suc n) = m a # read_bytes m (a + 1) n" for a
    by (simp add: read_bytes_def map_upt_Suc o_def add.assoc del: upt_Suc)
  with Suc show ?case by auto
qed (simp add: read_bytes_def)

section \<open>Properties\<close>

text \<open>
  C27: on strings that end within 4 GB, \<open>strlen\<close>, \<open>strcmp\<close> and \<open>strchr\<close> return, with the length,
  with 0 exactly for equal strings, and with the first occurrence or \<open>NULL\<close>.
\<close>

theorem strings_read:
  assumes "cstr m a xs" and "cstr m b ys" and "length xs < 2 ^ 32" and "c \<noteq> 0"
  shows "strlen a m = Some (of_nat (length xs)) \<and>
    (\<exists>d. strcmp a b m = Some d \<and> (d = 0 \<longleftrightarrow> xs = ys)) \<and>
    strchr a (ucast c) m = Some (case first_at c xs of None \<Rightarrow> 0 | Some i \<Rightarrow> a + of_nat i)"
  using strlen_cstr [OF assms(1,3)] strcmp_cstr [OF assms(1,2)] strchr_cstr [OF assms(1,4)]
    diff_0 [OF cstr_nonzero [OF assms(1)] cstr_nonzero [OF assms(2)]] by simp

text \<open>
  C26: \<open>strcpy\<close> between strings that do not overlap returns, puts the string at the destination
  and changes no byte outside it.
\<close>

theorem strcpy_copies:
  assumes "cstr m src xs" and "zone dest (Suc (length xs)) \<inter> zone src (Suc (length xs)) = {}"
    and "Suc (length xs) < 2 ^ 64"
  shows "\<exists>m'. strcpy dest src m = Some m' \<and> cstr m' dest xs \<and>
    (\<forall>x. x \<notin> zone dest (Suc (length xs)) \<longrightarrow> m' x = m x)"
  using strcpy_strncpy [OF assms] strncpy_loop_cstr [OF assms, of "length xs"] by simp

text \<open>
  \<open>strncpy\<close> copies the first \<open>n\<close> characters and always terminates them: when the source is
  longer it writes the byte at \<open>dest + n\<close>, one past the \<open>n\<close> bytes the caller offered, as zero.
\<close>

theorem strncpy_terminates_past_n:
  assumes "cstr m src xs" and "zone dest (Suc (length xs)) \<inter> zone src (Suc (length xs)) = {}"
    and "Suc (length xs) < 2 ^ 64" and "unat n \<le> length xs"
  shows "cstr (strncpy dest src n m) dest (take (unat n) xs) \<and> strncpy dest src n m (dest + n) = 0 \<and>
    (\<forall>x. x \<notin> zone dest (Suc (unat n)) \<longrightarrow> strncpy dest src n m x = m x)"
proof -
  from strncpy_loop_cstr [OF assms(1-3), of "unat n"]
  have c: "cstr (strncpy dest src n m) dest (take (unat n) xs)"
    "\<forall>x. x \<notin> zone dest (Suc (unat n)) \<longrightarrow> strncpy dest src n m x = m x"
    using assms(4) by (simp_all add: strncpy_def min_def)
  have "length (take (unat n) xs) = unat n" using assms(4) by simp
  with cstr_end [OF c(1)] c show ?thesis by simp
qed

text \<open>
  \<open>strrchr\<close> returns the address after the last occurrence of the character, where its
  comment promises a pointer to the occurrence.
\<close>

theorem strrchr_past_occurrence:
  assumes "cstr m a (xs @ c # ys)" and "c \<notin> set ys"
  shows "strrchr a (ucast c) m = Some (a + of_nat (length xs) + 1) \<and> m (a + of_nat (length xs)) = c"
proof -
  have "past_last c ys = None" using assms(2) by (induction ys) auto
  then have "past_last c (xs @ c # ys) = Some (Suc (length xs))" by (induction xs) auto
  with strrchr_cstr [OF assms(1), of c] cstr_drop [OF assms(1)] show ?thesis by (simp add: algebra_simps)
qed


section \<open>Witnesses\<close>

text \<open>The string \<open>A.B\<close> at address 100.\<close>

definition abc_mem :: bytes where
  "abc_mem = (\<lambda>_. 0)(100 := 65, 101 := 46, 102 := 66)"

lemma abc_cstr: "cstr abc_mem 100 [65, 46, 66]" "cstr abc_mem 200 []"
  by (simp_all add: abc_mem_def)

lemma zones_apart: "zone 300 4 \<inter> zone 100 4 = {}"
  by (auto simp: zone_def lessThan_nat_numeral lessThan_Suc)

lemma zones_apart_abc:
  "zone 300 (Suc (length [65, 46, 66 :: u8])) \<inter> zone 100 (Suc (length [65, 46, 66 :: u8])) = {}"
  using zones_apart by (simp add: numeral_eq_Suc)

theorem strings_read_witness: "strlen 100 abc_mem = Some 3 \<and> strchr 100 46 abc_mem = Some 101"
  using strings_read [OF abc_cstr(1) abc_cstr(1), of 46] by simp

theorem strcpy_copies_witness: "\<exists>m'. strcpy 300 100 abc_mem = Some m' \<and> cstr m' 300 [65, 46, 66]"
  using strcpy_copies [OF abc_cstr(1) zones_apart_abc] by (simp del: cstr.simps) blast

theorem strncpy_terminates_past_n_witness: "strncpy 300 100 2 abc_mem 302 = 0"
  using strncpy_terminates_past_n [OF abc_cstr(1) zones_apart_abc, of 2] by simp

theorem strrchr_past_occurrence_witness: "strrchr 100 46 abc_mem = Some 102 \<and> abc_mem 101 = 46"
  using strrchr_past_occurrence [of abc_mem 100 "[65]" 46 "[66]"] abc_cstr(1) by simp


end
