(* ===== verification/Locks.thy ===== *)
theory Locks
  imports Prelude
begin

text \<open>
  kernel/sync/lock.c, the console of kernel/drivers/console.c and the logger of
  kernel/common/log.c, which are one component: \<open>acquire\<close> panics on a lock that is held, \<open>panic\<close>
  logs, logging takes the log lock and prints, and every character printed takes the console lock.
  The recursion through \<open>panic\<close> carries fuel, and a panic that the fuel does not suffice for is
  \<open>No_Return\<close>. The message of a log line is the text that \<open>vprintf\<close> makes of it.
\<close>

record spinlock =
  locked :: u32

definition init_lock :: "spinlock \<Rightarrow> spinlock" where
  "init_lock s = s\<lparr>locked := 0\<rparr>"

definition holding :: "spinlock \<Rightarrow> bool" where
  "holding s \<longleftrightarrow> locked s \<noteq> 0"

text \<open>\<open>__sync_lock_test_and_set\<close>: the old value and the lock with the new one.\<close>

definition test_and_set :: "spinlock \<Rightarrow> u32 \<Rightarrow> u32 \<times> spinlock" where
  "test_and_set s v = (locked s, s\<lparr>locked := v\<rparr>)"

datatype lock_id = Console_Lock | Log_Lock

record console =
  lock_of :: "lock_id \<Rightarrow> spinlock"
  log_level :: int
  log_quiet :: bool
  con_out :: string

definition set_lock :: "lock_id \<Rightarrow> spinlock \<Rightarrow> console \<Rightarrow> console" where
  "set_lock l s k = k\<lparr>lock_of := (lock_of k)(l := s)\<rparr>"

definition LOG_DEBUG :: int where "LOG_DEBUG = 1"
definition LOG_INFO :: int where "LOG_INFO = 2"
definition LOG_ERROR :: int where "LOG_ERROR = 4"

definition log_init :: "console \<Rightarrow> console" where
  "log_init k = set_lock Log_Lock (init_lock (lock_of k Log_Lock)) k"

definition log_set_level :: "int \<Rightarrow> console \<Rightarrow> console" where
  "log_set_level l k = k\<lparr>log_level := l\<rparr>"

definition log_set_quiet :: "bool \<Rightarrow> console \<Rightarrow> console" where
  "log_set_quiet q k = k\<lparr>log_quiet := q\<rparr>"

definition console_init :: "console \<Rightarrow> console" where
  "console_init k = log_init k"

definition level_strings :: "string list" where
  "level_strings = [''TRACE'', ''DEBUG'', ''INFO'', ''WARN'', ''ERROR'', ''FATAL'']"

definition log_level_string :: "int \<Rightarrow> string" where
  "log_level_string l = level_strings ! nat l"

definition level_colors :: "string list" where
  "level_colors = map (\<lambda>n. CHR 0x1B # CHR ''['' # n @ ''m'') [''94'', ''36'', ''32'', ''33'', ''31'', ''35'']"

fun digits :: "nat \<Rightarrow> string" where
  "digits n = (if n < 10 then [char_of (48 + n)] else digits (n div 10) @ [char_of (48 + n mod 10)])"

declare digits.simps [simp del]

text \<open>The line that \<open>stdout_callback\<close> prints; the level name is padded to five characters (\<open>%-5s\<close>).\<close>

definition log_line :: "int \<Rightarrow> string \<Rightarrow> nat \<Rightarrow> string \<Rightarrow> string" where
  "log_line level file line msg =
    level_colors ! nat level @
    log_level_string level @ replicate (5 - length (log_level_string level)) CHR '' '' @
    CHR 0x1B # ''[0m '' @ CHR 0x1B # ''[90m'' @ file @ '':'' @ digits line @ '':'' @ CHR 0x1B # ''[0m '' @
    msg @ [CHR 0x0A]"

text \<open>
  The functions take the panic they may run into as an argument; \<open>panic\<close> below ties the knot.
\<close>

type_synonym panic_fun = "string \<Rightarrow> nat \<Rightarrow> string \<Rightarrow> console \<Rightarrow> console result"

definition acquire :: "panic_fun \<Rightarrow> lock_id \<Rightarrow> console \<Rightarrow> console result" where
  "acquire pan l k =
    rbind (if holding (lock_of k l) then pan ''lock.c'' 16 ''re-lock'' k else Inr k) (\<lambda>k.
    let (old, s) = test_and_set (lock_of k l) 1 in
    if old \<noteq> 0 then Inl No_Return else Inr (set_lock l s k))"

definition release :: "panic_fun \<Rightarrow> lock_id \<Rightarrow> console \<Rightarrow> console result" where
  "release pan l k =
    rbind (if \<not> holding (lock_of k l) then pan ''lock.c'' 27 ''re-release'' k else Inr k) (\<lambda>k.
    Inr (set_lock l ((lock_of k l)\<lparr>locked := 0\<rparr>) k))"

definition putchar :: "panic_fun \<Rightarrow> char \<Rightarrow> console \<Rightarrow> console result" where
  "putchar pan ch k =
    rbind (acquire pan Console_Lock k) (\<lambda>k.
    release pan Console_Lock (k\<lparr>con_out := con_out k @ [ch]\<rparr>))"

primrec puts :: "panic_fun \<Rightarrow> string \<Rightarrow> console \<Rightarrow> console result" where
  "puts pan [] k = Inr k"
| "puts pan (ch # t) k = rbind (putchar pan ch k) (puts pan t)"

definition log_log :: "panic_fun \<Rightarrow> int \<Rightarrow> string \<Rightarrow> nat \<Rightarrow> string \<Rightarrow> console \<Rightarrow> console result" where
  "log_log pan level file line msg k =
    rbind (acquire pan Log_Lock k) (\<lambda>k.
    rbind (if \<not> log_quiet k \<and> level \<ge> log_level k then puts pan (log_line level file line msg) k else Inr k)
      (release pan Log_Lock))"

text \<open>The fuel bounds the depth of panics within panics; without a bound it is \<open>No_Return\<close>.\<close>

primrec panic :: "nat \<Rightarrow> panic_fun" where
  "panic 0 file line msg k = Inl No_Return"
| "panic (Suc n) file line msg k = rbind (log_log (panic n) LOG_ERROR file line msg k) (\<lambda>_. Inl (Panic msg))"

section \<open>Lemmas\<close>

lemma lock_set_lock [simp]: "lock_of (set_lock l s k) = (lock_of k)(l := s)"
  "log_quiet (set_lock l s k) = log_quiet k" "log_level (set_lock l s k) = log_level k"
  "con_out (set_lock l s k) = con_out k"
  by (simp_all add: set_lock_def)

lemma locked_update [simp]: "(s :: spinlock)\<lparr>locked := v\<rparr> = \<lparr>locked = v\<rparr>"
  by (cases s) simp

definition free_lock :: "spinlock" where "free_lock = \<lparr>locked = 0\<rparr>"

definition all_free :: "console \<Rightarrow> bool" where
  "all_free k \<longleftrightarrow> (\<forall>l. lock_of k l = free_lock)"

lemma acquire_free:
  "lock_of k l = free_lock \<Longrightarrow> acquire pan l k = Inr (set_lock l \<lparr>locked = 1\<rparr> k)"
  by (simp add: acquire_def holding_def free_lock_def test_and_set_def)

lemma release_held: "lock_of k l = \<lparr>locked = 1\<rparr> \<Longrightarrow> release pan l k = Inr (set_lock l free_lock k)"
  by (simp add: release_def holding_def free_lock_def)

lemma putchar_free:
  assumes "lock_of k Console_Lock = free_lock"
  shows "putchar pan ch k = Inr (k\<lparr>con_out := con_out k @ [ch]\<rparr>)"
proof -
  let ?k = "(set_lock Console_Lock \<lparr>locked = 1\<rparr> k)\<lparr>con_out := con_out k @ [ch]\<rparr>"
  have "release pan Console_Lock ?k = Inr (set_lock Console_Lock free_lock ?k)"
    by (rule release_held) simp
  moreover have "set_lock Console_Lock free_lock ?k = k\<lparr>con_out := con_out k @ [ch]\<rparr>"
    using assms by (simp add: set_lock_def fun_upd_idem)
  ultimately show ?thesis
    using acquire_free [OF assms] by (simp add: putchar_def)
qed

lemma puts_free:
  "lock_of k Console_Lock = free_lock \<Longrightarrow> puts pan t k = Inr (k\<lparr>con_out := con_out k @ t\<rparr>)"
  by (induction t arbitrary: k) (simp_all add: putchar_free)

lemma held_log_lock:
  assumes "holding (lock_of k Log_Lock)"
  shows "panic n file line msg k = Inl No_Return" "log_log (panic n) level file line msg k = Inl No_Return"
proof -
  have "panic n f l t k = Inl No_Return" for n f l t
    using assms by (induction n arbitrary: f l t) (simp_all add: log_log_def acquire_def)
  then show "panic n file line msg k = Inl No_Return" "log_log (panic n) level file line msg k = Inl No_Return"
    using assms by (simp_all add: log_log_def acquire_def)
qed

lemma held_console_panic:
  assumes "holding (lock_of k Console_Lock)" and "\<not> log_quiet k" and "log_level k \<le> LOG_ERROR"
  shows "panic n file line msg k = Inl No_Return"
proof (cases "holding (lock_of k Log_Lock)")
  case True
  then show ?thesis by (rule held_log_lock)
next
  case False
  let ?k = "set_lock Log_Lock \<lparr>locked = 1\<rparr> k"
  obtain c t where line: "log_line LOG_ERROR file line msg = c # t"
    by (cases "log_line LOG_ERROR file line msg") (auto simp: log_line_def)
  have "panic j f l m ?k = Inl No_Return" for j f l m
    by (rule held_log_lock) (simp add: holding_def)
  then have "puts (panic j) (log_line LOG_ERROR file line msg) ?k = Inl No_Return" for j
    using assms(1) by (simp add: line putchar_def acquire_def)
  moreover have "acquire (panic j) Log_Lock k = Inr ?k" for j
    using False by (simp add: acquire_def holding_def test_and_set_def)
  ultimately show ?thesis
    using assms(2,3) by (cases n) (simp_all add: log_log_def)
qed

section \<open>Properties\<close>

text \<open>
  C30: with both locks free, a call of the logger that is not filtered by level or \<open>quiet\<close> prints
  its line once, returns, and leaves both locks free; a filtered call prints nothing.
\<close>

theorem log_log_prints:
  assumes "all_free k"
  shows "log_log (panic n) level file line msg k =
    Inr (k\<lparr>con_out := con_out k @ (if \<not> log_quiet k \<and> level \<ge> log_level k then log_line level file line msg else [])\<rparr>)"
proof -
  let ?k = "set_lock Log_Lock \<lparr>locked = 1\<rparr> k"
  let ?t = "if \<not> log_quiet k \<and> level \<ge> log_level k then log_line level file line msg else []"
  have fl: "lock_of k Log_Lock = free_lock" "lock_of k Console_Lock = free_lock"
    using assms by (simp_all add: all_free_def)
  have "(if \<not> log_quiet ?k \<and> level \<ge> log_level ?k then puts (panic n) (log_line level file line msg) ?k else Inr ?k) =
      Inr (?k\<lparr>con_out := con_out k @ ?t\<rparr>)"
    using fl by (simp add: puts_free)
  moreover have "release (panic n) Log_Lock (?k\<lparr>con_out := con_out k @ ?t\<rparr>) =
      Inr (set_lock Log_Lock free_lock (?k\<lparr>con_out := con_out k @ ?t\<rparr>))"
    by (rule release_held) simp
  moreover have "set_lock Log_Lock free_lock (?k\<lparr>con_out := con_out k @ ?t\<rparr>) = k\<lparr>con_out := con_out k @ ?t\<rparr>"
    using fl by (simp add: set_lock_def fun_upd_idem)
  ultimately show ?thesis
    using acquire_free [OF fl(1), of "panic n"] by (simp add: log_log_def)
qed

text \<open>
  C40: a log call, and so a panic, while the log lock is held never returns and never prints:
  \<open>acquire\<close> answers the held lock with a panic, whose message goes to the logger, which meets the
  held lock again. The same holds for a character printed while the console lock is held, unless
  the logger is quiet or its level above \<open>LOG_ERROR\<close>: the "re-lock" panic cannot be reported.
\<close>

theorem relock_never_ends:
  "(holding (lock_of k Log_Lock) \<longrightarrow>
     log_log (panic n) level file line msg k = Inl No_Return \<and> panic n file line msg k = Inl No_Return) \<and>
   (holding (lock_of k Console_Lock) \<and> \<not> log_quiet k \<and> log_level k \<le> LOG_ERROR \<longrightarrow>
     putchar (panic n) ch k = Inl No_Return)"
  using held_log_lock [of k] held_console_panic [of k] by (simp add: putchar_def acquire_def)

section \<open>Witnesses\<close>

definition boot_console :: console where
  "boot_console = \<lparr>lock_of = (\<lambda>_. free_lock), log_level = LOG_INFO, log_quiet = False, con_out = []\<rparr>"

theorem log_log_prints_witness:
  "\<exists>k. log_log (panic 9) LOG_INFO ''a.c'' 7 ''ok'' boot_console = Inr k \<and> con_out k = log_line LOG_INFO ''a.c'' 7 ''ok''"
  using log_log_prints [of boot_console 9 LOG_INFO "''a.c''" 7 "''ok''"]
  by (simp add: all_free_def boot_console_def)

theorem relock_never_ends_witness:
  "log_log (panic 9) LOG_INFO ''a.c'' 7 ''ok'' (set_lock Log_Lock \<lparr>locked = 1\<rparr> boot_console) = Inl No_Return \<and>
   putchar (panic 9) CHR ''x'' (set_lock Console_Lock \<lparr>locked = 1\<rparr> boot_console) = Inl No_Return"
proof (intro conjI)
  show "log_log (panic 9) LOG_INFO ''a.c'' 7 ''ok'' (set_lock Log_Lock \<lparr>locked = 1\<rparr> boot_console) = Inl No_Return"
    using relock_never_ends [of "set_lock Log_Lock \<lparr>locked = 1\<rparr> boot_console"] by (simp add: holding_def)
  show "putchar (panic 9) CHR ''x'' (set_lock Console_Lock \<lparr>locked = 1\<rparr> boot_console) = Inl No_Return"
    using relock_never_ends [of "set_lock Console_Lock \<lparr>locked = 1\<rparr> boot_console"]
    by (simp add: holding_def boot_console_def LOG_INFO_def LOG_ERROR_def)
qed

end
