(* ===== verification/Printf.thy ===== *)
theory Printf
  imports C_Strings Locks
begin

text \<open>
  kernel/common/printf.c (user/printf.c is the same program): formatted output of integers,
  characters, strings and pointers. An output function is applied to a character, the index, the
  maximal length and the state it works on; the buffer pointer is part of it. Converting
  floating-point numbers is \<open>Not_Modelled\<close>.

  A format is the list of its characters; its end stands for the terminating zero, and moving past
  it is \<open>Out_Of_Bounds\<close>. \<open>va_arg\<close> takes an argument that is a register or a string (its characters
  up to the terminating zero); one that is missing or of the other kind is \<open>Wild_Pointer\<close>.
\<close>

type_synonym 'o out_fct = "u8 \<Rightarrow> u64 \<Rightarrow> u64 \<Rightarrow> 'o \<Rightarrow> 'o"
type_synonym 'o out_state = "u64 \<times> 'o"
type_synonym chars = "u8 list"

datatype printf_arg = Int_Arg u64 | Str_Arg chars

section \<open>Flags\<close>

definition FLAGS_ZEROPAD :: u32 where "FLAGS_ZEROPAD = 2 ^ 0"
definition FLAGS_LEFT :: u32 where "FLAGS_LEFT = 2 ^ 1"
definition FLAGS_PLUS :: u32 where "FLAGS_PLUS = 2 ^ 2"
definition FLAGS_SPACE :: u32 where "FLAGS_SPACE = 2 ^ 3"
definition FLAGS_HASH :: u32 where "FLAGS_HASH = 2 ^ 4"
definition FLAGS_UPPERCASE :: u32 where "FLAGS_UPPERCASE = 2 ^ 5"
definition FLAGS_CHAR :: u32 where "FLAGS_CHAR = 2 ^ 6"
definition FLAGS_SHORT :: u32 where "FLAGS_SHORT = 2 ^ 7"
definition FLAGS_LONG :: u32 where "FLAGS_LONG = 2 ^ 8"
definition FLAGS_LONG_LONG :: u32 where "FLAGS_LONG_LONG = 2 ^ 9"
definition FLAGS_PRECISION :: u32 where "FLAGS_PRECISION = 2 ^ 10"

abbreviation has :: "u32 \<Rightarrow> u32 \<Rightarrow> bool" where "has flags f \<equiv> flags AND f \<noteq> 0"

definition PRINTF_NTOA_BUFFER_SIZE :: nat where "PRINTF_NTOA_BUFFER_SIZE = 32"

section \<open>Output functions\<close>

definition out_buffer :: "u64 \<Rightarrow> bytes out_fct" where
  "out_buffer buf c idx maxlen m = (if idx < maxlen then m(buf + idx := c) else m)"

definition out_null :: "'o out_fct" where
  "out_null c idx maxlen st = st"

text \<open>The state of \<open>_out_char\<close> is the sequence of the characters passed to \<open>_putchar\<close>.\<close>

definition out_char :: "chars out_fct" where
  "out_char c idx maxlen st = (if c \<noteq> 0 then st @ [c] else st)"

definition out_fct :: "(u8 \<Rightarrow> 'o \<Rightarrow> 'o) \<Rightarrow> 'o out_fct" where
  "out_fct fct c idx maxlen st = (if c \<noteq> 0 then fct c st else st)"

text \<open>A sequence of calls \<open>out(c, buffer, idx++, maxlen)\<close>.\<close>

fun outs :: "'o out_fct \<Rightarrow> u64 \<Rightarrow> chars \<Rightarrow> 'o out_state \<Rightarrow> 'o out_state" where
  "outs out maxlen [] st = st"
| "outs out maxlen (c # cs) (idx, st) = outs out maxlen cs (idx + 1, out c idx maxlen st)"

section \<open>Numbers\<close>

definition is_digit :: "u8 \<Rightarrow> bool" where
  "is_digit ch \<longleftrightarrow> 48 \<le> ch \<and> ch \<le> 57"

fun atoi :: "chars \<Rightarrow> u32 \<Rightarrow> u32 \<times> chars" where
  "atoi [] i = (i, [])"
| "atoi (c # s) i = (if is_digit c then atoi s (i * 10 + (ucast c - 48)) else (i, c # s))"

text \<open>\<open>for (i = len; i < width; i++)\<close>: the spaces that are left to the width.\<close>

definition spaces :: "nat \<Rightarrow> nat \<Rightarrow> chars" where
  "spaces len width = replicate (width - len) 0x20"

definition out_rev ::
  "'o out_fct \<Rightarrow> u64 \<Rightarrow> chars \<Rightarrow> u32 \<Rightarrow> u32 \<Rightarrow> 'o out_state \<Rightarrow> 'o out_state" where
  "out_rev out maxlen buf width flags st =
    (let start = fst st;
         st = (if \<not> has flags FLAGS_LEFT \<and> \<not> has flags FLAGS_ZEROPAD
               then outs out maxlen (spaces (length buf) (unat width)) st else st);
         st = outs out maxlen (rev buf) st
     in if has flags FLAGS_LEFT
        then outs out maxlen (spaces (unat (fst st - start)) (unat width)) st
        else st)"

definition pad_zeros :: "chars \<Rightarrow> u32 \<Rightarrow> chars" where
  "pad_zeros buf n = buf @ replicate (min (unat n) PRINTF_NTOA_BUFFER_SIZE - length buf) 0x30"

definition push_char :: "u8 \<Rightarrow> chars \<Rightarrow> chars" where
  "push_char c buf = (if length buf < PRINTF_NTOA_BUFFER_SIZE then buf @ [c] else buf)"

text \<open>The prefix of \<open>#\<close>, after one or two padding zeros have made room for it.\<close>

definition hash_prefix :: "u32 \<Rightarrow> u32 \<Rightarrow> u32 \<Rightarrow> u32 \<Rightarrow> chars \<Rightarrow> chars" where
  "hash_prefix base prec width flags buf =
    (let buf = (if \<not> has flags FLAGS_PRECISION \<and> buf \<noteq> [] \<and> (length buf = unat prec \<or> length buf = unat width)
                then (let buf = butlast buf in if buf \<noteq> [] \<and> base = 16 then butlast buf else buf)
                else buf);
         buf = (if base = 16 \<and> \<not> has flags FLAGS_UPPERCASE \<and> length buf < PRINTF_NTOA_BUFFER_SIZE then buf @ [0x78]
                else if base = 16 \<and> has flags FLAGS_UPPERCASE \<and> length buf < PRINTF_NTOA_BUFFER_SIZE then buf @ [0x58]
                else if base = 2 \<and> length buf < PRINTF_NTOA_BUFFER_SIZE then buf @ [0x62]
                else buf)
     in push_char 0x30 buf)"

definition ntoa_format ::
  "'o out_fct \<Rightarrow> u64 \<Rightarrow> chars \<Rightarrow> bool \<Rightarrow> u32 \<Rightarrow> u32 \<Rightarrow> u32 \<Rightarrow> u32 \<Rightarrow> 'o out_state \<Rightarrow> 'o out_state" where
  "ntoa_format out maxlen buf negative base prec width flags st =
    (let (buf, width) =
           (if \<not> has flags FLAGS_LEFT then
              let width = (if width \<noteq> 0 \<and> has flags FLAGS_ZEROPAD \<and> (negative \<or> has flags (FLAGS_PLUS OR FLAGS_SPACE))
                           then width - 1 else width);
                  buf = pad_zeros buf prec
              in (if has flags FLAGS_ZEROPAD then pad_zeros buf width else buf, width)
            else (buf, width));
         buf = (if has flags FLAGS_HASH then hash_prefix base prec width flags buf else buf);
         buf = (if negative then push_char 0x2D buf
                else if has flags FLAGS_PLUS then push_char 0x2B buf
                else if has flags FLAGS_SPACE then push_char 0x20 buf
                else buf)
     in out_rev out maxlen buf width flags st)"

definition digit_char :: "bool \<Rightarrow> u64 \<Rightarrow> u8" where
  "digit_char upper d = (let d = ucast d in if d < 10 then 48 + d else (if upper then 65 else 97) + d - 10)"

text \<open>The digits from the last; the number is the space left in the buffer.\<close>

fun ntoa_digits :: "nat \<Rightarrow> u64 \<Rightarrow> u64 \<Rightarrow> bool \<Rightarrow> chars" where
  "ntoa_digits 0 v base upper = []"
| "ntoa_digits (Suc n) v base upper =
    digit_char upper (v mod base) # (if v div base \<noteq> 0 then ntoa_digits n (v div base) base upper else [])"

definition ntoa_long ::
  "'o out_fct \<Rightarrow> u64 \<Rightarrow> u64 \<Rightarrow> bool \<Rightarrow> u64 \<Rightarrow> u32 \<Rightarrow> u32 \<Rightarrow> u32 \<Rightarrow> 'o out_state \<Rightarrow> 'o out_state" where
  "ntoa_long out maxlen v negative base prec width flags st =
    (let flags = (if v = 0 then flags AND NOT FLAGS_HASH else flags);
         buf = (if \<not> has flags FLAGS_PRECISION \<or> v \<noteq> 0
                then ntoa_digits PRINTF_NTOA_BUFFER_SIZE v base (has flags FLAGS_UPPERCASE) else [])
     in ntoa_format out maxlen buf negative (ucast base) prec width flags st)"

text \<open>\<open>long\<close> and \<open>long long\<close> have 64 bits: the two functions are the same.\<close>

definition ntoa_long_long ::
  "'o out_fct \<Rightarrow> u64 \<Rightarrow> u64 \<Rightarrow> bool \<Rightarrow> u64 \<Rightarrow> u32 \<Rightarrow> u32 \<Rightarrow> u32 \<Rightarrow> 'o out_state \<Rightarrow> 'o out_state" where
  "ntoa_long_long out maxlen v negative base prec width flags st =
    (let flags = (if v = 0 then flags AND NOT FLAGS_HASH else flags);
         buf = (if \<not> has flags FLAGS_PRECISION \<or> v \<noteq> 0
                then ntoa_digits PRINTF_NTOA_BUFFER_SIZE v base (has flags FLAGS_UPPERCASE) else [])
     in ntoa_format out maxlen buf negative (ucast base) prec width flags st)"

section \<open>Format specifiers\<close>

definition cur :: "chars \<Rightarrow> u8" where
  "cur fmt = (case fmt of [] \<Rightarrow> 0 | c # s \<Rightarrow> c)"

definition advance :: "chars \<Rightarrow> chars result" where
  "advance fmt = (case fmt of [] \<Rightarrow> Inl Out_Of_Bounds | c # s \<Rightarrow> Inr s)"

definition va_int :: "printf_arg list \<Rightarrow> (u64 \<times> printf_arg list) result" where
  "va_int args = (case args of Int_Arg v # rest \<Rightarrow> Inr (v, rest) | _ \<Rightarrow> Inl Wild_Pointer)"

definition va_str :: "printf_arg list \<Rightarrow> (chars \<times> printf_arg list) result" where
  "va_str args = (case args of Str_Arg s # rest \<Rightarrow> Inr (s, rest) | _ \<Rightarrow> Inl Wild_Pointer)"

fun parse_flags :: "chars \<Rightarrow> u32 \<Rightarrow> u32 \<times> chars" where
  "parse_flags [] flags = (flags, [])"
| "parse_flags (c # s) flags =
    (if c = 0x30 then parse_flags s (flags OR FLAGS_ZEROPAD)
     else if c = 0x2D then parse_flags s (flags OR FLAGS_LEFT)
     else if c = 0x2B then parse_flags s (flags OR FLAGS_PLUS)
     else if c = 0x20 then parse_flags s (flags OR FLAGS_SPACE)
     else if c = 0x23 then parse_flags s (flags OR FLAGS_HASH)
     else (flags, c # s))"

text \<open>The width, the flags (a negative width of \<open>*\<close> sets one), the rest of the format and the arguments.\<close>

definition parse_width :: "chars \<Rightarrow> u32 \<Rightarrow> printf_arg list \<Rightarrow> (u32 \<times> u32 \<times> chars \<times> printf_arg list) result" where
  "parse_width fmt flags args =
    (if is_digit (cur fmt) then (let (width, fmt) = atoi fmt 0 in Inr (width, flags, fmt, args))
     else if cur fmt = 0x2A then
       rbind (va_int args) (\<lambda>(v, args).
       let w = ucast v :: u32 in
       if w <s 0 then Inr (0 - w, flags OR FLAGS_LEFT, tl fmt, args) else Inr (w, flags, tl fmt, args))
     else Inr (0, flags, fmt, args))"

definition parse_precision :: "chars \<Rightarrow> u32 \<Rightarrow> printf_arg list \<Rightarrow> (u32 \<times> u32 \<times> chars \<times> printf_arg list) result" where
  "parse_precision fmt flags args =
    (if cur fmt = 0x2E then
       let flags = flags OR FLAGS_PRECISION; fmt = tl fmt in
       if is_digit (cur fmt) then (let (prec, fmt) = atoi fmt 0 in Inr (prec, flags, fmt, args))
       else if cur fmt = 0x2A then
         rbind (va_int args) (\<lambda>(v, args).
         let p = ucast v :: u32 in Inr (if 0 <s p then p else 0, flags, tl fmt, args))
       else Inr (0, flags, fmt, args)
     else Inr (0, flags, fmt, args))"

definition parse_length :: "chars \<Rightarrow> u32 \<Rightarrow> u32 \<times> chars" where
  "parse_length fmt flags =
    (if cur fmt = 0x6C then
       (let flags = flags OR FLAGS_LONG; fmt = tl fmt in
        if cur fmt = 0x6C then (flags OR FLAGS_LONG_LONG, tl fmt) else (flags, fmt))
     else if cur fmt = 0x68 then
       (let flags = flags OR FLAGS_SHORT; fmt = tl fmt in
        if cur fmt = 0x68 then (flags OR FLAGS_CHAR, tl fmt) else (flags, fmt))
     else if cur fmt = 0x74 \<or> cur fmt = 0x6A \<or> cur fmt = 0x7A then (flags OR FLAGS_LONG, tl fmt)
     else (flags, fmt))"

section \<open>Conversions\<close>

text \<open>The magnitude of a signed value; \<open>int\<close> values are widened from 32 bits, \<open>char\<close> is unsigned.\<close>

definition signed_arg :: "u32 \<Rightarrow> u64 \<Rightarrow> u64 \<times> bool" where
  "signed_arg flags v =
    (if has flags FLAGS_LONG_LONG \<or> has flags FLAGS_LONG then (if 0 <s v then v else 0 - v, v <s 0)
     else
       let w = (if has flags FLAGS_CHAR then ucast (ucast v :: u8)
                else if has flags FLAGS_SHORT then scast (ucast v :: u16)
                else ucast v) :: u32
       in (ucast (if 0 <s w then w else 0 - w), w <s 0))"

definition unsigned_arg :: "u32 \<Rightarrow> u64 \<Rightarrow> u64" where
  "unsigned_arg flags v =
    (if has flags FLAGS_LONG_LONG \<or> has flags FLAGS_LONG then v
     else if has flags FLAGS_CHAR then ucast (ucast v :: u8)
     else if has flags FLAGS_SHORT then ucast (ucast v :: u16)
     else ucast (ucast v :: u32))"

definition conv_int ::
  "'o out_fct \<Rightarrow> u64 \<Rightarrow> u8 \<Rightarrow> u32 \<Rightarrow> u32 \<Rightarrow> u32 \<Rightarrow> printf_arg list \<Rightarrow> 'o out_state
    \<Rightarrow> ('o out_state \<times> printf_arg list) result" where
  "conv_int out maxlen c flags width prec args st =
    (let (base, flags) = (if c = 0x78 \<or> c = 0x58 then (16, flags) else if c = 0x6F then (8, flags)
                          else if c = 0x62 then (2, flags) else (10, flags AND NOT FLAGS_HASH));
         flags = (if c = 0x58 then flags OR FLAGS_UPPERCASE else flags);
         flags = (if c \<noteq> 0x69 \<and> c \<noteq> 0x64 then flags AND NOT (FLAGS_PLUS OR FLAGS_SPACE) else flags);
         flags = (if has flags FLAGS_PRECISION then flags AND NOT FLAGS_ZEROPAD else flags)
     in rbind (va_int args) (\<lambda>(v, args).
        let (v, negative) = (if c = 0x69 \<or> c = 0x64 then signed_arg flags v else (unsigned_arg flags v, False)) in
        Inr (if has flags FLAGS_LONG_LONG then ntoa_long_long out maxlen v negative base prec width flags st
             else ntoa_long out maxlen v negative base prec width flags st, args)))"

text \<open>\<open>while (l++ < width)\<close> puts the spaces left to the width.\<close>

definition conv_char ::
  "'o out_fct \<Rightarrow> u64 \<Rightarrow> u32 \<Rightarrow> u32 \<Rightarrow> printf_arg list \<Rightarrow> 'o out_state \<Rightarrow> ('o out_state \<times> printf_arg list) result" where
  "conv_char out maxlen flags width args st =
    rbind (va_int args) (\<lambda>(v, args).
    let pad = spaces 1 (unat width);
        st = (if \<not> has flags FLAGS_LEFT then outs out maxlen pad st else st);
        st = outs out maxlen [ucast v] st
    in Inr (if has flags FLAGS_LEFT then outs out maxlen pad st else st, args))"

definition str_end :: "chars \<Rightarrow> chars" where
  "str_end s = takeWhile (\<lambda>c. c \<noteq> 0) s"

definition strnlen_s :: "chars \<Rightarrow> nat \<Rightarrow> nat" where
  "strnlen_s s maxsize = min (length (str_end s)) maxsize"

definition conv_str ::
  "'o out_fct \<Rightarrow> u64 \<Rightarrow> u32 \<Rightarrow> u32 \<Rightarrow> u32 \<Rightarrow> printf_arg list \<Rightarrow> 'o out_state \<Rightarrow> ('o out_state \<times> printf_arg list) result" where
  "conv_str out maxlen flags width prec args st =
    rbind (va_str args) (\<lambda>(p, args).
    let l = strnlen_s p (if prec \<noteq> 0 then unat prec else 2 ^ 64 - 1);
        l = (if has flags FLAGS_PRECISION then min l (unat prec) else l);
        pad = spaces l (unat width);
        st = (if \<not> has flags FLAGS_LEFT then outs out maxlen pad st else st);
        st = outs out maxlen (if has flags FLAGS_PRECISION then take (unat prec) (str_end p) else str_end p) st
    in Inr (if has flags FLAGS_LEFT then outs out maxlen pad st else st, args))"

definition conv_ptr ::
  "'o out_fct \<Rightarrow> u64 \<Rightarrow> u32 \<Rightarrow> u32 \<Rightarrow> printf_arg list \<Rightarrow> 'o out_state \<Rightarrow> ('o out_state \<times> printf_arg list) result" where
  "conv_ptr out maxlen flags prec args st =
    rbind (va_int args) (\<lambda>(v, args).
    Inr (ntoa_long_long out maxlen v False 16 prec 16 (flags OR (FLAGS_ZEROPAD OR FLAGS_UPPERCASE)) st, args))"

definition convert ::
  "'o out_fct \<Rightarrow> u64 \<Rightarrow> u8 \<Rightarrow> u32 \<Rightarrow> u32 \<Rightarrow> u32 \<Rightarrow> printf_arg list \<Rightarrow> 'o out_state
    \<Rightarrow> ('o out_state \<times> printf_arg list) result" where
  "convert out maxlen c flags width prec args st =
    (if c \<in> {0x64, 0x69, 0x75, 0x78, 0x58, 0x6F, 0x62} then conv_int out maxlen c flags width prec args st
     else if c \<in> {0x66, 0x46, 0x65, 0x45, 0x67, 0x47} then Inl Not_Modelled
     else if c = 0x63 then conv_char out maxlen flags width args st
     else if c = 0x73 then conv_str out maxlen flags width prec args st
     else if c = 0x70 then conv_ptr out maxlen flags prec args st
     else Inr (outs out maxlen [c] st, args))"

section \<open>The loop over the format\<close>

text \<open>A specifier: flags, width, precision and length, then the conversion.\<close>

definition specifier ::
  "'o out_fct \<Rightarrow> u64 \<Rightarrow> chars \<Rightarrow> printf_arg list \<Rightarrow> 'o out_state \<Rightarrow> (chars \<times> printf_arg list \<times> 'o out_state) result" where
  "specifier out maxlen fmt args st =
    (let (flags, fmt) = parse_flags fmt 0 in
     rbind (parse_width fmt flags args) (\<lambda>(width, flags, fmt, args).
     rbind (parse_precision fmt flags args) (\<lambda>(prec, flags, fmt, args).
     let (flags, fmt) = parse_length fmt flags in
     rbind (convert out maxlen (cur fmt) flags width prec args st) (\<lambda>(st, args).
     rbind (advance fmt) (\<lambda>fmt. Inr (fmt, args, st))))))"

text \<open>Every round takes at least one character of the format, so its length is fuel enough.\<close>

fun vsnprintf_loop ::
  "nat \<Rightarrow> 'o out_fct \<Rightarrow> u64 \<Rightarrow> chars \<Rightarrow> printf_arg list \<Rightarrow> 'o out_state \<Rightarrow> 'o out_state result" where
  "vsnprintf_loop 0 out maxlen fmt args st = Inl No_Return"
| "vsnprintf_loop (Suc fuel) out maxlen fmt args st =
    (if cur fmt = 0 then Inr st
     else if cur fmt \<noteq> 0x25 then vsnprintf_loop fuel out maxlen (tl fmt) args (outs out maxlen [cur fmt] st)
     else rbind (specifier out maxlen (tl fmt) args st) (\<lambda>(fmt, args, st).
          vsnprintf_loop fuel out maxlen fmt args st))"

text \<open>The result is the value of the C function and the state of the output.\<close>

definition vsnprintf ::
  "'o out_fct \<Rightarrow> u64 \<Rightarrow> chars \<Rightarrow> printf_arg list \<Rightarrow> 'o \<Rightarrow> (int \<times> 'o) result" where
  "vsnprintf out maxlen fmt args st =
    rbind (vsnprintf_loop (Suc (length fmt)) out maxlen fmt args (0, st)) (\<lambda>(idx, st).
    Inr (sint (ucast idx :: u32), out 0 (if idx < maxlen then idx else maxlen - 1) maxlen st))"

section \<open>The entry points\<close>

definition buffer_out :: "u64 \<Rightarrow> bytes out_fct" where
  "buffer_out buf = (if buf = 0 then out_null else out_buffer buf)"

definition snprintf :: "u64 \<Rightarrow> u64 \<Rightarrow> chars \<Rightarrow> printf_arg list \<Rightarrow> bytes \<Rightarrow> (int \<times> bytes) result" where
  "snprintf buf count fmt args m = vsnprintf (buffer_out buf) count fmt args m"

definition sprintf :: "u64 \<Rightarrow> chars \<Rightarrow> printf_arg list \<Rightarrow> bytes \<Rightarrow> (int \<times> bytes) result" where
  "sprintf buf fmt args m = vsnprintf (buffer_out buf) (-1) fmt args m"

definition fctprintf :: "(u8 \<Rightarrow> 'o \<Rightarrow> 'o) \<Rightarrow> chars \<Rightarrow> printf_arg list \<Rightarrow> 'o \<Rightarrow> (int \<times> 'o) result" where
  "fctprintf fct fmt args st = vsnprintf (out_fct fct) (-1) fmt args st"

text \<open>\<open>printf\<close> on the console of the kernel: the characters go to \<open>_putchar\<close> in order.\<close>

definition printf :: "panic_fun \<Rightarrow> chars \<Rightarrow> printf_arg list \<Rightarrow> console \<Rightarrow> (int \<times> console) result" where
  "printf pan fmt args k =
    rbind (vsnprintf out_char (-1) fmt args []) (\<lambda>(n, cs).
    rbind (puts pan (map (\<lambda>c. char_of (unat c)) cs) k) (\<lambda>k. Inr (n, k)))"

end
