(* ===== verification/Printf_Props.thy ===== *)
theory Printf_Props
  imports Printf
begin

text \<open>
  Properties of the formatter: what any output function keeps is kept by the whole of
  \<open>_vsnprintf\<close> (a locale for the output functions), so \<open>snprintf\<close> stays inside its buffer; the loop
  always has fuel; and numbers are printed so that \<open>_atoi\<close> reads them back.
\<close>

section \<open>What the output function keeps\<close>

lemma outs_Cons: "outs out maxlen (c # cs) st = outs out maxlen cs (fst st + 1, out c (fst st) maxlen (snd st))"
  by (cases st) simp

locale output_keeps =
  fixes out :: "'o out_fct" and maxlen :: u64 and P :: "'o \<Rightarrow> bool"
  assumes step: "P st \<Longrightarrow> P (out c idx maxlen st)"
begin

lemma outs_keeps: "P (snd st) \<Longrightarrow> P (snd (outs out maxlen cs st))"
proof (induction cs arbitrary: st)
  case (Cons c cs)
  then show ?case using step by (simp add: outs_Cons)
qed simp

lemma out_rev_keeps: "P (snd st) \<Longrightarrow> P (snd (out_rev out maxlen buf width flags st))"
  by (simp add: out_rev_def Let_def outs_keeps)

lemma ntoa_keeps: "P (snd st) \<Longrightarrow> P (snd (ntoa_long out maxlen v negative base prec width flags st))"
  "P (snd st) \<Longrightarrow> P (snd (ntoa_long_long out maxlen v negative base prec width flags st))"
  by (simp_all add: ntoa_long_def ntoa_long_long_def ntoa_format_def Let_def out_rev_keeps split: prod.split)

lemma convert_keeps:
  "\<lbrakk> P (snd st); convert out maxlen c flags width prec args st = Inr (st', args') \<rbrakk> \<Longrightarrow> P (snd st')"
  unfolding convert_def conv_int_def conv_char_def conv_str_def conv_ptr_def Let_def
  by (auto simp: rbind_Inr_iff outs_keeps ntoa_keeps split: if_splits prod.splits)

lemma specifier_keeps:
  "\<lbrakk> P (snd st); specifier out maxlen fmt args st = Inr (fmt', args', st') \<rbrakk> \<Longrightarrow> P (snd st')"
  by (auto simp: specifier_def Let_def rbind_Inr_iff case_prod_unfold dest: convert_keeps)

lemma loop_keeps:
  "\<lbrakk> P (snd st); vsnprintf_loop fuel out maxlen fmt args st = Inr st' \<rbrakk> \<Longrightarrow> P (snd st')"
proof (induction fuel arbitrary: fmt args st)
  case (Suc fuel)
  consider "cur fmt = 0" | "cur fmt \<noteq> 0" "cur fmt \<noteq> 0x25" | "cur fmt = 0x25" by blast
  then show ?case
  proof cases
    case 2
    with Suc.prems Suc.IH [OF outs_keeps [OF Suc.prems(1)]] show ?thesis by (simp del: outs.simps)
  next
    case 3
    with Suc.prems obtain fmt' args' st1 where "specifier out maxlen (tl fmt) args st = Inr (fmt', args', st1)"
      "vsnprintf_loop fuel out maxlen fmt' args' st1 = Inr st'"
      by (auto simp: rbind_Inr_iff)
    then show ?thesis using Suc.IH specifier_keeps [OF Suc.prems(1)] by blast
  qed (use Suc.prems in simp)
qed simp

lemma vsnprintf_keeps: "\<lbrakk> P st; vsnprintf out maxlen fmt args st = Inr (n, st') \<rbrakk> \<Longrightarrow> P st'"
  using loop_keeps [where st = "(0, st)"] by (auto simp: vsnprintf_def rbind_Inr_iff simp del: vsnprintf_loop.simps intro: step)

end

text \<open>\<open>_out_buffer\<close> writes inside the buffer only, \<open>_out_null\<close> nowhere.\<close>

interpretation buffer_bounds: output_keeps "buffer_out buf" count "\<lambda>m. \<forall>x. x \<notin> zone buf (unat count) \<longrightarrow> m x = m0 x"
  for buf count m0
proof
  fix m :: bytes and c idx assume m: "\<forall>x. x \<notin> zone buf (unat count) \<longrightarrow> m x = m0 x"
  have "buf + idx \<in> zone buf (unat count)" if "idx < count"
    using that by (auto simp: zone_def word_less_nat_alt intro!: image_eqI [of _ _ "unat idx"])
  with m show "\<forall>x. x \<notin> zone buf (unat count) \<longrightarrow> buffer_out buf c idx count m x = m0 x"
    by (auto simp: buffer_out_def out_buffer_def out_null_def)
qed

section \<open>Fuel\<close>

lemma atoi_length: "atoi s i = (n, s') \<Longrightarrow> length s' \<le> length s"
  by (induction s arbitrary: i) (auto split: if_splits intro: le_SucI)

lemma parse_flags_length: "parse_flags s f = (f', s') \<Longrightarrow> length s' \<le> length s"
  by (induction s arbitrary: f) (auto split: if_splits intro: le_SucI)

lemma parse_width_length: "parse_width s f args = Inr (w, f', s', args') \<Longrightarrow> length s' \<le> length s"
  unfolding parse_width_def Let_def
  by (auto simp: rbind_Inr_iff dest: atoi_length split: if_splits prod.splits)

lemma parse_precision_length: "parse_precision s f args = Inr (w, f', s', args') \<Longrightarrow> length s' \<le> length s"
  unfolding parse_precision_def Let_def
  by (auto simp: rbind_Inr_iff dest!: atoi_length split: if_splits prod.splits)

lemma parse_length_length: "parse_length s f = (f', s') \<Longrightarrow> length s' \<le> length s"
  by (auto simp: parse_length_def Let_def split: if_splits)

lemma specifier_length:
  "specifier out maxlen fmt args st = Inr (fmt', args', st') \<Longrightarrow> length fmt' \<le> length fmt"
proof -
  assume "specifier out maxlen fmt args st = Inr (fmt', args', st')"
  then obtain w f1 s1 a1 p f2 s2 a2 where s:
    "parse_width (snd (parse_flags fmt 0)) (fst (parse_flags fmt 0)) args = Inr (w, f1, s1, a1)"
    "parse_precision s1 f1 a1 = Inr (p, f2, s2, a2)" "advance (snd (parse_length s2 f2)) = Inr fmt'"
    by (auto simp: specifier_def Let_def rbind_Inr_iff case_prod_unfold)
  have "length fmt' \<le> length (snd (parse_length s2 f2))" using s(3) by (auto simp: advance_def split: list.splits)
  also have "\<dots> \<le> length s2" by (rule parse_length_length) (rule surjective_pairing)
  also have "\<dots> \<le> length s1" by (rule parse_precision_length [OF s(2)])
  also have "\<dots> \<le> length (snd (parse_flags fmt 0))" by (rule parse_width_length [OF s(1)])
  also have "\<dots> \<le> length fmt" by (rule parse_flags_length) (rule surjective_pairing)
  finally show ?thesis .
qed

definition no_fuel :: "'a result \<Rightarrow> bool" where
  "no_fuel r \<longleftrightarrow> r = Inl No_Return"

lemma no_fuel_simps [simp]: "\<not> no_fuel (Inr x)" "no_fuel (Inl e) \<longleftrightarrow> e = No_Return"
  by (simp_all add: no_fuel_def)

lemma no_fuel_rbind: "no_fuel (rbind r f) \<longleftrightarrow> no_fuel r \<or> (\<exists>x. r = Inr x \<and> no_fuel (f x))"
  by (cases r) auto

lemma parts_return: "\<not> no_fuel (va_int args)" "\<not> no_fuel (va_str args)" "\<not> no_fuel (advance fmt)"
  by (auto simp: va_int_def va_str_def advance_def split: list.split printf_arg.split)

lemma parse_returns: "\<not> no_fuel (parse_width fmt flags args)" "\<not> no_fuel (parse_precision fmt flags args)"
  by (auto simp: parse_width_def parse_precision_def Let_def no_fuel_rbind parts_return case_prod_unfold)

lemma convert_returns: "\<not> no_fuel (convert out maxlen c flags width prec args st)"
  by (auto simp: convert_def conv_int_def conv_char_def conv_str_def conv_ptr_def Let_def no_fuel_rbind
      parts_return case_prod_unfold)

lemma specifier_returns: "\<not> no_fuel (specifier out maxlen fmt args st)"
  by (auto simp: specifier_def Let_def no_fuel_rbind parts_return parse_returns convert_returns case_prod_unfold)

lemma loop_returns: "length fmt < fuel \<Longrightarrow> \<not> no_fuel (vsnprintf_loop fuel out maxlen fmt args st)"
proof (induction fuel arbitrary: fmt args st)
  case (Suc fuel)
  have "length (tl fmt) < fuel" if "cur fmt \<noteq> 0" using Suc.prems that by (cases fmt) (simp_all add: cur_def)
  moreover have "length fmt' < fuel" if "cur fmt = 0x25" "specifier out maxlen (tl fmt) args st = Inr (fmt', args', st')"
    for fmt' args' st'
    using specifier_length [OF that(2)] calculation that(1) by simp
  ultimately show ?case
    using Suc.IH by (auto simp: no_fuel_rbind specifier_returns)
qed simp

section \<open>Digits\<close>

lemma outs_index: "fst (outs out maxlen cs st) = fst st + of_nat (length cs)"
  by (induction cs arbitrary: st) (simp_all add: outs_Cons)

lemma outs_chars: "snd (outs out_char maxlen cs st) = snd st @ filter (\<lambda>c. c \<noteq> 0) cs"
  by (induction cs arbitrary: st) (simp_all add: outs_Cons out_char_def)

lemma unat_digit: "unat (v mod 10 :: u64) = unat v mod 10" "unat (v div 10 :: u64) = unat v div 10"
  by (simp_all add: unat_mod unat_div)

lemma ucast_of_nat: "(ucast (w :: 'a::len word) :: 'b::len word) = of_nat (unat w)"
  by simp

lemma digit_value:
  fixes v :: u64 and up :: bool
  defines "c \<equiv> digit_char up (v mod 10)"
  shows "is_digit c" "(ucast c - 48 :: u32) = of_nat (unat v mod 10)" "c \<noteq> 0"
proof -
  have d: "unat v mod 10 < 10" by simp
  have u: "(ucast (v mod 10) :: u8) = of_nat (unat v mod 10)"
    by (metis unat_digit(1) ucast_of_nat)
  have "unat (of_nat (unat v mod 10) :: u8) = unat v mod 10"
    by (rule of_nat_inverse [OF refl]) (use d in simp)
  then have "(of_nat (unat v mod 10) :: u8) < 10" using d by (simp add: word_less_nat_alt)
  then have "c = 48 + of_nat (unat v mod 10)" by (simp add: c_def digit_char_def u)
  then have c: "c = of_nat (48 + unat v mod 10)" by simp
  have un: "unat c = 48 + unat v mod 10"
    unfolding c by (rule of_nat_inverse [OF refl]) (use d in simp)
  with d show "is_digit c" by (simp add: is_digit_def word_le_nat_alt)
  show "c \<noteq> 0" using un by auto
  have "(ucast c :: u32) = of_nat (48 + unat v mod 10)" by (metis un ucast_of_nat)
  then show "(ucast c - 48 :: u32) = of_nat (unat v mod 10)" by simp
qed

lemma atoi_digits:
  "unat v < 10 ^ n \<Longrightarrow> 0 < n \<Longrightarrow>
   atoi (rev (ntoa_digits n v 10 up) @ s) i = atoi s (i * 10 ^ length (ntoa_digits n v 10 up) + of_nat (unat v))"
proof (induction n arbitrary: v i s)
  case (Suc n)
  let ?c = "digit_char up (v mod 10)"
  have v: "(of_nat (unat v) :: u32) = of_nat (unat v div 10) * 10 + of_nat (unat v mod 10)"
    by (metis div_mult_mod_eq of_nat_add of_nat_mult of_nat_numeral)
  show ?case
  proof (cases "v div 10 = 0")
    case True
    then have "unat v div 10 = 0" by (metis unat_0 unat_digit(2))
    with v True show ?thesis using digit_value [of up v] by (simp add: algebra_simps)
  next
    case False
    then have n: "0 < n" "unat (v div 10) < 10 ^ n"
    proof -
      have nz: "unat v div 10 \<noteq> 0" using False unat_digit(2) [of v] by (metis unat_eq_zero)
      show "0 < n" using nz Suc.prems(1) by (cases n) simp_all
      show "unat (v div 10) < 10 ^ n" using Suc.prems(1) by (simp add: unat_digit(2) less_mult_imp_div_less mult.commute)
    qed
    have "atoi (rev (ntoa_digits n (v div 10) 10 up) @ ?c # s) i =
        atoi (?c # s) (i * 10 ^ length (ntoa_digits n (v div 10) 10 up) + of_nat (unat v div 10))"
      using Suc.IH [OF n(2,1)] by (simp add: unat_digit(2))
    with False v show ?thesis using digit_value [of up v] by (simp add: algebra_simps)
  qed
qed simp

lemma digits_bounds: "length (ntoa_digits n v base up) \<le> n"
  by (induction n arbitrary: v) (auto simp: le_SucI)

lemma digits_nonzero: "c \<in> set (ntoa_digits n v 10 up) \<Longrightarrow> c \<noteq> 0"
  by (induction n arbitrary: v) (auto simp: digit_value(3) split: if_splits)

text \<open>The plain unsigned conversion puts out the digits.\<close>

lemma no_flags [simp]: "\<not> has 0 f" by simp

lemma ntoa_long_plain:
  "ntoa_long out maxlen v False 10 0 0 0 st = outs out maxlen (rev (ntoa_digits 32 v 10 False)) st"
  by (simp add: ntoa_long_def ntoa_format_def pad_zeros_def out_rev_def spaces_def Let_def PRINTF_NTOA_BUFFER_SIZE_def
      split: prod.split)

lemma vsnprintf_u:
  fixes w :: u64
  defines "ds \<equiv> rev (ntoa_digits 32 (ucast (ucast w :: u32)) 10 False)"
  shows "vsnprintf out_char (-1) [0x25, 0x75] [Int_Arg w] [] = Inr (int (length ds), ds)"
proof -
  have "specifier out_char (-1) [0x75] [Int_Arg w] (0, []) =
      Inr ([], [], outs out_char (-1) ds (0, []))"
    by (simp add: specifier_def parse_width_def parse_precision_def parse_length_def cur_def is_digit_def convert_def
        conv_int_def va_int_def unsigned_arg_def ntoa_long_plain ds_def advance_def Let_def)
  moreover have "filter (\<lambda>c. c \<noteq> 0) ds = ds"
    by (rule filter_True) (use digits_nonzero in \<open>auto simp: ds_def\<close>)
  ultimately have loop: "vsnprintf_loop (Suc (length [0x25, 0x75 :: u8])) out_char (-1) [0x25, 0x75] [Int_Arg w] (0, []) =
      Inr (of_nat (length ds), ds)"
    using outs_index [of out_char "-1" ds "(0, [])"] outs_chars [of "-1" ds "(0, [])"]
    by (simp add: cur_def prod_eq_iff)
  have len: "length ds \<le> 32" using digits_bounds by (simp add: ds_def)
  have "(ucast (of_nat (length ds) :: u64) :: u32) = of_nat (length ds)"
  proof -
    have "unat (of_nat (length ds) :: u64) = length ds" by (rule unat_of_nat_u64) (use len in simp)
    then show ?thesis unfolding ucast_of_nat by (simp only:)
  qed
  moreover have "sint (of_nat (length ds) :: u32) = int (length ds)"
    using len by (simp add: signed_of_nat signed_take_bit_int_eq_self)
  ultimately show ?thesis unfolding vsnprintf_def loop by (simp add: out_char_def)
qed

section \<open>Properties\<close>



text \<open>
  C32: what \<open>%u\<close> prints, \<open>_atoi\<close> reads back: all 32 bits of the argument, and the text after the
  digits is left. The result is the number of characters printed.
\<close>

theorem print_then_atoi:
  "\<exists>ds. vsnprintf out_char (-1) [0x25, 0x75] [Int_Arg w] [] = Inr (int (length ds), ds) \<and>
    (\<forall>s. \<not> is_digit (cur s) \<longrightarrow> atoi (ds @ s) 0 = (ucast w, s))"
proof (intro exI conjI allI impI)
  let ?ds = "rev (ntoa_digits 32 (ucast (ucast w :: u32)) 10 False)"
  show "vsnprintf out_char (-1) [0x25, 0x75] [Int_Arg w] [] = Inr (int (length ?ds), ?ds)" by (rule vsnprintf_u)
  fix s assume s: "\<not> is_digit (cur s)"
  have u: "unat (ucast (ucast w :: u32) :: u64) = unat (ucast w :: u32)"
    by (rule unat_ucast_small) (use unsigned_less [where 'a = nat, of "ucast w :: u32"] in simp)
  have "unat (ucast (ucast w :: u32) :: u64) < 10 ^ 32"
    unfolding u using unsigned_less [where 'a = nat, of "ucast w :: u32"] by simp
  then have "atoi (?ds @ s) 0 = atoi s (of_nat (unat (ucast (ucast w :: u32) :: u64)))"
    by (simp add: atoi_digits)
  also have "\<dots> = atoi s (ucast w)" unfolding u by simp
  also have "\<dots> = (ucast w, s)" using s by (cases s) (simp_all add: cur_def)
  finally show "atoi (?ds @ s) 0 = (ucast w, s)" .
qed

section \<open>Witnesses\<close>


theorem print_then_atoi_witness:
  "\<exists>ds. vsnprintf out_char (-1) [0x25, 0x75] [Int_Arg 1234] [] = Inr (int (length ds), ds) \<and> atoi ds 0 = (1234, [])"
proof -
  obtain ds where ds: "vsnprintf out_char (-1) [0x25, 0x75] [Int_Arg 1234] [] = Inr (int (length ds), ds)"
    "\<forall>s. \<not> is_digit (cur s) \<longrightarrow> atoi (ds @ s) 0 = (ucast (1234 :: u64), s)"
    using print_then_atoi [of 1234] by blast
  have "\<not> is_digit (cur [])" by (simp add: cur_def is_digit_def)
  with ds(2) have "atoi (ds @ []) 0 = (ucast (1234 :: u64), [])" by blast
  with ds(1) show ?thesis by auto
qed

end
