(* ===== verification/Pmm.thy ===== *)
theory Pmm
  imports Buddy_Exec
begin

text \<open>
  kernel/mm/pmm.c: addresses for the pages of the buddy allocator. \<open>pmm_start\<close>, which the code
  keeps in a variable, is the end of the kernel image; a theorem about addresses takes it as a
  parameter \<open>base\<close>. The second part states what every client of \<open>kalloc\<close> relies on as a locale of
  the interface of a page allocator; the last part follows the calls of the whole kernel.
\<close>

section \<open>kalloc and kfree\<close>

definition PGADDR :: "u64 \<Rightarrow> nat \<Rightarrow> u64" where
  "PGADDR pmm_start i = pmm_start + of_nat i * of_nat PGSIZE"

definition kalloc :: "u64 \<Rightarrow> u64 \<Rightarrow> buddy \<Rightarrow> (u64 \<times> buddy) result" where
  "kalloc pmm_start sz s =
    rbind (if sz \<ge> of_nat PGSIZE then buddy_allocate sz s else buddy_allocate (of_nat PGSIZE) s)
      (\<lambda>(p, s'). Inr (PGADDR pmm_start p, s'))"

definition kfree :: "nat \<Rightarrow> buddy \<Rightarrow> buddy result" where
  "kfree p s = buddy_free_page p s"

definition pmm_init :: "u64 \<Rightarrow> buddy \<Rightarrow> u64 \<times> u64 \<times> buddy" where
  "pmm_init kernel_end s = (kernel_end, kernel_end + of_nat mem_size, buddy_init s)"

section \<open>Bytes of a block\<close>

definition block_bytes :: "u64 \<Rightarrow> nat \<Rightarrow> nat \<Rightarrow> nat set" where
  "block_bytes pmm_start p k = {unat pmm_start + p * PGSIZE ..< unat pmm_start + (p + 2 ^ k) * PGSIZE}"

text \<open>The bytes of the blocks in use.\<close>

definition taken_bytes :: "u64 \<Rightarrow> buddy \<Rightarrow> nat set" where
  "taken_bytes pmm_start s = (\<Union>(p, k)\<in>{(p, k). used_block s p k}. block_bytes pmm_start p k)"

lemma mem_block_bytes:
  "x \<in> block_bytes base p k \<longleftrightarrow> unat base \<le> x \<and> (x - unat base) div PGSIZE \<in> extent p k"
proof (cases "unat base \<le> x")
  case True
  then obtain d where "x = unat base + d" using le_Suc_ex by blast
  then show ?thesis
    by (simp add: block_bytes_def PGSIZE_def less_eq_div_iff_mult_less_eq div_less_iff_less_mult mult.commute)
qed (simp add: block_bytes_def)

lemma block_bytes_disjoint:
  "extent p k \<inter> extent q l = {} \<Longrightarrow> block_bytes base p k \<inter> block_bytes base q l = {}"
  by (auto simp: mem_block_bytes simp del: mem_extent)

lemma unat_PGADDR:
  assumes "p < npage" and "unat base + mem_size \<le> 2 ^ 64"
  shows "unat (PGADDR base p) = unat base + p * PGSIZE"
proof -
  have "PGADDR base p = of_nat (unat base + p * PGSIZE)" by (simp add: PGADDR_def)
  moreover have "unat base + p * PGSIZE < 2 ^ 64"
    using assms by (simp add: npage_eq PGSIZE_def mem_size_def)
  ultimately show ?thesis by (simp only: unat_of_nat_u64)
qed

lemma used_bound: "\<lbrakk> buddy_inv s; used_block s p k \<rbrakk> \<Longrightarrow> k < BUDDY_MAX_ORDER \<and> p + 2 ^ k \<le> npage"
  using layout_bound [of s p k] by (simp add: used_block_def)

lemma used_less: "\<lbrakk> buddy_inv s; used_block s p k \<rbrakk> \<Longrightarrow> p < npage"
  using used_bound [of s p k] zero_less_power [of "2::nat" k] by linarith

lemma used_disjoint:
  assumes "buddy_inv s" "used_block s p k" "used_block s q l" "p \<noteq> q"
  shows "extent p k \<inter> extent q l = {}"
proof -
  from assms(1) obtain a where a: "buddy_rel s a" "spec_ok a" by (auto simp: buddy_inv_def)
  with assms(2-4) show ?thesis
    by (intro tiled_disjoint [OF spec_ok_tiled [OF a(2)]]) (simp_all add: used_block_def buddy_relD(2))
qed

lemma used_not_free:
  assumes "buddy_inv s" "used_block s p k" shows "extent p k \<inter> free_pages s = {}"
proof -
  from assms(1) obtain a where a: "buddy_rel s a" "spec_ok a" by (auto simp: buddy_inv_def)
  have "extent p k \<inter> extent q l = {}" if "free_block s q l" for q l
    using that assms(2) tiled_disjoint [OF spec_ok_tiled [OF a(2)], of p k q l]
    by (cases "p = q") (auto simp: used_block_def free_block_def buddy_relD(2) [OF a(1)] simp del: mem_extent)
  then show ?thesis by (auto simp: free_pages_def simp del: mem_extent)
qed

section \<open>What kalloc gives\<close>

lemma kalloc_cases:
  assumes "buddy_inv s" and "kalloc base sz s = Inr (a, s')"
  obtains p k where "a = PGADDR base p" "buddy_inv s'" "used_block s' p k"
    "extent p k \<subseteq> free_pages s" "free_pages s' = free_pages s - extent p k"
    "\<forall>q l. used_block s' q l \<longleftrightarrow> used_block s q l \<or> q = p \<and> l = k"
    "k = unat (size2order (max sz (of_nat PGSIZE)))"
proof -
  let ?sz = "max sz (of_nat PGSIZE)"
  have "(if sz \<ge> of_nat PGSIZE then buddy_allocate sz s else buddy_allocate (of_nat PGSIZE) s) =
      buddy_allocate ?sz s" by (auto simp: max_def)
  with assms(2) obtain p where p: "buddy_allocate ?sz s = Inr (p, s')" "a = PGADDR base p"
    by (auto simp: kalloc_def rbind_Inr_iff)
  have k: "unat (size2order ?sz) < BUDDY_MAX_ORDER"
    by (rule ccontr) (use p(1) in \<open>simp add: buddy_allocate_def\<close>)
  show ?thesis
    using assms(1) k
  proof (cases rule: allocate_cases)
    case (ok q t)
    with p show ?thesis by (intro that [of p "unat (size2order ?sz)"]) auto
  qed (use p in simp)
qed


section \<open>The interface of a page allocator\<close>

text \<open>
  What a client of \<open>kalloc(PGSIZE)\<close> may rely on: there is a pool of pages, aligned and at addresses
  a page table entry can hold, and a call that returns takes its page out of the pool.
\<close>

definition page_aligned :: "u64 \<Rightarrow> bool" where
  "page_aligned a \<longleftrightarrow> unat a mod PGSIZE = 0 \<and> unat a < 2 ^ 50"

locale page_allocator =
  fixes alloc :: "'s \<Rightarrow> (u64 \<times> 's) result"
    and inv :: "'s \<Rightarrow> bool"
    and pool :: "'s \<Rightarrow> u64 set"
  assumes alloc_inv: "\<lbrakk> inv s; alloc s = Inr (a, s') \<rbrakk> \<Longrightarrow> inv s'"
    and alloc_from_pool: "\<lbrakk> inv s; alloc s = Inr (a, s') \<rbrakk> \<Longrightarrow> a \<in> pool s"
    and alloc_takes: "\<lbrakk> inv s; alloc s = Inr (a, s') \<rbrakk> \<Longrightarrow> pool s' \<subseteq> pool s - {a}"
    and pool_aligned: "\<lbrakk> inv s; a \<in> pool s \<rbrakk> \<Longrightarrow> page_aligned a"
begin

lemma alloc_fresh_pair:
  "\<lbrakk> inv s; alloc s = Inr (a, s'); alloc s' = Inr (b, t) \<rbrakk> \<Longrightarrow> a \<noteq> b"
  using alloc_from_pool [OF alloc_inv, of s a s' b t] alloc_takes [of s a s'] by blast

end

text \<open>The free pages, by address; \<open>base\<close> is page aligned and low enough for a physical address.\<close>

definition page_pool :: "u64 \<Rightarrow> buddy \<Rightarrow> u64 set" where
  "page_pool base s = PGADDR base ` free_pages s"

definition page_state :: "u64 \<Rightarrow> buddy \<Rightarrow> bool" where
  "page_state base s \<longleftrightarrow> buddy_inv s \<and> unat base mod PGSIZE = 0 \<and> unat base + mem_size \<le> 2 ^ 50"

lemma PGADDR_inj:
  assumes "PGADDR base p = PGADDR base q" "p < npage" "q < npage" "unat base + mem_size \<le> 2 ^ 64"
  shows "p = q"
proof -
  from assms have "unat base + p * PGSIZE = unat base + q * PGSIZE"
    by (metis unat_PGADDR)
  then show ?thesis unfolding PGSIZE_def by simp
qed

lemma free_pages_less: "\<lbrakk> buddy_inv s; p \<in> free_pages s \<rbrakk> \<Longrightarrow> p < npage"
  using layout_bound by (fastforce simp: free_pages_def free_block_def)

lemma page_pool_aligned:
  assumes "page_state base s" "a \<in> page_pool base s" shows "page_aligned a"
proof -
  from assms obtain p where p: "p < npage" "a = PGADDR base p" and base: "unat base + mem_size \<le> 2 ^ 50"
    by (auto simp: page_state_def page_pool_def intro: free_pages_less)
  then have "unat a = unat base + p * PGSIZE" using unat_PGADDR [of p base] by simp
  moreover have "p * PGSIZE < mem_size" using p(1) by (simp add: npage_eq PGSIZE_def mem_size_def)
  ultimately show ?thesis
    using assms(1) by (simp add: page_aligned_def page_state_def mod_add_left_eq [symmetric])
qed

lemma kalloc_page:
  assumes s: "page_state base s" and r: "kalloc base (of_nat PGSIZE) s = Inr (a, s')"
  shows "page_state base s' \<and> a \<in> page_pool base s \<and> page_pool base s' \<subseteq> page_pool base s - {a}"
proof -
  have inv: "buddy_inv s" and b64: "unat base + mem_size \<le> 2 ^ 64"
    using s by (simp_all add: page_state_def)
  from inv r show ?thesis
  proof (cases rule: kalloc_cases)
    case (1 p k)
    have p: "p \<in> extent p k" "p < npage" using used_less [OF 1(2,3)] by simp_all
    have "PGADDR base q \<noteq> a" if "q \<in> free_pages s'" for q
    proof
      assume "PGADDR base q = a"
      then have "q = p" using PGADDR_inj [OF _ free_pages_less [OF 1(2) that] p(2) b64] 1(1) by simp
      with that p(1) 1(5) show False by blast
    qed
    moreover have "p \<in> free_pages s" using p(1) 1(4) by blast
    ultimately show ?thesis
      using s 1(1,2,5) by (auto simp: page_state_def page_pool_def)
  qed
qed

interpretation pmm: page_allocator "kalloc base (of_nat PGSIZE)" "page_state base" "page_pool base"
  for base
  by unfold_locales (use kalloc_page page_pool_aligned in blast)+

section \<open>Runs of the memory manager\<close>

text \<open>
  The calls of the kernel on its memory manager that return: an allocation of any size, and the
  release of a block in use.
\<close>

inductive mm_step :: "buddy \<Rightarrow> buddy \<Rightarrow> bool" where
  alloc: "kalloc base sz s = Inr (a, s') \<Longrightarrow> mm_step s s'"
| free: "\<lbrakk> used_block s p k; kfree p s = Inr s' \<rbrakk> \<Longrightarrow> mm_step s s'"

inductive mm_reachable :: "buddy \<Rightarrow> bool" where
  init: "\<forall>i<npage. npage div sizeof_page \<le> i \<longrightarrow> pg_flag (pages s i) \<noteq> PG_HEAD \<Longrightarrow>
    mm_reachable (snd (snd (pmm_init kernel_end s)))"
| step: "\<lbrakk> mm_reachable s; mm_step s s' \<rbrakk> \<Longrightarrow> mm_reachable s'"

inductive_cases mm_stepE: "mm_step s s'"

lemma free_inv: "\<lbrakk> buddy_inv s; used_block s p k; buddy_free_page p s = Inr s' \<rbrakk> \<Longrightarrow> buddy_inv s'"
proof -
  assume i: "buddy_inv s" and used: "used_block s p k" and fr: "buddy_free_page p s = Inr s'"
  from i obtain a where a: "buddy_rel s a" "spec_ok a" by (auto simp: buddy_inv_def)
  have u: "in_use a p k" using used by (simp add: rel_used [OF a])
  from free_refines [OF a u] fr obtain a' where
    a': "spec_free p k a = Some a'" "buddy_rel s' a'" by (auto split: option.splits)
  from spec_free_ok [OF a(2) u a'(1)] a'(2) show "buddy_inv s'" by (auto simp: buddy_inv_def)
qed

lemma init_inv:
  "\<forall>i<npage. npage div sizeof_page \<le> i \<longrightarrow> pg_flag (pages s i) \<noteq> PG_HEAD \<Longrightarrow> buddy_inv (buddy_init s)"
  using init_rel spec_ok_init by (auto simp: buddy_inv_def)

lemma mm_step_inv: "\<lbrakk> mm_step s s'; buddy_inv s \<rbrakk> \<Longrightarrow> buddy_inv s'"
  by (erule mm_stepE) (auto simp: kfree_def intro: free_inv elim: kalloc_cases)

lemma mm_reachable_inv: "mm_reachable s \<Longrightarrow> buddy_inv s"
  by (induction rule: mm_reachable.induct) (auto simp: pmm_init_def init_inv intro: mm_step_inv)

lemma pages_partition:
  assumes "buddy_inv s"
  shows "free_pages s \<union> (\<Union>(p, k)\<in>{(p, k). used_block s p k}. extent p k) = {..<npage}"
proof -
  from assms obtain a where a: "buddy_rel s a" "spec_ok a" by (auto simp: buddy_inv_def)
  note m = spec_ok_tiled [OF a(2)]
  have "x \<in> free_pages s \<union> (\<Union>(p, k)\<in>{(p, k). used_block s p k}. extent p k)" if x: "x < npage" for x
  proof -
    from tiled_cover [OF m x] obtain i k where "layout a i = Some k" "x \<in> extent i k" by auto
    then show ?thesis
      by (cases "pg_free (pages s i) = 1")
        (auto simp: free_pages_def used_block_def free_block_def buddy_relD(2) [OF a(1)] simp del: mem_extent)
  qed
  moreover have "x < npage" if "layout_of s p = Some k" "x \<in> extent p k" for x p k
    using layout_bound [OF assms that(1)] that(2) by simp
  ultimately show ?thesis
    by (fastforce simp: free_pages_def free_block_def used_block_def simp del: mem_extent)
qed

text \<open>
  C17: in every state the memory manager reaches from \<open>pmm_init\<close>, by any sequence of allocations
  and of releases of blocks in use, the blocks in use do not overlap, and every page of the
  memory is either in one of them or free.
\<close>

theorem mm_reachable_blocks:
  assumes "mm_reachable s"
  shows "(\<forall>p k q l. used_block s p k \<and> used_block s q l \<and> p \<noteq> q \<longrightarrow> extent p k \<inter> extent q l = {}) \<and>
    (\<forall>p k. used_block s p k \<longrightarrow> extent p k \<inter> free_pages s = {}) \<and>
    free_pages s \<union> (\<Union>(p, k)\<in>{(p, k). used_block s p k}. extent p k) = {..<npage}"
proof (intro conjI allI impI)
  note inv = mm_reachable_inv [OF assms]
  show "extent p k \<inter> extent q l = {}" if "used_block s p k \<and> used_block s q l \<and> p \<noteq> q" for p k q l
    using used_disjoint [OF inv] that by blast
  show "extent p k \<inter> free_pages s = {}" if "used_block s p k" for p k
    by (rule used_not_free [OF inv that])
  show "free_pages s \<union> (\<Union>(p, k)\<in>{(p, k). used_block s p k}. extent p k) = {..<npage}"
    by (rule pages_partition [OF inv])
qed

section \<open>Witnesses\<close>

lemma zero_reachable: "mm_reachable (buddy_init zero_buddy)"
  using mm_reachable.init [OF zero_flags] by (simp add: pmm_init_def)


theorem mm_reachable_blocks_witness:
  "\<exists>s. buddy_allocate 0x1000 (buddy_init zero_buddy) = Inr (0, s) \<and> extent 0 0 \<inter> free_pages s = {}"
proof -
  obtain s1 s2 where r: "buddy_allocate 0x1000 (buddy_init zero_buddy) = Inr (0, s1)" "buddy_inv s1"
    "used_block s1 0 0" by (rule one_page)
  have "kalloc 0x80300000 0x1000 (buddy_init zero_buddy) = Inr (PGADDR 0x80300000 0, s1)"
    using r by (simp add: kalloc_def PGSIZE_def)
  from mm_reachable.step [OF zero_reachable mm_step.alloc [OF this]] have "mm_reachable s1" .
  with mm_reachable_blocks [OF this] have "extent 0 0 \<inter> free_pages s1 = {}" using r(3) by simp
  with r(1) show ?thesis by blast
qed

end
