(* ===== verification/Le_Access.thy ===== *)
theory Le_Access
  imports Prelude
begin

text \<open>
  kernel/include/openfat/leaccess.h: little-endian access to unaligned fields. The accessors are
  for any byte-addressed store \<open>'a \<Rightarrow> u8\<close>: a sector buffer indexed by offsets (\<open>nat\<close>), or the memory
  indexed by 64-bit addresses. The 64-bit access is the load and store of the machine, which is
  little-endian, used for page table entries.
\<close>

definition get_le16 :: "('a::semiring_1 \<Rightarrow> u8) \<Rightarrow> 'a \<Rightarrow> u16" where
  "get_le16 m p = ucast (m p) + push_bit 8 (ucast (m (p + 1)))"

definition put_le16 :: "'a::semiring_1 \<Rightarrow> u16 \<Rightarrow> ('a \<Rightarrow> u8) \<Rightarrow> 'a \<Rightarrow> u8" where
  "put_le16 p v m = m(p := ucast (v AND 0xff), p + 1 := ucast (drop_bit 8 v))"

definition get_le32 :: "('a::semiring_1 \<Rightarrow> u8) \<Rightarrow> 'a \<Rightarrow> u32" where
  "get_le32 m p = ucast (get_le16 m p) + push_bit 16 (ucast (get_le16 m (p + 2)))"

definition put_le32 :: "'a::semiring_1 \<Rightarrow> u32 \<Rightarrow> ('a \<Rightarrow> u8) \<Rightarrow> 'a \<Rightarrow> u8" where
  "put_le32 p v m = put_le16 (p + 2) (ucast (drop_bit 16 v)) (put_le16 p (ucast (v AND 0xffff)) m)"

definition load64 :: "('a::semiring_1 \<Rightarrow> u8) \<Rightarrow> 'a \<Rightarrow> u64" where
  "load64 m p = ucast (get_le32 m p) + push_bit 32 (ucast (get_le32 m (p + 4)))"

definition store64 :: "'a::semiring_1 \<Rightarrow> u64 \<Rightarrow> ('a \<Rightarrow> u8) \<Rightarrow> 'a \<Rightarrow> u8" where
  "store64 p v m = put_le32 (p + 4) (ucast (drop_bit 32 v)) (put_le32 p (ucast (v AND 0xffffffff)) m)"

section \<open>Splitting and joining words\<close>

lemma join16: "ucast (ucast (v AND 0xff) :: u8) + push_bit 8 (ucast (ucast (drop_bit 8 v) :: u8)) = (v :: u16)"
proof -
  have m: "(0xff :: u16) = mask 8" by (simp add: mask_eq_exp_minus_1)
  have "ucast (ucast (v AND 0xff) :: u8) + push_bit 8 (ucast (ucast (drop_bit 8 v) :: u8)) =
      (ucast (ucast (v AND 0xff) :: u8) OR push_bit 8 (ucast (ucast (drop_bit 8 v) :: u8)) :: u16)"
    by (rule disjunctive_add) (auto simp: bit_simps)
  also have "\<dots> = v"
    by (rule bit_word_eqI) (auto simp: m bit_simps)
  finally show ?thesis .
qed

lemma join32: "ucast (ucast (v AND 0xffff) :: u16) + push_bit 16 (ucast (ucast (drop_bit 16 v) :: u16)) = (v :: u32)"
proof -
  have m: "(0xffff :: u32) = mask 16" by (simp add: mask_eq_exp_minus_1)
  have "ucast (ucast (v AND 0xffff) :: u16) + push_bit 16 (ucast (ucast (drop_bit 16 v) :: u16)) =
      (ucast (ucast (v AND 0xffff) :: u16) OR push_bit 16 (ucast (ucast (drop_bit 16 v) :: u16)) :: u32)"
    by (rule disjunctive_add) (auto simp: bit_simps)
  also have "\<dots> = v"
    by (rule bit_word_eqI) (auto simp: m bit_simps)
  finally show ?thesis .
qed

lemma join64: "ucast (ucast (v AND 0xffffffff) :: u32) + push_bit 32 (ucast (ucast (drop_bit 32 v) :: u32)) = (v :: u64)"
proof -
  have m: "(0xffffffff :: u64) = mask 32" by (simp add: mask_eq_exp_minus_1)
  have "ucast (ucast (v AND 0xffffffff) :: u32) + push_bit 32 (ucast (ucast (drop_bit 32 v) :: u32)) =
      (ucast (ucast (v AND 0xffffffff) :: u32) OR push_bit 32 (ucast (ucast (drop_bit 32 v) :: u32)) :: u64)"
    by (rule disjunctive_add) (auto simp: bit_simps)
  also have "\<dots> = v"
    by (rule bit_word_eqI) (auto simp: m bit_simps)
  finally show ?thesis .
qed

section \<open>Reading back what was written\<close>

lemma get_put_le16: "(1 :: 'a :: semiring_1) \<noteq> 0 \<Longrightarrow> p + 1 \<noteq> p \<Longrightarrow> get_le16 (put_le16 (p :: 'a) v m) p = v"
  by (simp add: get_le16_def put_le16_def join16)

lemma get_le16_cong: "\<lbrakk> m p = m' p; m (p + 1) = m' (p + 1) \<rbrakk> \<Longrightarrow> get_le16 m p = get_le16 m' p"
  by (simp add: get_le16_def)

lemma get_le32_cong: "\<lbrakk> \<And>i. i < 4 \<Longrightarrow> m (p + of_nat i) = m' (p + of_nat i) \<rbrakk> \<Longrightarrow> get_le32 m p = get_le32 m' p"
proof -
  assume h: "\<And>i. i < 4 \<Longrightarrow> m (p + of_nat i) = m' (p + of_nat i)"
  from h [of 0] h [of 1] h [of 2] h [of 3] show ?thesis
    by (simp add: get_le32_def get_le16_def add.assoc)
qed

lemma load64_cong: "\<lbrakk> \<And>i. i < 8 \<Longrightarrow> m (p + of_nat i) = m' (p + of_nat i) \<rbrakk> \<Longrightarrow> load64 m p = load64 m' p"
proof -
  assume h: "\<And>i. i < 8 \<Longrightarrow> m (p + of_nat i) = m' (p + of_nat i)"
  have "get_le32 m (p + 4) = get_le32 m' (p + 4)"
  proof (rule get_le32_cong)
    fix i :: nat assume "i < 4"
    then show "m (p + 4 + of_nat i) = m' (p + 4 + of_nat i)" using h [of "4 + i"] by (simp add: add.assoc)
  qed
  moreover have "get_le32 m p = get_le32 m' p" by (rule get_le32_cong) (simp add: h)
  ultimately show ?thesis by (simp add: load64_def)
qed

lemma put_le16_outside: "\<lbrakk> x \<noteq> p; x \<noteq> p + 1 \<rbrakk> \<Longrightarrow> put_le16 p v m x = m x"
  by (simp add: put_le16_def)

lemma put_le32_outside: "\<lbrakk> \<And>i. i < 4 \<Longrightarrow> x \<noteq> p + of_nat i \<rbrakk> \<Longrightarrow> put_le32 p v m x = m x"
proof -
  assume h: "\<And>i. i < 4 \<Longrightarrow> x \<noteq> p + of_nat i"
  from h [of 0] h [of 1] h [of 2] h [of 3] show ?thesis
    by (simp add: put_le32_def put_le16_outside add.assoc)
qed

lemma store64_outside: "\<lbrakk> \<And>i. i < 8 \<Longrightarrow> x \<noteq> p + of_nat i \<rbrakk> \<Longrightarrow> store64 p v m x = m x"
proof -
  assume h: "\<And>i. i < 8 \<Longrightarrow> x \<noteq> p + of_nat i"
  have "x \<noteq> p + 4 + of_nat i" if "i < 4" for i using h [of "4 + i"] that by (simp add: add.assoc)
  moreover have "x \<noteq> p + of_nat i" if "i < 4" for i using h [of i] that by simp
  ultimately show ?thesis by (simp add: store64_def put_le32_outside)
qed

text \<open>Addresses whose eight (four, two) bytes are different places.\<close>

definition apart :: "nat \<Rightarrow> 'a::semiring_1 \<Rightarrow> bool" where
  "apart n p \<longleftrightarrow> inj_on (\<lambda>i. p + of_nat i) {..<n}"

lemma apartD: "\<lbrakk> apart n p; i < n; j < n; i \<noteq> j \<rbrakk> \<Longrightarrow> p + of_nat i \<noteq> p + of_nat j"
  by (auto simp: apart_def inj_on_def)

lemma apart_nat [simp]: "apart n (p :: nat)"
  by (simp add: apart_def inj_on_def)

lemma apart_word [simp]: "n \<le> 2 ^ 64 \<Longrightarrow> apart n (p :: u64)"
  unfolding apart_def inj_on_def
  by (auto dest!: arg_cong [where f = unat] simp: unat_of_nat_u64)

lemma get_put_le32: "apart 4 p \<Longrightarrow> get_le32 (put_le32 p v m) p = v"
proof -
  assume a: "apart 4 p"
  have ne: "p \<noteq> p + 1" "p \<noteq> p + 2" "p \<noteq> p + 3" "p + 1 \<noteq> p + 2" "p + 1 \<noteq> p + 3" "p + 2 \<noteq> p + 3"
    using apartD [OF a, of 0 1] apartD [OF a, of 0 2] apartD [OF a, of 0 3] apartD [OF a, of 1 2]
      apartD [OF a, of 1 3] apartD [OF a, of 2 3] by simp_all
  have "get_le16 (put_le32 p v m) p = ucast (v AND 0xffff)"
    using ne by (simp add: put_le32_def put_le16_def get_le16_def add.assoc join16)
  moreover have "get_le16 (put_le32 p v m) (p + 2) = ucast (drop_bit 16 v)"
    using ne by (simp add: put_le32_def put_le16_def get_le16_def add.assoc join16)
  ultimately show ?thesis by (simp add: get_le32_def join32)
qed

lemma load_store64: "apart 8 p \<Longrightarrow> load64 (store64 p v m) p = v"
proof -
  assume a: "apart 8 p"
  then have a4: "apart 4 p" "apart 4 (p + 4)"
    using apartD [OF a, of "4 + _" "4 + _"]
    by (auto simp: apart_def inj_on_def add.assoc)
  have "get_le32 (store64 p v m) p = get_le32 (put_le32 p (ucast (v AND 0xffffffff)) m) p"
  proof (rule get_le32_cong)
    fix i :: nat assume i: "i < 4"
    show "store64 p v m (p + of_nat i) = put_le32 p (ucast (v AND 0xffffffff)) m (p + of_nat i)"
      unfolding store64_def
    proof (rule put_le32_outside)
      fix j :: nat assume "j < 4"
      then show "p + of_nat i \<noteq> p + 4 + of_nat j"
        using apartD [OF a, of i "4 + j"] i by (simp add: add.assoc)
    qed
  qed
  then have "get_le32 (store64 p v m) p = ucast (v AND 0xffffffff)"
    by (simp add: get_put_le32 [OF a4(1)])
  moreover have "get_le32 (store64 p v m) (p + 4) = ucast (drop_bit 32 v)"
    by (simp add: store64_def get_put_le32 [OF a4(2)])
  ultimately show ?thesis by (simp add: load64_def join64)
qed

end
