(* ===== verification/Vms.thy ===== *)
theory Vms
  imports Pmm C_Strings Le_Access
begin

text \<open>
  kernel/mm/vms.c and vms.h: Sv39 page tables in the byte-addressed memory. \<open>map\<close> is the code's
  \<open>map\<close>; pages for tables come from the allocator \<open>alloc\<close>, which in the kernel is
  \<open>kalloc(PGSIZE)\<close>. The second part says what a tree of tables means (\<open>lookup\<close>) and proves that
  \<open>map\<close> adds one mapping and keeps all others, for every allocator that satisfies the interface
  \<open>page_allocator\<close> and gives zeroed pages; the code itself does not clear them.
\<close>

section \<open>Page table entries\<close>

definition valid :: "u64 \<Rightarrow> bool" where "valid e \<longleftrightarrow> e AND 1 \<noteq> 0"
definition readable :: "u64 \<Rightarrow> bool" where "readable e \<longleftrightarrow> e AND 2 \<noteq> 0"
definition writable :: "u64 \<Rightarrow> bool" where "writable e \<longleftrightarrow> e AND 4 \<noteq> 0"

definition PTE_V :: u64 where "PTE_V = 1"
definition PTE_R :: u64 where "PTE_R = 2"
definition PTE_W :: u64 where "PTE_W = 4"
definition PTE_X :: u64 where "PTE_X = 8"
definition PTE_U :: u32 where "PTE_U = 16"

definition pte2ppn :: "u64 \<Rightarrow> u64" where
  "pte2ppn e = drop_bit 10 e AND 0xffffffffff"

definition PX :: "nat \<Rightarrow> u64 \<Rightarrow> u64" where
  "PX level va = drop_bit (12 + 9 * level) va AND 0x1ff"

definition OFFSET :: "u64 \<Rightarrow> u64" where
  "OFFSET addr = addr AND 0xfff"

definition align :: "u64 \<Rightarrow> bool" where
  "align a \<longleftrightarrow> a AND 0xfff = 0"

text \<open>The entries that \<open>map\<close> writes: one that points to a table, and a leaf.\<close>

definition table_pte :: "u64 \<Rightarrow> u32 \<Rightarrow> u64" where
  "table_pte a perm = push_bit 10 (drop_bit 12 a) OR (PTE_V OR ucast perm)"

definition leaf_pte :: "u64 \<Rightarrow> u32 \<Rightarrow> u64" where
  "leaf_pte pa perm = push_bit 10 (drop_bit 12 pa) OR (PTE_X OR PTE_W OR PTE_R OR PTE_V OR ucast perm)"

section \<open>map and trans\<close>

text \<open>One round of the inner loop above level 0: the next table, found or allocated.\<close>

definition map_step ::
  "('s \<Rightarrow> (u64 \<times> 's) result) \<Rightarrow> u32 \<Rightarrow> u64 \<Rightarrow> bytes \<Rightarrow> 's \<Rightarrow> (u64 \<times> bytes \<times> 's) result" where
  "map_step alloc perm p m s =
    (if valid (load64 m p) then Inr (push_bit 12 (pte2ppn (load64 m p)), m, s)
     else rbind (alloc s) (\<lambda>(a, s'). Inr (a, store64 p (table_pte a perm) m, s')))"

fun map_walk ::
  "('s \<Rightarrow> (u64 \<times> 's) result) \<Rightarrow> u64 \<Rightarrow> u64 \<Rightarrow> u32 \<Rightarrow> nat \<Rightarrow> u64 \<Rightarrow> bytes \<Rightarrow> 's \<Rightarrow> (bytes \<times> 's) result" where
  "map_walk alloc va0 pa0 perm 0 a m s =
    (let p = a + 8 * PX 0 va0 in
     if valid (load64 m p) then Inl (Panic ''double map'')
     else Inr (store64 p (leaf_pte pa0 perm) m, s))"
| "map_walk alloc va0 pa0 perm (Suc l) a m s =
    (let p = a + 8 * PX (Suc l) va0 in
     rbind (map_step alloc perm p m s) (\<lambda>(a', m', s'). map_walk alloc va0 pa0 perm l a' m' s'))"

text \<open>
  The outer loop compares addresses that may wrap around, so that nothing bounds it but its
  condition: \<open>None\<close> is a run that never ends.
\<close>

partial_function (option) map_loop ::
  "('s \<Rightarrow> (u64 \<times> 's) result) \<Rightarrow> u64 \<Rightarrow> u64 \<Rightarrow> u32 \<Rightarrow> u64 \<Rightarrow> u64 \<Rightarrow> bytes \<Rightarrow> 's \<Rightarrow> (bytes \<times> 's) result option" where
  "map_loop alloc pg end_va perm va0 pa0 m s =
    (if va0 < end_va then
       (case map_walk alloc va0 pa0 perm 2 pg m s of
          Inl f \<Rightarrow> Some (Inl f)
        | Inr (m', s') \<Rightarrow> map_loop alloc pg end_va perm (va0 + of_nat PGSIZE) (pa0 + of_nat PGSIZE) m' s')
     else Some (Inr (m, s)))"

definition map_range ::
  "('s \<Rightarrow> (u64 \<times> 's) result) \<Rightarrow> u64 \<Rightarrow> u64 \<Rightarrow> u64 \<Rightarrow> u64 \<Rightarrow> u32 \<Rightarrow> bytes \<Rightarrow> 's \<Rightarrow> (bytes \<times> 's) result option" where
  "map_range alloc pg va pa sz perm m s = map_loop alloc pg (va + sz) perm va pa m s"

fun trans_loop :: "nat \<Rightarrow> u64 \<Rightarrow> u64 \<Rightarrow> bytes \<Rightarrow> u64 result" where
  "trans_loop level a va m =
    (let p = a + 8 * PX level va; e = load64 m p in
     if \<not> valid e \<or> \<not> readable e \<and> writable e then Inl (Panic ''access fault'')
     else case level of 0 \<Rightarrow> Inr p | Suc l \<Rightarrow> trans_loop l (push_bit 12 (pte2ppn e)) va m)"

declare trans_loop.simps [simp del]

text \<open>\<open>trans\<close> computes the physical address only to log it: it returns the address of the entry.\<close>

definition trans :: "u64 \<Rightarrow> u64 \<Rightarrow> bytes \<Rightarrow> u64 result" where
  "trans pg va m = trans_loop 2 pg va m"

definition kmap ::
  "('s \<Rightarrow> (u64 \<times> 's) result) \<Rightarrow> u64 \<Rightarrow> u64 \<Rightarrow> u64 \<Rightarrow> u64 \<Rightarrow> bytes \<Rightarrow> 's \<Rightarrow> (bytes \<times> 's) result option" where
  "kmap alloc pg va pa sz m s = map_range alloc pg va pa sz 0 m s"

definition SV39_ADDRESSING_MODE :: u64 where "SV39_ADDRESSING_MODE = 8"

text \<open>The root table of the kernel and the value for \<open>satp\<close>.\<close>

definition k_pgtable_init ::
  "('s \<Rightarrow> (u64 \<times> 's) result) \<Rightarrow> u64 \<Rightarrow> u64 \<Rightarrow> bytes \<Rightarrow> 's \<Rightarrow> (u64 \<times> u64 \<times> bytes \<times> 's) result option" where
  "k_pgtable_init alloc kernel_start kernel_end m s =
    (case alloc s of
       Inl f \<Rightarrow> Some (Inl f)
     | Inr (k, s') \<Rightarrow>
         if \<not> align k then Some (Inl (Panic ''allocate a unaligned page table''))
         else (case kmap alloc k kernel_start kernel_start (kernel_end + of_nat mem_size - kernel_start) m s' of
                 None \<Rightarrow> None
               | Some (Inl f) \<Rightarrow> Some (Inl f)
               | Some (Inr (m', s'')) \<Rightarrow> Some (Inr (k, drop_bit 12 k, m', s''))))"

definition activate_sv39 :: "u64 \<Rightarrow> u64" where
  "activate_sv39 ppn = push_bit 60 SV39_ADDRESSING_MODE + ppn"

section \<open>The meaning of a tree of tables\<close>

definition entry :: "bytes \<Rightarrow> u64 \<Rightarrow> nat \<Rightarrow> u64" where
  "entry m a i = load64 m (a + of_nat (8 * i))"

definition next_table :: "u64 \<Rightarrow> u64" where
  "next_table e = push_bit 12 (pte2ppn e)"

fun tab :: "bytes \<Rightarrow> u64 \<Rightarrow> nat list \<Rightarrow> u64 option" where
  "tab m a [] = Some a"
| "tab m a (i # is) = (if valid (entry m a i) then tab m (next_table (entry m a i)) is else None)"

definition px :: "nat \<Rightarrow> u64 \<Rightarrow> nat" where
  "px level va = unat (PX level va)"

definition lookup :: "bytes \<Rightarrow> u64 \<Rightarrow> u64 \<Rightarrow> u64 option" where
  "lookup m root va =
    (case tab m root [px 2 va, px 1 va] of
       None \<Rightarrow> None
     | Some a \<Rightarrow> if valid (entry m a (px 0 va)) then Some (entry m a (px 0 va)) else None)"

definition page_bytes :: "u64 \<Rightarrow> u64 set" where
  "page_bytes a = zone a PGSIZE"

text \<open>
  The tables of a tree: aligned pages, each reached by one path only, none of them in the pool.
\<close>

definition paths :: "nat list set" where
  "paths = {is. length is \<le> 2 \<and> (\<forall>i\<in>set is. i < 512)}"

definition tables_ok :: "u64 set \<Rightarrow> bytes \<Rightarrow> u64 \<Rightarrow> bool" where
  "tables_ok pool m root \<longleftrightarrow>
    (\<forall>is\<in>paths. \<forall>a. tab m root is = Some a \<longrightarrow> page_aligned a \<and> a \<notin> pool) \<and>
    (\<forall>is\<in>paths. \<forall>js\<in>paths. \<forall>a. tab m root is = Some a \<longrightarrow> tab m root js = Some a \<longrightarrow> is = js)"

definition zeroed :: "u64 set \<Rightarrow> bytes \<Rightarrow> bool" where
  "zeroed pool m \<longleftrightarrow> (\<forall>a\<in>pool. \<forall>x\<in>page_bytes a. m x = 0)"

section \<open>Bytes of entries\<close>

lemma entry_addr:
  assumes "page_aligned a" "i < 512" "k < 8"
  shows "unat (a + of_nat (8 * i) + of_nat k) = unat a + (8 * i + k)"
proof -
  have "a + of_nat (8 * i) + of_nat k = of_nat (unat a + (8 * i + k))" by simp
  moreover have "unat a + (8 * i + k) < 2 ^ 64" using assms by (simp add: page_aligned_def)
  ultimately show ?thesis by (simp only: unat_of_nat_u64)
qed

lemma page_offset_unique:
  assumes "page_aligned a" "page_aligned b" "x < 4096" "y < 4096" "unat a + x = unat b + y"
  shows "a = b \<and> x = y"
proof -
  obtain A B where AB: "unat a = 4096 * A" "unat b = 4096 * B"
    using assms(1,2) by (auto simp: page_aligned_def PGSIZE_def elim!: dvdE)
  then have e: "x + 4096 * A = y + 4096 * B" using assms(5) by simp
  have "A = B" using arg_cong [OF e, of "\<lambda>z. z div 4096"] assms(3,4) by simp
  with AB assms(5) show ?thesis by (simp add: word_unat_eq_iff)
qed

lemma entry_addr_unique:
  assumes "page_aligned a" "page_aligned b" "i < 512" "j < 512" "k < 8" "l < 8"
    and "a + of_nat (8 * i) + of_nat k = b + of_nat (8 * j) + of_nat l"
  shows "a = b \<and> i = j \<and> k = l"
proof -
  have "unat a + (8 * i + k) = unat b + (8 * j + l)"
    using assms(7) entry_addr [OF assms(1,3,5)] entry_addr [OF assms(2,4,6)] by metis
  from page_offset_unique [OF assms(1,2) _ _ this] assms(3-6) have "a = b" "8 * i + k = 8 * j + l" by simp_all
  then show ?thesis using assms(5,6) by presburger
qed

lemma entry_store:
  assumes "page_aligned a" "page_aligned b" "i < 512" "j < 512"
  shows "entry (store64 (a + of_nat (8 * i)) v m) b j = (if b = a \<and> j = i then v else entry m b j)"
proof (cases "b = a \<and> j = i")
  case True
  have "load64 (store64 (a + of_nat (8 * i)) v m) (a + of_nat (8 * i)) = v"
    by (rule load_store64) (rule apart_word, simp)
  with True show ?thesis by (simp add: entry_def)
next
  case False
  have "store64 (a + of_nat (8 * i)) v m (b + of_nat (8 * j) + of_nat l) = m (b + of_nat (8 * j) + of_nat l)"
    if l: "l < 8" for l
  proof (rule store64_outside)
    fix k :: nat assume k: "k < 8"
    show "b + of_nat (8 * j) + of_nat l \<noteq> a + of_nat (8 * i) + of_nat k"
    proof
      assume "b + of_nat (8 * j) + of_nat l = a + of_nat (8 * i) + of_nat k"
      from entry_addr_unique [OF assms(2,1,4,3) l k this] False show False by blast
    qed
  qed
  then have "load64 (store64 (a + of_nat (8 * i)) v m) (b + of_nat (8 * j)) = load64 m (b + of_nat (8 * j))"
    by (rule load64_cong)
  then show ?thesis by (simp only: entry_def False if_False)
qed

lemma entry_in_page: "\<lbrakk> i < 512; k < 8 \<rbrakk> \<Longrightarrow> a + of_nat (8 * i) + of_nat k \<in> page_bytes a"
  by (auto simp: page_bytes_def zone_def PGSIZE_def intro!: image_eqI [of _ _ "8 * i + k"])

lemma entry_store_outside:
  "\<lbrakk> i < 512; x \<notin> page_bytes a \<rbrakk> \<Longrightarrow> store64 (a + of_nat (8 * i)) v m x = m x"
  using entry_in_page by (intro store64_outside) blast

lemma pages_disjoint:
  assumes "page_aligned a" "page_aligned b" "a \<noteq> b" shows "page_bytes a \<inter> page_bytes b = {}"
proof (rule ccontr)
  assume "page_bytes a \<inter> page_bytes b \<noteq> {}"
  then obtain x y where xy: "x < 4096" "y < 4096" "a + of_nat x = b + of_nat y"
    by (auto simp: page_bytes_def zone_def PGSIZE_def)
  have "unat (c + of_nat z) = unat c + z" if "page_aligned c" "z < 4096" for c :: u64 and z
  proof -
    have "c + of_nat z = of_nat (unat c + z)" by simp
    moreover have "unat c + z < 2 ^ 64" using that by (simp add: page_aligned_def)
    ultimately show ?thesis by (simp only: unat_of_nat_u64)
  qed
  with xy assms(1,2) have "unat a + x = unat b + y" by metis
  from page_offset_unique [OF assms(1,2) xy(1,2) this] assms(3) show False by simp
qed

lemma entry_zero: "\<lbrakk> \<forall>x\<in>page_bytes a. m x = 0; j < 512 \<rbrakk> \<Longrightarrow> entry m a j = 0"
proof -
  assume z: "\<forall>x\<in>page_bytes a. m x = 0" and j: "j < 512"
  have "entry m a j = load64 (\<lambda>_. 0) (a + of_nat (8 * j))"
    unfolding entry_def by (rule load64_cong) (use z entry_in_page [OF j] in blast)
  then show ?thesis by (simp add: load64_def get_le32_def get_le16_def)
qed

section \<open>Writing one entry\<close>

lemma tab_snoc:
  "tab m a (is @ [i]) = (case tab m a is of None \<Rightarrow> None
     | Some b \<Rightarrow> if valid (entry m b i) then Some (next_table (entry m b i)) else None)"
  by (induction "is" arbitrary: a) auto

lemma paths_snoc: "is @ [i] \<in> paths \<longleftrightarrow> is \<in> paths \<and> length is < 2 \<and> i < 512"
  by (auto simp: paths_def)

text \<open>Only the paths through the entry change.\<close>

lemma tab_store_other:
  assumes ok: "tables_ok pool m root" and p: "is \<in> paths" "tab m root is = Some a" and i: "i < 512"
  shows "\<lbrakk> js \<in> paths; \<nexists>ks. js = (is @ [i]) @ ks \<rbrakk> \<Longrightarrow>
    tab (store64 (a + of_nat (8 * i)) v m) root js = tab m root js"
proof (induction js rule: rev_induct)
  case (snoc j js)
  then have js: "js \<in> paths" "j < 512" "\<nexists>ks. js = (is @ [i]) @ ks" by (auto simp: paths_snoc)
  have IH: "tab (store64 (a + of_nat (8 * i)) v m) root js = tab m root js"
    using snoc.IH [OF js(1,3)] .
  show ?case
  proof (cases "tab m root js")
    case (Some b)
    have al: "page_aligned a" "page_aligned b" using ok p js(1) Some by (auto simp: tables_ok_def)
    have "\<not> (b = a \<and> j = i)"
    proof
      assume "b = a \<and> j = i"
      moreover from this have "js = is" using ok p js(1) Some by (auto simp: tables_ok_def)
      ultimately show False using snoc.prems(2) by simp
    qed
    then have "entry (store64 (a + of_nat (8 * i)) v m) b j = entry m b j"
      by (simp only: entry_store [OF al i js(2)] if_False)
    with IH Some show ?thesis by (simp only: tab_snoc option.case)
  qed (simp only: IH tab_snoc option.case)
qed simp

section \<open>The entries that map writes\<close>

lemma bit_unat: "bit (unat (w :: 'a::len word)) n \<longleftrightarrow> bit w n"
  by (simp add: bit_unsigned_iff)

lemma bit_below: "\<lbrakk> unat (w :: 'a::len word) < 2 ^ k; bit w n \<rbrakk> \<Longrightarrow> n < k"
proof (rule ccontr)
  assume w: "unat w < 2 ^ k" "bit w n" and "\<not> n < k"
  then have "(2::nat) ^ k \<le> 2 ^ n" by (intro power_increasing) simp_all
  with w(1) have "unat w < 2 ^ n" by linarith
  moreover have "bit (unat w) n" using w(2) by (simp add: bit_unat)
  ultimately show False by (simp add: bit_iff_odd)
qed

lemma page_aligned_bit: "\<lbrakk> page_aligned a; bit a n \<rbrakk> \<Longrightarrow> 12 \<le> n \<and> n < 50"
proof (intro conjI leI notI)
  assume a: "page_aligned a" "bit a n"
  show False if "n < 12"
  proof -
    have "take_bit 12 (unat a) = 0" using a(1) by (simp add: page_aligned_def PGSIZE_def take_bit_eq_mod)
    moreover have "bit (take_bit 12 (unat a)) n" using a(2) that by (simp add: bit_take_bit_iff bit_unat)
    ultimately show False by simp
  qed
  show "n < 50" using a bit_below [of a 50 n] by (simp add: page_aligned_def)
qed

lemma perm_bit: "\<lbrakk> perm < 1024; bit (perm :: u32) n \<rbrakk> \<Longrightarrow> n < 10"
  using bit_below [of perm 10 n] by (simp add: word_less_nat_alt)

lemma valid_bit: "valid e \<longleftrightarrow> bit e 0"
  by (simp add: valid_def and_one_eq bit_0 odd_iff_mod_2_eq_one)

lemma invalid_0 [simp]: "\<not> valid 0"
  by (simp add: valid_def)

lemma valid_ptes: "valid (table_pte a perm)" "valid (leaf_pte pa perm)"
  by (simp_all add: valid_bit table_pte_def leaf_pte_def PTE_V_def bit_simps)

lemma ppn_mask: "pte2ppn e = take_bit 40 (drop_bit 10 e)"
proof -
  have "(0xffffffffff :: u64) = mask 40" by (simp add: mask_eq_exp_minus_1)
  then show ?thesis by (simp add: pte2ppn_def take_bit_eq_mask)
qed

lemma next_table_pte: "\<lbrakk> page_aligned a; perm < 1024 \<rbrakk> \<Longrightarrow> next_table (table_pte a perm) = a"
  by (rule bit_word_eqI)
    (auto simp: next_table_def ppn_mask table_pte_def PTE_V_def bit_simps dest: page_aligned_bit perm_bit)

lemma bit_ucast_perm: "\<lbrakk> perm < 1024; bit (ucast (perm :: u32) :: u64) n \<rbrakk> \<Longrightarrow> n < 10"
  by (auto simp: bit_simps dest: perm_bit)

lemma leaf_ppn:
  assumes pa: "unat pa < 2 ^ 50" and perm: "perm < 1024"
  shows "pte2ppn (leaf_pte pa perm) = drop_bit 12 pa"
proof (rule bit_word_eqI)
  fix n :: nat assume "n < LENGTH(64)"
  have p: "\<not> bit (ucast perm :: u64) (10 + n)" using bit_ucast_perm [OF perm] by fastforce
  have h: "bit pa (12 + n) \<Longrightarrow> n < 40" using bit_below [OF pa, of "12 + n"] by simp
  have small: "\<not> bit w (10 + n)" if "unat w < 2 ^ 10" for w :: u64
    using bit_below [OF that, of "10 + n"] by auto
  from p h small [of 8] small [of 4] small [of 2] small [of 1]
  show "bit (pte2ppn (leaf_pte pa perm)) n = bit (drop_bit 12 pa) n"
    by (auto simp: ppn_mask leaf_pte_def PTE_V_def PTE_R_def PTE_W_def PTE_X_def bit_simps)
qed

section \<open>One walk of map\<close>

text \<open>
  The memory after a change of tables: existing tables stay where they are, and only bytes of
  tables of the new tree are written.
\<close>

definition grows :: "u64 \<Rightarrow> bytes \<Rightarrow> bytes \<Rightarrow> bool" where
  "grows root m m' \<longleftrightarrow>
    (\<forall>qs\<in>paths. \<forall>b. tab m root qs = Some b \<longrightarrow> tab m' root qs = Some b) \<and>
    (\<forall>x. (\<forall>qs\<in>paths. \<forall>b. tab m' root qs = Some b \<longrightarrow> x \<notin> page_bytes b) \<longrightarrow> m' x = m x)"

lemma grows_refl [simp]: "grows root m m"
  by (simp add: grows_def)

lemma grows_trans: "\<lbrakk> grows root m m1; grows root m1 m2 \<rbrakk> \<Longrightarrow> grows root m m2"
  unfolding grows_def by metis

lemma px_less: "px level va < 512"
proof -
  have "PX level va \<le> 0x1ff" unfolding PX_def by (rule word_and_le1)
  then show ?thesis by (simp add: px_def word_le_nat_alt)
qed

lemma PX_offset: "8 * PX level va = of_nat (8 * px level va)"
  by (simp add: px_def)

lemma path2 [simp]: "[px 2 va, px 1 va] \<in> paths" "[px 2 va] \<in> paths" "[] \<in> paths"
  by (simp_all add: paths_def px_less)

context page_allocator
begin

text \<open>A tree with the state of the allocator.\<close>

definition tree :: "bytes \<Rightarrow> 's \<Rightarrow> u64 \<Rightarrow> bool" where
  "tree m s root \<longleftrightarrow> inv s \<and> tables_ok (pool s) m root \<and> zeroed (pool s) m"

text \<open>A new table is linked into the tree.\<close>

lemma tab_new:
  assumes t: "tree m s root" and p: "is \<in> paths" "length is < 2" "tab m root is = Some a" "i < 512"
    and inval: "\<not> valid (entry m a i)" and al: "alloc s = Inr (b, s')" and perm: "perm < 1024"
    and m': "m' = store64 (a + of_nat (8 * i)) (table_pte b perm) m"
  shows "qs \<in> paths \<Longrightarrow> tab m' root qs = (if qs = is @ [i] then Some b else tab m root qs)"
    and "j < 512 \<Longrightarrow> entry m' b j = 0"
    and "\<lbrakk> qs \<in> paths; tab m root qs = Some c; j < 512; c \<noteq> a \<or> j \<noteq> i \<rbrakk> \<Longrightarrow> entry m' c j = entry m c j"
proof -
  have ok: "tables_ok (pool s) m root" and inv: "inv s" and z: "zeroed (pool s) m"
    using t by (simp_all add: tree_def)
  have a: "page_aligned a" "a \<notin> pool s" using ok p by (auto simp: tables_ok_def)
  have b: "b \<in> pool s" "page_aligned b" using alloc_from_pool [OF inv al] pool_aligned [OF inv] by auto
  have entries: "entry m' c j = (if c = a \<and> j = i then table_pte b perm else entry m c j)"
    if "page_aligned c" "j < 512" for c j
    unfolding m' by (rule entry_store [OF a(1) that(1) p(4) that(2)])
  have zero: "entry m' b j = 0" if "j < 512" for j
  proof -
    have "entry m b j = 0" using z b(1) that by (intro entry_zero) (auto simp: zeroed_def)
    moreover have "b \<noteq> a" using a b by auto
    ultimately show ?thesis using entries [OF b(2) that] by simp
  qed
  then show "j < 512 \<Longrightarrow> entry m' b j = 0" .
  show "\<lbrakk> qs \<in> paths; tab m root qs = Some c; j < 512; c \<noteq> a \<or> j \<noteq> i \<rbrakk> \<Longrightarrow> entry m' c j = entry m c j"
    using ok entries [of c j] by (auto simp: tables_ok_def)
  have other: "tab m' root qs = tab m root qs" if "qs \<in> paths" "\<nexists>ks. qs = (is @ [i]) @ ks" for qs
    unfolding m' by (rule tab_store_other [OF ok p(1,3,4) that])
  have "is \<in> paths" "\<nexists>ks. is = (is @ [i]) @ ks" using p(1) by simp_all
  from other [OF this] have "tab m' root (is @ [i]) = Some b" and old: "tab m root (is @ [i]) = None"
    using entries [OF a(1) p(4)] p(3) inval valid_ptes(1) next_table_pte [OF b(2) perm]
    by (simp_all add: tab_snoc)
  moreover have "tab m' root ((is @ [i]) @ k # ks) = None \<and> tab m root ((is @ [i]) @ k # ks) = None"
    if "(is @ [i]) @ k # ks \<in> paths" for k ks
  proof -
    have "tab n r (xs @ k # ks) = (case tab n r xs of None \<Rightarrow> None | Some c \<Rightarrow> tab n c (k # ks))" for n r xs
      by (induction xs arbitrary: r) auto
    note * = this [of _ _ "is @ [i]"]
    have "k < 512" using that by (simp add: paths_def)
    with zero [of k] \<open>tab m' root (is @ [i]) = Some b\<close> old show ?thesis
      by (simp add: * valid_def del: append_assoc)
  qed
  ultimately show "tab m' root qs = (if qs = is @ [i] then Some b else tab m root qs)" if "qs \<in> paths"
    using other [OF that] that
    by (cases "\<exists>ks. qs = (is @ [i]) @ ks") (auto simp: neq_Nil_conv split: list.splits, metis append_Cons append_Nil append_assoc list.exhaust)
qed

lemma map_step_ok:
  assumes t: "tree m s root" and p: "is \<in> paths" "length is < 2" "tab m root is = Some a" "i < 512"
    and perm: "perm < 1024" and r: "map_step alloc perm (a + of_nat (8 * i)) m s = Inr (b, m', s')"
  shows "tree m' s' root \<and> tab m' root (is @ [i]) = Some b \<and>
    (\<forall>va. lookup m' root va = lookup m root va) \<and> grows root m m'"
proof (cases "valid (entry m a i)")
  case True
  then have "b = next_table (entry m a i)" "m' = m" "s' = s"
    using r by (auto simp: map_step_def entry_def next_table_def)
  with True p(3) t show ?thesis by (simp add: tab_snoc)
next
  case False
  then have al: "alloc s = Inr (b, s')" and m': "m' = store64 (a + of_nat (8 * i)) (table_pte b perm) m"
    using r by (auto simp: map_step_def entry_def rbind_Inr_iff)
  note new = tab_new [OF t p False al perm m']
  have ok: "tables_ok (pool s) m root" and inv: "inv s" and z: "zeroed (pool s) m"
    using t by (simp_all add: tree_def)
  have a: "page_aligned a" "a \<notin> pool s" using ok p by (auto simp: tables_ok_def)
  have b: "b \<in> pool s" "page_aligned b" using alloc_from_pool [OF inv al] pool_aligned [OF inv] by auto
  have sub: "pool s' \<subseteq> pool s - {b}" by (rule alloc_takes [OF inv al])
  have old: "tab m root qs = Some c \<Longrightarrow> qs \<in> paths \<Longrightarrow> page_aligned c \<and> c \<notin> pool s" for qs c
    using ok by (auto simp: tables_ok_def)
  have "tables_ok (pool s') m' root"
    unfolding tables_ok_def
  proof (intro conjI ballI allI impI)
    fix qs c assume "qs \<in> paths" "tab m' root qs = Some c"
    then show "page_aligned c" "c \<notin> pool s'"
      using new(1) [of qs] b old [of qs c] sub by (auto split: if_splits)
  next
    fix qs rs c assume "qs \<in> paths" "rs \<in> paths" "tab m' root qs = Some c" "tab m' root rs = Some c"
    then show "qs = rs"
      using new(1) [of qs] new(1) [of rs] b(1) old ok by (auto simp: tables_ok_def split: if_splits)
  qed
  moreover have "zeroed (pool s') m'"
    unfolding zeroed_def
  proof (intro ballI)
    fix c x assume c: "c \<in> pool s'" "x \<in> page_bytes c"
    then have "page_aligned c" "c \<noteq> a" using sub a(2) pool_aligned [OF inv, of c] by auto
    then have "x \<notin> page_bytes a" using pages_disjoint [OF _ a(1)] c(2) by blast
    then have "m' x = m x" unfolding m' by (rule entry_store_outside [OF p(4)])
    then show "m' x = 0" using z c sub by (auto simp: zeroed_def)
  qed
  moreover have "tab m root (is @ [i]) = None" using p(3) False by (simp add: tab_snoc)
  moreover from this have "grows root m m'"
    unfolding grows_def
  proof (intro conjI ballI allI impI)
    fix qs c assume "qs \<in> paths" "tab m root qs = Some c"
    with \<open>tab m root (is @ [i]) = None\<close> show "tab m' root qs = Some c" using new(1) [of qs] by auto
  next
    fix x assume x: "\<forall>qs\<in>paths. \<forall>c. tab m' root qs = Some c \<longrightarrow> x \<notin> page_bytes c"
    have "tab m' root is = Some a" using new(1) [OF p(1)] p(3) by simp
    with x p(1) have "x \<notin> page_bytes a" by blast
    then show "m' x = m x" unfolding m' by (rule entry_store_outside [OF p(4)])
  qed
  moreover have "lookup m' root va = lookup m root va" for va
  proof -
    let ?q = "[px 2 va, px 1 va]"
    show ?thesis
    proof (cases "?q = is @ [i]")
      case True
      then have "tab m' root ?q = Some b" "tab m root ?q = None"
        using new(1) [OF path2(1)] \<open>tab m root (is @ [i]) = None\<close> by metis+
      then show ?thesis
        using new(2) [OF px_less [of 0 va]] by (simp add: lookup_def del: tab.simps)
    next
      case no: False
      have "entry m' c (px 0 va) = entry m c (px 0 va)" if c: "tab m root ?q = Some c" for c
      proof (rule new(3) [OF path2(1) c px_less])
        have "c \<noteq> a"
          using ok c p(1-3) path2(1) [of va] unfolding tables_ok_def
          by (metis One_nat_def Suc_1 length_Cons less_irrefl list.size(3))
        then show "c \<noteq> a \<or> px 0 va \<noteq> i" ..
      qed
      moreover have "tab m' root ?q = tab m root ?q" using new(1) [OF path2(1)] no by metis
      ultimately show ?thesis by (simp add: lookup_def del: tab.simps split: option.splits)
    qed
  qed
  moreover have "tab m' root (is @ [i]) = Some b" using new(1) [of "is @ [i]"] p by (simp add: paths_snoc)
  ultimately show ?thesis using alloc_inv [OF inv al] by (simp add: tree_def)
qed

lemma map_leaf_ok:
  assumes t: "tree m s root" and p: "tab m root [px 2 va, px 1 va] = Some a"
    and m': "m' = store64 (a + of_nat (8 * px 0 va)) v m" and v: "valid v"
  shows "tree m' s root \<and> lookup m' root va = Some v \<and> grows root m m' \<and>
    (\<forall>va'. [px 2 va', px 1 va', px 0 va'] \<noteq> [px 2 va, px 1 va, px 0 va] \<longrightarrow> lookup m' root va' = lookup m root va')"
proof -
  let ?q = "[px 2 va, px 1 va]"
  have ok: "tables_ok (pool s) m root" and inv: "inv s" and z: "zeroed (pool s) m"
    using t by (simp_all add: tree_def)
  have a: "page_aligned a" "a \<notin> pool s" using ok p path2(1) [of va] unfolding tables_ok_def by blast+
  have same: "tab m' root qs = tab m root qs" if "qs \<in> paths" for qs
    unfolding m' by (rule tab_store_other [OF ok path2(1) p px_less that]) (use that in \<open>auto simp: paths_def\<close>)
  have entries: "entry m' c j = (if c = a \<and> j = px 0 va then v else entry m c j)"
    if "page_aligned c" "j < 512" for c j
    unfolding m' by (rule entry_store [OF a(1) that(1) px_less that(2)])
  have "tables_ok (pool s) m' root"
    using ok same unfolding tables_ok_def by simp
  moreover have "zeroed (pool s) m'"
    unfolding zeroed_def
  proof (intro ballI)
    fix c x assume c: "c \<in> pool s" "x \<in> page_bytes c"
    then have "x \<notin> page_bytes a"
      using pages_disjoint [OF pool_aligned [OF inv c(1)] a(1)] a(2) by blast
    then have "m' x = m x" unfolding m' by (rule entry_store_outside [OF px_less])
    then show "m' x = 0" using z c by (simp add: zeroed_def)
  qed
  moreover have "lookup m' root va = Some v"
    using same [OF path2(1)] p v entries [OF a(1) px_less] by (simp add: lookup_def del: tab.simps)
  moreover have "grows root m m'"
    unfolding grows_def
  proof (intro conjI ballI allI impI)
    fix x assume x: "\<forall>qs\<in>paths. \<forall>c. tab m' root qs = Some c \<longrightarrow> x \<notin> page_bytes c"
    then have "x \<notin> page_bytes a" using same [OF path2(1)] p path2(1) [of va] by metis
    then show "m' x = m x" unfolding m' by (rule entry_store_outside [OF px_less])
  qed (use same in simp)
  moreover have "lookup m' root va' = lookup m root va'"
    if ne: "[px 2 va', px 1 va', px 0 va'] \<noteq> [px 2 va, px 1 va, px 0 va]" for va'
  proof (cases "tab m root [px 2 va', px 1 va']")
    case None
    then show ?thesis using same [OF path2(1)] by (simp add: lookup_def del: tab.simps)
  next
    case (Some c)
    have "\<not> (c = a \<and> px 0 va' = px 0 va)"
      using ok p Some path2(1) [of va] path2(1) [of va'] ne unfolding tables_ok_def by blast
    moreover have "page_aligned c" using ok Some path2(1) [of va'] unfolding tables_ok_def by blast
    ultimately have "entry m' c (px 0 va') = entry m c (px 0 va')"
      by (simp only: entries [OF _ px_less] if_False)
    with Some show ?thesis using same [OF path2(1)] by (simp add: lookup_def del: tab.simps)
  qed
  ultimately show ?thesis using inv by (simp add: tree_def)
qed

lemma map_walk_ok:
  assumes t: "tree m s root" and perm: "perm < 1024"
    and r: "map_walk alloc va pa perm 2 root m s = Inr (m', s')"
  shows "tree m' s' root \<and> lookup m root va = None \<and> lookup m' root va = Some (leaf_pte pa perm) \<and>
    grows root m m' \<and>
    (\<forall>va'. [px 2 va', px 1 va', px 0 va'] \<noteq> [px 2 va, px 1 va, px 0 va] \<longrightarrow> lookup m' root va' = lookup m root va')"
proof -
  from r obtain a1 m1 s1 a2 m2 s2 where
    s1: "map_step alloc perm (root + of_nat (8 * px 2 va)) m s = Inr (a1, m1, s1)" and
    s2: "map_step alloc perm (a1 + of_nat (8 * px 1 va)) m1 s1 = Inr (a2, m2, s2)" and
    leaf: "\<not> valid (load64 m2 (a2 + of_nat (8 * px 0 va)))"
      "m' = store64 (a2 + of_nat (8 * px 0 va)) (leaf_pte pa perm) m2" "s' = s2"
    unfolding PX_offset [symmetric]
    by (auto simp: numeral_2_eq_2 Let_def rbind_Inr_iff split: if_splits)
  from map_step_ok [OF t _ _ _ px_less perm s1, of "[]"]
  have 1: "tree m1 s1 root" "tab m1 root [px 2 va] = Some a1" "\<forall>va. lookup m1 root va = lookup m root va"
    "grows root m m1" by (simp_all only: path2 tab.simps append_Nil list.size) simp_all
  from map_step_ok [OF 1(1) path2(2) _ 1(2) px_less perm s2]
  have 2: "tree m2 s2 root" "tab m2 root [px 2 va, px 1 va] = Some a2"
    "\<forall>va. lookup m2 root va = lookup m1 root va" "grows root m1 m2" by (simp_all del: tab.simps)
  have "lookup m2 root va = None"
    using leaf(1) 2(2) by (simp add: lookup_def entry_def del: tab.simps)
  with map_leaf_ok [OF 2(1,2) leaf(2) valid_ptes(2)] 1 2 leaf(3) grows_trans [OF 1(4) 2(4)] grows_trans
  show ?thesis by metis
qed

lemma map_walk_double:
  assumes "lookup m root va = Some e"
  shows "map_walk alloc va pa perm 2 root m s = Inl (Panic ''double map'')"
  using assms unfolding lookup_def
  by (simp add: numeral_2_eq_2 Let_def map_step_def PX_offset next_table_def entry_def split: if_splits)

end

section \<open>A range of pages\<close>

definition key :: "u64 \<Rightarrow> nat list" where
  "key va = [px 2 va, px 1 va, px 0 va]"

lemma lookup_key: "key va = key va' \<Longrightarrow> lookup m root va = lookup m root va'"
  by (simp add: key_def lookup_def)

text \<open>\<open>n\<close> pages from \<open>va\<close> on reach \<open>end_va\<close>.\<close>

definition spans :: "u64 \<Rightarrow> nat \<Rightarrow> u64 \<Rightarrow> bool" where
  "spans va n end_va \<longleftrightarrow> unat va + 4096 * n < 2 ^ 64 \<and> unat end_va \<le> unat va + 4096 * n \<and>
    (n \<noteq> 0 \<longrightarrow> unat va + 4096 * (n - 1) < unat end_va)"

lemma spans_Suc:
  assumes "spans va (Suc n) end_va" shows "va < end_va" "spans (va + 4096) n end_va"
proof -
  have "unat (va + 4096) = unat va + 4096"
    using assms unat_of_nat_u64 [of "unat va + 4096"] by (simp add: spans_def)
  with assms show "va < end_va" "spans (va + 4096) n end_va"
    by (cases n; simp add: spans_def word_less_nat_alt)+
qed

lemma spans_0: "spans va 0 end_va \<Longrightarrow> \<not> va < end_va"
  by (simp add: spans_def word_less_nat_alt)

lemma map_loop_returns: "spans va n end_va \<Longrightarrow> \<exists>r. map_loop alloc pg end_va perm va pa m s = Some r"
proof (induction n arbitrary: va pa m s)
  case (Suc n)
  from spans_Suc [OF Suc.prems] Suc.IH show ?case
    by (simp add: map_loop.simps [of alloc pg end_va perm va] PGSIZE_def split: sum.splits)
next
  case 0
  then show ?case using spans_0 [of va end_va] by (simp add: map_loop.simps)
qed

context page_allocator
begin

lemma map_loop_ok:
  "\<lbrakk> tree m s root; perm < 1024; spans va n end_va;
     map_loop alloc root end_va perm va pa m s = Some (Inr (m', s')) \<rbrakk> \<Longrightarrow>
   tree m' s' root \<and> grows root m m' \<and>
   (\<forall>i<n. lookup m root (va + of_nat (4096 * i)) = None \<and>
          lookup m' root (va + of_nat (4096 * i)) = Some (leaf_pte (pa + of_nat (4096 * i)) perm)) \<and>
   (\<forall>va'. (\<forall>i<n. key va' \<noteq> key (va + of_nat (4096 * i))) \<longrightarrow> lookup m' root va' = lookup m root va')"
proof (induction n arbitrary: va pa m s)
  case 0
  then show ?case using spans_0 [of va end_va] by (simp add: map_loop.simps)
next
  case (Suc n)
  note sp = spans_Suc [OF Suc.prems(3)]
  from Suc.prems(4) sp(1) obtain m1 s1 where w: "map_walk alloc va pa perm 2 root m s = Inr (m1, s1)"
    and l: "map_loop alloc root end_va perm (va + 4096) (pa + 4096) m1 s1 = Some (Inr (m', s'))"
    by (auto simp: map_loop.simps [of alloc root end_va perm va] PGSIZE_def split: sum.splits)
  note w = map_walk_ok [OF Suc.prems(1,2) w, folded key_def]
  have step: "va + 4096 + of_nat (4096 * i) = va + of_nat (4096 * Suc i)" for va :: u64 and i by simp
  from Suc.IH [OF _ Suc.prems(2) sp(2) l] w
  have IH: "tree m' s' root" "grows root m1 m'"
    "\<And>i. i < n \<Longrightarrow> lookup m1 root (va + of_nat (4096 * Suc i)) = None \<and>
       lookup m' root (va + of_nat (4096 * Suc i)) = Some (leaf_pte (pa + of_nat (4096 * Suc i)) perm)"
    "\<And>va'. (\<forall>i<n. key va' \<noteq> key (va + of_nat (4096 * Suc i))) \<Longrightarrow> lookup m' root va' = lookup m1 root va'"
    unfolding step by simp_all
  have new: "key (va + of_nat (4096 * Suc i)) \<noteq> key va" if "i < n" for i
    using IH(3) [OF that] w lookup_key [of "va + of_nat (4096 * Suc i)" va m1 root] by auto
  have "lookup m' root va = Some (leaf_pte pa perm)"
    using IH(4) [of va] new w by metis
  moreover have "lookup m root (va + of_nat (4096 * Suc i)) = None" if "i < n" for i
    using IH(3) [OF that] w new [OF that] by metis
  moreover have "lookup m' root va' = lookup m root va'"
    if "\<forall>i<Suc n. key va' \<noteq> key (va + of_nat (4096 * i))" for va'
  proof -
    have "key va' \<noteq> key va" using that [rule_format, of 0] by simp
    moreover have "\<forall>i<n. key va' \<noteq> key (va + of_nat (4096 * Suc i))" using that by blast
    ultimately show ?thesis using IH(4) [of va'] w by metis
  qed
  ultimately show ?case
    using IH(1,3) grows_trans [OF _ IH(2)] w by (simp add: All_less_Suc2 del: of_nat_mult of_nat_Suc mult_Suc_right)
qed

lemma map_step_returns:
  "alloc s = Inr (a, t) \<Longrightarrow> \<exists>b m' s'. map_step alloc perm p m s = Inr (b, m', s') \<and> (s' = s \<or> s' = t)"
  by (simp add: map_step_def)

lemma map_walk_returns:
  assumes t: "tree m s root" and perm: "perm < 1024" and free: "lookup m root va = None"
    and al: "alloc s = Inr (a, s1)" "alloc s1 = Inr (b, s2)"
  shows "\<exists>m' s'. map_walk alloc va pa perm 2 root m s = Inr (m', s')"
proof -
  from map_step_returns [OF al(1)] obtain a1 m1 t1 where
    1: "map_step alloc perm (root + of_nat (8 * px 2 va)) m s = Inr (a1, m1, t1)" "t1 = s \<or> t1 = s1" by blast
  then obtain c u where "alloc t1 = Inr (c, u)" using al by blast
  from map_step_returns [OF this] obtain a2 m2 t2 where
    2: "map_step alloc perm (a1 + of_nat (8 * px 1 va)) m1 t1 = Inr (a2, m2, t2)" by blast
  from map_step_ok [OF t _ _ _ px_less perm 1(1), of "[]"]
  have t1: "tree m1 t1 root" "tab m1 root [px 2 va] = Some a1" "\<forall>va. lookup m1 root va = lookup m root va"
    by (simp_all only: path2 tab.simps append_Nil list.size) simp_all
  from map_step_ok [OF t1(1) path2(2) _ t1(2) px_less perm 2]
  have "tab m2 root [px 2 va, px 1 va] = Some a2" "lookup m2 root va = None"
    using t1(3) free by (simp_all del: tab.simps)
  then have "\<not> valid (load64 m2 (a2 + of_nat (8 * px 0 va)))"
    by (simp add: lookup_def entry_def del: tab.simps split: if_splits)
  with 1 2 show ?thesis
    unfolding PX_offset [symmetric] by (simp add: numeral_2_eq_2 Let_def)
qed

end

section \<open>trans\<close>

lemma trans_unfold:
  "trans pg va m =
    (let ok = (\<lambda>e. valid e \<and> (readable e \<or> \<not> writable e));
         e2 = entry m pg (px 2 va); a1 = next_table e2;
         e1 = entry m a1 (px 1 va); a0 = next_table e1 in
     if ok e2 \<and> ok e1 \<and> ok (entry m a0 (px 0 va)) then Inr (a0 + of_nat (8 * px 0 va))
     else Inl (Panic ''access fault''))"
  unfolding trans_def entry_def next_table_def PX_offset [symmetric]
  by (simp add: numeral_2_eq_2 Let_def trans_loop.simps)

section \<open>The kernel's page tables\<close>

definition kernel_tree :: "u64 \<Rightarrow> bytes \<Rightarrow> buddy \<Rightarrow> u64 \<Rightarrow> bool" where
  "kernel_tree base m s root \<longleftrightarrow>
    page_state base s \<and> tables_ok (page_pool base s) m root \<and> zeroed (page_pool base s) m"

abbreviation page_alloc :: "u64 \<Rightarrow> buddy \<Rightarrow> (u64 \<times> buddy) result" where
  "page_alloc base \<equiv> kalloc base (of_nat PGSIZE)"

lemma kernel_tree: "kernel_tree base m s root = pmm.tree base m s root"
  by (simp add: kernel_tree_def pmm.tree_def)

lemma spans_size:
  assumes "unat va + unat sz + 4096 \<le> 2 ^ 64"
  shows "spans va ((unat sz + 4095) div 4096) (va + sz)"
proof -
  have "unat (va + sz) = unat va + unat sz"
    using assms unat_of_nat_u64 [of "unat va + unat sz"] by simp
  then show ?thesis using assms by (auto simp: spans_def)
qed

lemma page_index: "i < (n + 4095) div 4096 \<longleftrightarrow> 4096 * i < (n :: nat)"
  by (simp add: less_eq_Suc_le [of i] less_eq_div_iff_mult_less_eq) presburger

text \<open>
  C23: when \<open>map\<close> returns, every page of the range is mapped to the page at the same distance from
  \<open>pa\<close>, none of them was mapped before, every other virtual page keeps its mapping, and the only
  bytes written are those of the tables. It needs zeroed free pages: \<open>kalloc\<close> does not clear them.
\<close>

theorem map_range_maps:
  assumes "kernel_tree base m s root" and "perm < 1024" and "unat va + unat sz + 4096 \<le> 2 ^ 64"
    and "map_range (page_alloc base) root va pa sz perm m s = Some (Inr (m', s'))"
  shows "kernel_tree base m' s' root \<and>
    (\<forall>i. 4096 * i < unat sz \<longrightarrow> lookup m root (va + of_nat (4096 * i)) = None \<and>
       lookup m' root (va + of_nat (4096 * i)) = Some (leaf_pte (pa + of_nat (4096 * i)) perm)) \<and>
    (\<forall>va'. (\<forall>i. 4096 * i < unat sz \<longrightarrow> key va' \<noteq> key (va + of_nat (4096 * i))) \<longrightarrow>
       lookup m' root va' = lookup m root va') \<and>
    (\<forall>x. (\<forall>qs\<in>paths. \<forall>a. tab m' root qs = Some a \<longrightarrow> x \<notin> page_bytes a) \<longrightarrow> m' x = m x)"
  using pmm.map_loop_ok [OF assms(1) [unfolded kernel_tree] assms(2) spans_size [OF assms(3)]
      assms(4) [unfolded map_range_def]]
  unfolding page_index kernel_tree grows_def by blast

text \<open>C29: \<open>map\<close> always ends when the range does not reach the last page of the address space.\<close>

theorem map_range_ends:
  assumes "unat va + unat sz + 4096 \<le> 2 ^ 64"
  shows "\<exists>r. map_range (page_alloc base) root va pa sz perm m s = Some r"
  unfolding map_range_def using map_loop_returns [OF spans_size [OF assms]] .

text \<open>A range whose first page is mapped is refused by the "double map" panic.\<close>

theorem map_range_double:
  assumes "lookup m root va \<noteq> None" and "0 < sz" and "unat va + unat sz < 2 ^ 64"
  shows "map_range (page_alloc base) root va pa sz perm m s = Some (Inl (Panic ''double map''))"
proof -
  have "unat (va + sz) = unat va + unat sz"
    using assms unat_of_nat_u64 [of "unat va + unat sz"] by simp
  then have "va < va + sz" using assms(2) by (simp add: word_less_nat_alt)
  moreover from assms(1) obtain e where "lookup m root va = Some e" by blast
  ultimately show ?thesis
    using pmm.map_walk_double by (simp add: map_range_def map_loop.simps)
qed


section \<open>The kernel's own page table\<close>

lemma fresh_root:
  assumes s: "page_state base s" and z: "zeroed (page_pool base s) m" and al: "page_alloc base s = Inr (k, s')"
  shows "kernel_tree base m s' k" "lookup m k va = None"
proof -
  have k: "k \<in> page_pool base s" "page_pool base s' \<subseteq> page_pool base s - {k}" "page_state base s'"
    using kalloc_page [OF s al] by auto
  have e: "entry m k i = 0" if "i < 512" for i
    using z k(1) that by (intro entry_zero) (auto simp: zeroed_def)
  have only: "tab m k qs = (if qs = [] then Some k else None)" if "qs \<in> paths" for qs
    using that e by (cases qs) (auto simp: paths_def)
  have "page_aligned k" using page_pool_aligned [OF s k(1)] .
  then have "tables_ok (page_pool base s') m k"
    unfolding tables_ok_def using only k(2) by (auto split: if_splits)
  then show "kernel_tree base m s' k" using z k by (auto simp: kernel_tree_def zeroed_def)
  show "lookup m k va = None" using only [OF path2(1)] by (simp add: lookup_def del: tab.simps)
qed


text \<open>The same for the table of the kernel: from the start of its image to the end of the managed memory.\<close>

lemma kernel_identity_map:
  assumes "page_state kernel_end s" and "zeroed (page_pool kernel_end s) m"
    and "kernel_start \<le> kernel_end" and "unat kernel_end + mem_size \<le> 2 ^ 50"
    and "k_pgtable_init (page_alloc kernel_end) kernel_start kernel_end m s = Some (Inr (k, ppn, m', s'))"
  shows "kernel_tree kernel_end m' s' k \<and> ppn = drop_bit 12 k \<and>
    (\<forall>i. 4096 * i < unat kernel_end + mem_size - unat kernel_start \<longrightarrow>
       lookup m' k (kernel_start + of_nat (4096 * i)) = Some (leaf_pte (kernel_start + of_nat (4096 * i)) 0))"
proof -
  let ?sz = "kernel_end + of_nat mem_size - kernel_start"
  from assms(5) obtain s1 where al: "page_alloc kernel_end s = Inr (k, s1)" and ppn: "ppn = drop_bit 12 k"
    and r: "map_range (page_alloc kernel_end) k kernel_start kernel_start ?sz 0 m s1 = Some (Inr (m', s'))"
    by (auto simp: k_pgtable_init_def kmap_def split: sum.splits if_splits option.splits)
  note root = fresh_root [OF assms(1,2) al]
  have ks: "unat kernel_start \<le> unat kernel_end" using assms(3) by (simp add: word_le_nat_alt)
  have "?sz = of_nat (unat kernel_end + mem_size - unat kernel_start)"
    using ks by (simp add: of_nat_diff)
  moreover have "unat kernel_end + mem_size - unat kernel_start < 2 ^ 64" using assms(4) by simp
  ultimately have sz: "unat ?sz = unat kernel_end + mem_size - unat kernel_start"
    by (simp only: unat_of_nat_u64)
  have "unat kernel_start + unat ?sz + 4096 \<le> 2 ^ 64" using sz ks assms(4) by simp
  from pmm.map_loop_ok [OF root(1) [unfolded kernel_tree] _ spans_size [OF this] r [unfolded map_range_def]]
  have "kernel_tree kernel_end m' s' k"
    "\<forall>i. 4096 * i < unat ?sz \<longrightarrow>
       lookup m' k (kernel_start + of_nat (4096 * i)) = Some (leaf_pte (kernel_start + of_nat (4096 * i)) 0)"
    unfolding page_index kernel_tree by simp_all
  then show ?thesis unfolding sz ppn by simp
qed

section \<open>Witnesses\<close>

text \<open>A zeroed memory, the first page as a root table, and one page mapped.\<close>

definition zero_mem :: bytes where "zero_mem = (\<lambda>_. 0)"

lemma zeroed_zero: "zeroed pool zero_mem"
  by (simp add: zeroed_def zero_mem_def)

lemma zero_page_state: "page_state 0x80300000 (buddy_init zero_buddy)"
  using zero_inv by (simp add: page_state_def mem_size_def PGSIZE_def)

lemma one_mapping:
  obtains k s1 m' s' where "page_alloc 0x80300000 (buddy_init zero_buddy) = Inr (k, s1)"
    "kernel_tree 0x80300000 zero_mem s1 k" "\<And>va. lookup zero_mem k va = None"
    "map_walk (page_alloc 0x80300000) 0x10000 0x10000 0 2 k zero_mem s1 = Inr (m', s')"
    "map_range (page_alloc 0x80300000) k 0x10000 0x10000 0x1000 0 zero_mem s1 = Some (Inr (m', s'))"
proof -
  obtain s1 s2 s3 where r: "buddy_allocate 0x1000 (buddy_init zero_buddy) = Inr (0, s1)"
    "buddy_allocate 0x1000 s1 = Inr (1, s2)" "buddy_allocate 0x1000 s2 = Inr (2, s3)"
    by (rule three_pages)
  then have a: "page_alloc 0x80300000 (buddy_init zero_buddy) = Inr (PGADDR 0x80300000 0, s1)"
    "page_alloc 0x80300000 s1 = Inr (PGADDR 0x80300000 1, s2)"
    "page_alloc 0x80300000 s2 = Inr (PGADDR 0x80300000 2, s3)"
    by (simp_all add: kalloc_def PGSIZE_def)
  note root = fresh_root [OF zero_page_state zeroed_zero a(1)]
  from pmm.map_walk_returns [OF root(1) [unfolded kernel_tree] _ root(2) a(2,3), of 0 "0x10000" "0x10000"]
  obtain m' s' where w: "map_walk (page_alloc 0x80300000) 0x10000 0x10000 0 2 (PGADDR 0x80300000 0) zero_mem s1 = Inr (m', s')"
    by auto
  then have "map_range (page_alloc 0x80300000) (PGADDR 0x80300000 0) 0x10000 0x10000 0x1000 0 zero_mem s1 = Some (Inr (m', s'))"
    by (simp add: map_range_def map_loop.simps PGSIZE_def)
  from that [OF a(1) root w this] show ?thesis .
qed

theorem map_range_maps_witness:
  "\<exists>k s m' s'. map_range (page_alloc 0x80300000) k 0x10000 0x10000 0x1000 0 zero_mem s = Some (Inr (m', s')) \<and>
     lookup zero_mem k 0x10000 = None \<and> lookup m' k 0x10000 = Some (leaf_pte 0x10000 0)"
proof -
  obtain k s1 m' s' where r: "kernel_tree 0x80300000 zero_mem s1 k"
    "map_range (page_alloc 0x80300000) k 0x10000 0x10000 0x1000 0 zero_mem s1 = Some (Inr (m', s'))"
    by (rule one_mapping)
  from map_range_maps [OF r(1) _ _ r(2)] have
    "\<forall>i. 4096 * i < 4096 \<longrightarrow> lookup zero_mem k (0x10000 + of_nat (4096 * i)) = None \<and>
      lookup m' k (0x10000 + of_nat (4096 * i)) = Some (leaf_pte (0x10000 + of_nat (4096 * i)) 0)" by simp
  from this [rule_format, of 0] r(2) show ?thesis by auto
qed

theorem map_range_ends_witness:
  "\<exists>r. map_range (page_alloc 0x80300000) 0x80300000 0x10000 0x10000 0x1000 0 zero_mem zero_buddy = Some r"
  by (rule map_range_ends) simp

theorem map_range_double_witness:
  "\<exists>k m s. map_range (page_alloc 0x80300000) k 0x10000 0x10000 0x1000 0 m s = Some (Inl (Panic ''double map''))"
proof -
  obtain k s1 m' s' where r: "kernel_tree 0x80300000 zero_mem s1 k"
    "map_walk (page_alloc 0x80300000) 0x10000 0x10000 0 2 k zero_mem s1 = Inr (m', s')"
    by (rule one_mapping)
  from pmm.map_walk_ok [OF r(1) [unfolded kernel_tree] _ r(2)] have "lookup m' k 0x10000 \<noteq> None" by simp
  from map_range_double [OF this, of "0x1000" "0x80300000"]
  have "map_range (page_alloc 0x80300000) k 0x10000 0x10000 0x1000 0 m' s1 = Some (Inl (Panic ''double map''))" by simp
  then show ?thesis by blast
qed



end
