(* ===== verification/Block_Dev.thy ===== *)
theory Block_Dev
  imports Pmm C_Strings Le_Access
begin

text \<open>
  Block devices: the interface of kernel/include/openfat/blockdev.h, the ramdisk of
  kernel/drivers/ramdisk.c behind it (block_dev.c), and the partitions of kernel/fs/mbr.c. A device
  works on a world \<open>'w\<close>; for the ramdisk that is the memory. Buffers are indexed by offset.
\<close>

type_synonym buffer = "nat \<Rightarrow> u8"

text \<open>The methods return the value of the C function; \<open>dev_addr\<close> is the address of the structure.\<close>

record 'w block_device =
  dev_addr :: u64
  read_sectors :: "buffer \<Rightarrow> u32 \<Rightarrow> u32 \<Rightarrow> 'w \<Rightarrow> int \<times> buffer \<times> 'w"
  write_sectors :: "buffer \<Rightarrow> u32 \<Rightarrow> u32 \<Rightarrow> 'w \<Rightarrow> int \<times> 'w"

definition block_read_sectors ::
  "'w block_device \<Rightarrow> u32 \<Rightarrow> u32 \<Rightarrow> buffer \<Rightarrow> 'w \<Rightarrow> int \<times> buffer \<times> 'w" where
  "block_read_sectors dev sector count buf w = read_sectors dev buf sector count w"

definition block_write_sectors ::
  "'w block_device \<Rightarrow> u32 \<Rightarrow> u32 \<Rightarrow> buffer \<Rightarrow> 'w \<Rightarrow> int \<times> 'w" where
  "block_write_sectors dev sector count buf w = write_sectors dev buf sector count w"

section \<open>The ramdisk\<close>

definition SECTOR_SIZE :: u32 where "SECTOR_SIZE = 512"

definition RAMDISK_BASE :: "u64 \<Rightarrow> u64" where
  "RAMDISK_BASE kernel_start = kernel_start + of_nat mem_size div 2"

text \<open>\<open>sector * SECTOR_SIZE\<close> is computed in 32 bits before it is added to the base.\<close>

definition ramdisk_read :: "u64 \<Rightarrow> buffer \<Rightarrow> u32 \<Rightarrow> u32 \<Rightarrow> bytes \<Rightarrow> int \<times> buffer \<times> bytes" where
  "ramdisk_read base buf sector count m =
    (sint count,
     (\<lambda>i. if i < unat (count * SECTOR_SIZE) then m (base + ucast (sector * SECTOR_SIZE) + of_nat i) else buf i),
     m)"

definition ramdisk_write :: "u64 \<Rightarrow> buffer \<Rightarrow> u32 \<Rightarrow> u32 \<Rightarrow> bytes \<Rightarrow> int \<times> bytes" where
  "ramdisk_write base src sector count m =
    (sint count,
     fold (\<lambda>i m. m(base + ucast (sector * SECTOR_SIZE) + of_nat i := src i)) [0..<unat (count * SECTOR_SIZE)] m)"

text \<open>\<open>sizeof(struct block_device)\<close> is 16: two function pointers.\<close>

definition block_device_new :: "u64 \<Rightarrow> u64 \<Rightarrow> buddy \<Rightarrow> (bytes block_device \<times> buddy) result" where
  "block_device_new pmm_start ramdisk s =
    rbind (kalloc pmm_start 16 s) (\<lambda>(bldev, s').
    Inr (\<lparr>dev_addr = bldev, read_sectors = ramdisk_read ramdisk, write_sectors = ramdisk_write ramdisk\<rparr>, s'))"

section \<open>Partitions\<close>

text \<open>
  The code stores its four-argument functions in the three-argument method slots of \<open>bldev\<close>; the
  model has the two functions and the partition, not a device whose methods they would be.
\<close>

record 'w block_mbr_partition =
  whole :: "'w block_device"
  first_lba :: u32
  sector_count :: u32

definition mbr_read_sectors ::
  "'w block_mbr_partition \<Rightarrow> u32 \<Rightarrow> u32 \<Rightarrow> buffer \<Rightarrow> 'w \<Rightarrow> int \<times> buffer \<times> 'w" where
  "mbr_read_sectors part sector count buf w = block_read_sectors (whole part) (first_lba part + sector) count buf w"

definition mbr_write_sectors ::
  "'w block_mbr_partition \<Rightarrow> u32 \<Rightarrow> u32 \<Rightarrow> buffer \<Rightarrow> 'w \<Rightarrow> int \<times> 'w" where
  "mbr_write_sectors part sector count buf w = block_write_sectors (whole part) (first_lba part + sector) count buf w"

text \<open>The result is the C return value, the partition, the sector buffer and the world.\<close>

definition mbr_partition_init ::
  "'w block_mbr_partition \<Rightarrow> 'w block_device \<Rightarrow> u8 \<Rightarrow> buffer \<Rightarrow> 'w
    \<Rightarrow> (int \<times> 'w block_mbr_partition \<times> buffer \<times> 'w) result" where
  "mbr_partition_init part dev part_index buf w =
    (let (n, buf', w') = block_read_sectors dev 0 1 buf w; p = 446 + 16 * unat part_index in
     if n \<noteq> 1 then Inr (-1, part, buf', w')
     else rbind (guard Out_Of_Bounds (p + 16 \<le> 512)) (\<lambda>_.
       Inr (0, \<lparr>whole = dev, first_lba = get_le32 buf' (p + 8), sector_count = get_le32 buf' (p + 12)\<rparr>, buf', w')))"

section \<open>The interface of a block device\<close>

text \<open>
  A working device: a world holds a sector of 512 bytes for every sector number below a bound;
  reading one sector fills the buffer with it, writing one replaces it and no other.
\<close>

type_synonym sector = "nat \<Rightarrow> u8"

definition same_sector :: "sector \<Rightarrow> sector \<Rightarrow> bool" where
  "same_sector a b \<longleftrightarrow> (\<forall>i<512. a i = b i)"

locale block_dev =
  fixes dev :: "'w block_device" and disk :: "'w \<Rightarrow> u32 \<Rightarrow> sector" and nsec :: nat
  assumes read_ok: "\<lbrakk> unat s < nsec; block_read_sectors dev s 1 buf w = (n, buf', w') \<rbrakk> \<Longrightarrow>
      n = 1 \<and> w' = w \<and> same_sector buf' (disk w s)"
    and write_ok: "\<lbrakk> unat s < nsec; block_write_sectors dev s 1 buf w = (n, w') \<rbrakk> \<Longrightarrow>
      n = 1 \<and> same_sector (disk w' s) buf \<and>
      (\<forall>t. unat t < nsec \<longrightarrow> t \<noteq> s \<longrightarrow> same_sector (disk w' t) (disk w t))"
begin

lemma read_after_write:
  "\<lbrakk> unat s < nsec; block_write_sectors dev s 1 buf w = (n, w'); block_read_sectors dev s 1 b w' = (k, b', w'') \<rbrakk>
   \<Longrightarrow> same_sector b' buf"
  using write_ok [of s buf w n w'] read_ok [of s b w' k b' w''] by (simp add: same_sector_def)

end

definition ramdisk_device :: "u64 \<Rightarrow> u64 \<Rightarrow> bytes block_device" where
  "ramdisk_device addr base =
    \<lparr>dev_addr = addr, read_sectors = ramdisk_read base, write_sectors = ramdisk_write base\<rparr>"

definition ramdisk_content :: "u64 \<Rightarrow> bytes \<Rightarrow> u32 \<Rightarrow> sector" where
  "ramdisk_content base m s i = m (base + of_nat (unat s * 512 + i))"

lemma ramdisk_addr:
  assumes "unat s < 2 ^ 23"
  shows "base + ucast (s * SECTOR_SIZE) + of_nat i = (base :: u64) + of_nat (unat s * 512 + i)"
proof -
  have "unat (s * 512) = unat s * 512" using assms by (simp add: unat_word_ariths)
  then have "(of_nat (unat (s * 512)) :: u64) = of_nat (unat s * 512)" by (simp only:)
  then show ?thesis by (simp add: SECTOR_SIZE_def)
qed

lemma ramdisk_unique:
  assumes "unat s < 2 ^ 23" "unat t < 2 ^ 23" "i < 512" "j < 512"
    and "(base :: u64) + of_nat (unat s * 512 + i) = base + of_nat (unat t * 512 + j)"
  shows "s = t \<and> i = j"
proof -
  have "unat s * 512 + i = unat t * 512 + j"
    using offset_inj [OF assms(5)] assms(1-4) by simp
  then have "(unat s * 512 + i) div 512 = (unat t * 512 + j) div 512" "(unat s * 512 + i) mod 512 = (unat t * 512 + j) mod 512"
    by simp_all
  then show ?thesis using assms(3,4) by (simp add: word_unat_eq_iff)
qed

lemma fold_store_out: "x \<notin> a ` {..<n} \<Longrightarrow> fold (\<lambda>i m. m(a i := f i)) [0..<n] m x = m x"
  by (induction n) (auto simp: lessThan_Suc)

lemma fold_store_in: "\<lbrakk> inj_on a {..<n}; i < n \<rbrakk> \<Longrightarrow> fold (\<lambda>i m. m(a i := f i)) [0..<n] m (a i) = f i"
proof (induction n)
  case (Suc n)
  then show ?case by (cases "i = n") (auto simp: inj_on_def)
qed simp

lemma sector_bytes: "unat (1 * SECTOR_SIZE) = 512"
  by (simp add: SECTOR_SIZE_def)

lemma ramdisk_write_content:
  assumes "unat s < 2 ^ 23" "ramdisk_write base src s 1 m = (n, m')"
  shows "same_sector (ramdisk_content base m' s) src"
    and "\<lbrakk> unat t < 2 ^ 23; t \<noteq> s \<rbrakk> \<Longrightarrow> same_sector (ramdisk_content base m' t) (ramdisk_content base m t)"
proof -
  let ?a = "\<lambda>i. base + of_nat (unat s * 512 + i) :: u64"
  have m': "m' = fold (\<lambda>i m. m(?a i := src i)) [0..<512] m"
    using assms(2) unfolding ramdisk_write_def ramdisk_addr [OF assms(1)] sector_bytes by simp
  have inj: "inj_on ?a {..<512}"
    by (rule inj_onI) (use ramdisk_unique [OF assms(1,1)] in blast)
  show "same_sector (ramdisk_content base m' s) src"
    using fold_store_in [OF inj, of _ src m] by (simp add: same_sector_def ramdisk_content_def m')
  assume t: "unat t < 2 ^ 23" "t \<noteq> s"
  have "base + of_nat (unat t * 512 + i) \<notin> ?a ` {..<512}" if "i < 512" for i
    using ramdisk_unique [OF t(1) assms(1) that] t(2) by blast
  then show "same_sector (ramdisk_content base m' t) (ramdisk_content base m t)"
    using fold_store_out [of _ ?a 512 src m] by (simp add: same_sector_def ramdisk_content_def m')
qed

lemma ramdisk_read_content:
  "\<lbrakk> unat s < 2 ^ 23; ramdisk_read base buf s 1 m = (n, buf', m') \<rbrakk> \<Longrightarrow>
   n = 1 \<and> m' = m \<and> same_sector buf' (ramdisk_content base m s)"
  unfolding ramdisk_read_def sector_bytes same_sector_def ramdisk_content_def
  using ramdisk_addr [of s base] by (auto simp: add.assoc)

text \<open>The sectors whose numbers the 32-bit product keeps apart: 4 GB.\<close>

definition rd_sectors :: nat where "rd_sectors = 2 ^ 23"

interpretation ramdisk: block_dev "ramdisk_device addr base" "ramdisk_content base" rd_sectors for addr base
proof (unfold_locales, unfold rd_sectors_def)
  fix s buf w n buf' w'
  assume "unat s < 2 ^ 23" "block_read_sectors (ramdisk_device addr base) s 1 buf w = (n, buf', w')"
  then show "n = 1 \<and> w' = w \<and> same_sector buf' (ramdisk_content base w s)"
    using ramdisk_read_content by (simp add: block_read_sectors_def ramdisk_device_def)
next
  fix s buf w n w'
  assume a: "unat s < 2 ^ 23" "block_write_sectors (ramdisk_device addr base) s 1 buf w = (n, w')"
  then have "ramdisk_write base buf s 1 w = (n, w')" by (simp add: block_write_sectors_def ramdisk_device_def)
  with ramdisk_write_content [OF a(1) this] show "n = 1 \<and> same_sector (ramdisk_content base w' s) buf \<and>
      (\<forall>t. unat t < 2 ^ 23 \<longrightarrow> t \<noteq> s \<longrightarrow> same_sector (ramdisk_content base w' t) (ramdisk_content base w t))"
    by (auto simp: ramdisk_write_def)
qed

section \<open>Properties\<close>

text \<open>
  C34: below \<open>2 ^ 23\<close> sectors (4 GB), a sector read from the ramdisk is the one last written there,
  and writing a sector changes no other.
\<close>

theorem ramdisk_read_write:
  assumes "unat s < 2 ^ 23" and "unat t < 2 ^ 23"
    and "ramdisk_write base src s 1 m = (n, m')"
  shows "n = 1 \<and> fst (ramdisk_read base buf t 1 m') = 1 \<and>
    (\<forall>i<512. fst (snd (ramdisk_read base buf t 1 m')) i =
      (if t = s then src i else fst (snd (ramdisk_read base buf t 1 m)) i))"
proof -
  have n: "n = 1" using assms(3) by (simp add: ramdisk_write_def)
  note w = ramdisk_write_content [OF assms(1,3)]
  obtain k b x where r': "ramdisk_read base buf t 1 m' = (k, b, x)" by (cases "ramdisk_read base buf t 1 m'")
  obtain k0 b0 x0 where r: "ramdisk_read base buf t 1 m = (k0, b0, x0)" by (cases "ramdisk_read base buf t 1 m")
  from ramdisk_read_content [OF assms(2) r'] ramdisk_read_content [OF assms(2) r] w(1) w(2) [OF assms(2)]
  show ?thesis by (auto simp: n r r' same_sector_def)
qed

text \<open>
  The 32-bit product makes the ramdisk repeat itself: sector \<open>s + 2 ^ 23\<close> is sector \<open>s\<close>.
\<close>

theorem ramdisk_wraps:
  "ramdisk_read base buf (s + 2 ^ 23) 1 m = ramdisk_read base buf s 1 m"
proof -
  have "(s + 2 ^ 23) * SECTOR_SIZE = s * SECTOR_SIZE + 2 ^ 32" by (simp add: SECTOR_SIZE_def algebra_simps)
  also have "(2 ^ 32 :: u32) = 0" by simp
  finally show ?thesis by (simp only: ramdisk_read_def add_0_right)
qed

theorem ramdisk_read_write_witness:
  "fst (snd (ramdisk_read 0x82200000 (\<lambda>_. 0) 3 1 (snd (ramdisk_write 0x82200000 (\<lambda>i. of_nat i) 3 1 (\<lambda>_. 0))))) 7 = 7"
  using ramdisk_read_write [of 3 3 "0x82200000" "\<lambda>i. of_nat i" "\<lambda>_. 0" _ _ "\<lambda>_. 0", OF _ _ surjective_pairing] by simp

end
