(* ===== verification/Bpb.thy ===== *)
theory Bpb
  imports Block_Dev
begin

text \<open>
  kernel/fs/bpb.h: the BIOS parameter block, read from a sector buffer, and the layout of a FAT
  volume computed from it. The layout is what every later access relies on; the theorem says that
  the clusters it describes lie inside the volume and do not overlap.
\<close>

section \<open>Fields\<close>

definition bpb_bytes_per_sector :: "buffer \<Rightarrow> u16" where "bpb_bytes_per_sector b = get_le16 b 11"
definition bpb_sectors_per_cluster :: "buffer \<Rightarrow> u8" where "bpb_sectors_per_cluster b = b 13"
definition bpb_reserved_sector_count :: "buffer \<Rightarrow> u16" where "bpb_reserved_sector_count b = get_le16 b 14"
definition bpb_num_fats :: "buffer \<Rightarrow> u8" where "bpb_num_fats b = b 16"
definition bpb_root_entry_count :: "buffer \<Rightarrow> u16" where "bpb_root_entry_count b = get_le16 b 17"
definition bpb_total_sectors_16 :: "buffer \<Rightarrow> u16" where "bpb_total_sectors_16 b = get_le16 b 19"
definition bpb_fat_size_16 :: "buffer \<Rightarrow> u16" where "bpb_fat_size_16 b = get_le16 b 22"
definition bpb_total_sectors_32 :: "buffer \<Rightarrow> u32" where "bpb_total_sectors_32 b = get_le32 b 32"
definition bpb_fat_size_32 :: "buffer \<Rightarrow> u32" where "bpb_fat_size_32 b = get_le32 b 36"
definition bpb_root_cluster :: "buffer \<Rightarrow> u32" where "bpb_root_cluster b = get_le32 b 44"

section \<open>Layout\<close>

definition bpb_root_dir_sectors :: "buffer \<Rightarrow> u32 result" where
  "bpb_root_dir_sectors b =
    rbind (guard Div_By_Zero (bpb_bytes_per_sector b \<noteq> 0)) (\<lambda>_.
    Inr ((ucast (bpb_root_entry_count b) * 32 + (ucast (bpb_bytes_per_sector b) - 1)) div ucast (bpb_bytes_per_sector b)))"

definition bpb_fat_size :: "buffer \<Rightarrow> u32" where
  "bpb_fat_size b = (if bpb_fat_size_16 b = 0 then bpb_fat_size_32 b else ucast (bpb_fat_size_16 b))"

definition bpb_first_data_sector :: "buffer \<Rightarrow> u32 result" where
  "bpb_first_data_sector b =
    rbind (bpb_root_dir_sectors b) (\<lambda>root.
    Inr (ucast (bpb_reserved_sector_count b) + ucast (bpb_num_fats b) * bpb_fat_size b + root))"

definition bpb_first_sector_of_cluster :: "buffer \<Rightarrow> u32 \<Rightarrow> u32 result" where
  "bpb_first_sector_of_cluster b n =
    rbind (bpb_first_data_sector b) (\<lambda>first. Inr ((n - 2) * ucast (bpb_sectors_per_cluster b) + first))"

datatype fat_type = FAT_TYPE_FAT12 | FAT_TYPE_FAT16 | FAT_TYPE_FAT32

definition bpb_total_sectors :: "buffer \<Rightarrow> u32" where
  "bpb_total_sectors b = (if bpb_total_sectors_16 b = 0 then bpb_total_sectors_32 b else ucast (bpb_total_sectors_16 b))"

definition bpb_cluster_count :: "buffer \<Rightarrow> u32 result" where
  "bpb_cluster_count b =
    rbind (bpb_root_dir_sectors b) (\<lambda>root.
    rbind (guard Div_By_Zero (bpb_sectors_per_cluster b \<noteq> 0)) (\<lambda>_.
    Inr ((bpb_total_sectors b - ucast (bpb_reserved_sector_count b) - ucast (bpb_num_fats b) * bpb_fat_size b - root)
         div ucast (bpb_sectors_per_cluster b))))"

definition fat_type :: "buffer \<Rightarrow> fat_type result" where
  "fat_type b =
    rbind (bpb_cluster_count b) (\<lambda>n.
    Inr (if n < 4085 then FAT_TYPE_FAT12 else if n < 65525 then FAT_TYPE_FAT16 else FAT_TYPE_FAT32))"

section \<open>The clusters lie in the volume\<close>

text \<open>
  The system area, computed in natural numbers, fits into the volume: the condition under which no
  subtraction or product of the layout wraps around.
\<close>

definition bpb_fits :: "buffer \<Rightarrow> bool" where
  "bpb_fits b \<longleftrightarrow> bpb_bytes_per_sector b \<noteq> 0 \<and> bpb_sectors_per_cluster b \<noteq> 0 \<and>
    unat (bpb_reserved_sector_count b) + unat (bpb_num_fats b) * unat (bpb_fat_size b) +
    (unat (bpb_root_entry_count b) * 32 + (unat (bpb_bytes_per_sector b) - 1)) div unat (bpb_bytes_per_sector b)
    \<le> unat (bpb_total_sectors b)"

lemma unat_ucast_u16_u32 [simp]: "unat (ucast (x :: u16) :: u32) = unat x"
  by (rule unat_ucast_small) (use unsigned_less [where 'a = nat, of x] in simp)

lemma unat_ucast_u8_u32 [simp]: "unat (ucast (x :: u8) :: u32) = unat x"
  by (rule unat_ucast_small) (use unsigned_less [where 'a = nat, of x] in simp)

lemma unat_u16_less: "unat (x :: u16) < 65536"
  using unsigned_less [where 'a = nat, of x] by simp

lemma unat_u8_less: "unat (x :: u8) < 256"
  using unsigned_less [where 'a = nat, of x] by simp

lemma root_dir_sectors:
  assumes "bpb_bytes_per_sector b \<noteq> 0"
  obtains r where "bpb_root_dir_sectors b = Inr r"
    "unat r = (unat (bpb_root_entry_count b) * 32 + (unat (bpb_bytes_per_sector b) - 1)) div unat (bpb_bytes_per_sector b)"
proof -
  let ?n = "bpb_root_entry_count b" and ?bps = "bpb_bytes_per_sector b"
  have "(ucast ?bps :: u32) \<noteq> 0" using assms by (metis unat_ucast_u16_u32 unat_eq_0 unsigned_0)
  then have 1: "unat (ucast ?bps - 1 :: u32) = unat ?bps - 1" by (simp add: unat_dec)
  have 2: "unat (ucast ?n * 32 :: u32) = unat ?n * 32"
    using unat_u16_less [of ?n] by (simp add: unat_word_ariths)
  have "unat (ucast ?n * 32 + (ucast ?bps - 1) :: u32) = unat ?n * 32 + (unat ?bps - 1)"
    unfolding unat_word_ariths(1) [of "ucast ?n * 32"] 1 2
    using unat_u16_less [of ?n] unat_u16_less [of ?bps] by simp
  then show ?thesis
    using assms by (intro that [of "(ucast ?n * 32 + (ucast ?bps - 1)) div ucast ?bps"])
      (simp_all add: bpb_root_dir_sectors_def unat_div)
qed

lemma layout_nat:
  assumes "bpb_fits b"
  obtains first count where "bpb_first_data_sector b = Inr first" "bpb_cluster_count b = Inr count"
    "unat first + unat count * unat (bpb_sectors_per_cluster b) \<le> unat (bpb_total_sectors b)"
    "bpb_sectors_per_cluster b \<noteq> 0"
proof -
  let ?res = "bpb_reserved_sector_count b" and ?nf = "bpb_num_fats b" and ?fs = "bpb_fat_size b"
  let ?tot = "bpb_total_sectors b" and ?spc = "bpb_sectors_per_cluster b"
  obtain r where r: "bpb_root_dir_sectors b = Inr r"
    "unat r = (unat (bpb_root_entry_count b) * 32 + (unat (bpb_bytes_per_sector b) - 1)) div unat (bpb_bytes_per_sector b)"
    using root_dir_sectors assms by (auto simp: bpb_fits_def)
  have fit: "unat ?res + unat ?nf * unat ?fs + unat r \<le> unat ?tot" "?spc \<noteq> 0"
    using assms r by (simp_all add: bpb_fits_def)
  have tot: "unat ?tot < 2 ^ 32" using unsigned_less [where 'a = nat, of ?tot] by simp
  have nf: "unat (ucast ?nf * ?fs :: u32) = unat ?nf * unat ?fs"
    using fit(1) tot by (simp add: unat_word_ariths)
  have first: "unat (ucast ?res + ucast ?nf * ?fs + r :: u32) = unat ?res + unat ?nf * unat ?fs + unat r"
    using fit(1) tot by (simp add: unat_word_ariths(1) nf)
  have e: "?tot - ucast ?res - ucast ?nf * ?fs - r = ?tot - (ucast ?res + ucast ?nf * ?fs + r)" by simp
  have le: "ucast ?res + ucast ?nf * ?fs + r \<le> ?tot"
    using first fit(1) by (simp add: word_le_nat_alt)
  have "unat (?tot - ucast ?res - ucast ?nf * ?fs - r) =
      unat ?tot - (unat ?res + unat ?nf * unat ?fs + unat r)"
    unfolding e unat_sub [OF le] first ..
  then have count: "unat ((?tot - ucast ?res - ucast ?nf * ?fs - r) div ucast ?spc :: u32) =
      (unat ?tot - (unat ?res + unat ?nf * unat ?fs + unat r)) div unat ?spc"
    by (simp add: unat_div)
  have "X \<le> T \<Longrightarrow> X + (T - X) div d * d \<le> T" for X T d :: nat
    using div_times_less_eq_dividend [of "T - X" d] by linarith
  from this [OF fit(1)] have "unat (ucast ?res + ucast ?nf * ?fs + r :: u32) +
      unat ((?tot - ucast ?res - ucast ?nf * ?fs - r) div ucast ?spc :: u32) * unat ?spc \<le> unat ?tot"
    unfolding count first .
  then show ?thesis
    using fit(2) r(1) by (intro that) (simp_all add: bpb_first_data_sector_def bpb_cluster_count_def)
qed

text \<open>
  C35: on a parameter block whose system area fits into the volume, the clusters numbered from 2 up
  to the cluster count plus one occupy sectors of the data area, inside the volume, and two
  clusters share no sector.
\<close>

theorem clusters_in_volume:
  assumes "bpb_fits b" and "bpb_cluster_count b = Inr count" and "2 \<le> n" and "unat n < unat count + 2"
  shows "\<exists>s first. bpb_first_sector_of_cluster b n = Inr s \<and> bpb_first_data_sector b = Inr first \<and>
    unat s = unat first + (unat n - 2) * unat (bpb_sectors_per_cluster b) \<and>
    unat s + unat (bpb_sectors_per_cluster b) \<le> unat (bpb_total_sectors b)"
proof -
  let ?spc = "bpb_sectors_per_cluster b"
  obtain first where first: "bpb_first_data_sector b = Inr first"
    "unat first + unat count * unat ?spc \<le> unat (bpb_total_sectors b)"
    using layout_nat [OF assms(1)] assms(2) by (metis sum.inject(2))
  have n: "unat (n - 2) = unat n - 2" using assms(3) by (simp add: unat_sub)
  have "Suc (unat n - 2) \<le> unat count" using assms(3,4) by (simp add: word_le_nat_alt)
  then have "Suc (unat n - 2) * unat ?spc \<le> unat count * unat ?spc" by (rule mult_le_mono1)
  then have top: "unat first + (unat n - 2) * unat ?spc + unat ?spc \<le> unat (bpb_total_sectors b)"
    using first(2) by simp
  have tot: "unat (bpb_total_sectors b) < 2 ^ 32"
    using unsigned_less [where 'a = nat, of "bpb_total_sectors b"] by simp
  have "unat ((n - 2) * ucast ?spc :: u32) = (unat n - 2) * unat ?spc"
    using top tot by (simp add: unat_word_ariths n)
  then have "unat ((n - 2) * ucast ?spc + first) = unat first + (unat n - 2) * unat ?spc"
    using top tot by (simp add: unat_word_ariths(1))
  with first(1) top show ?thesis by (simp add: bpb_first_sector_of_cluster_def)
qed

text \<open>A 1.44 MB floppy image: 2880 sectors, one sector per cluster, two FATs of nine sectors.\<close>

definition floppy :: buffer where
  "floppy = (\<lambda>_. 0)(12 := 2, 13 := 1, 14 := 1, 16 := 2, 17 := 224, 19 := 0x40, 20 := 0x0B, 22 := 9)"

lemma floppy_fields:
  "bpb_bytes_per_sector floppy = 512" "bpb_sectors_per_cluster floppy = 1" "bpb_reserved_sector_count floppy = 1"
  "bpb_num_fats floppy = 2" "bpb_root_entry_count floppy = 224" "bpb_total_sectors floppy = 2880"
  "bpb_fat_size floppy = 9"
  by (simp_all add: floppy_def bpb_bytes_per_sector_def bpb_sectors_per_cluster_def bpb_reserved_sector_count_def
      bpb_num_fats_def bpb_root_entry_count_def bpb_total_sectors_def bpb_total_sectors_16_def
      bpb_fat_size_def bpb_fat_size_16_def get_le16_def)

lemma floppy_layout: "bpb_root_dir_sectors floppy = Inr 14" "bpb_first_data_sector floppy = Inr 33"
  "bpb_cluster_count floppy = Inr 2847" "fat_type floppy = Inr FAT_TYPE_FAT12"
  by (simp_all add: bpb_root_dir_sectors_def bpb_first_data_sector_def bpb_cluster_count_def fat_type_def floppy_fields)

theorem clusters_in_volume_witness: "\<exists>s. bpb_first_sector_of_cluster floppy 2848 = Inr s \<and> unat s = 2879"
proof -
  have "bpb_fits floppy" by (simp add: bpb_fits_def floppy_fields)
  from clusters_in_volume [OF this floppy_layout(3), of 2848] show ?thesis
    by (auto simp: floppy_layout floppy_fields)
qed

end
