(* ===== verification/Fat_Cache.thy ===== *)
theory Fat_Cache
  imports Bpb
begin

text \<open>
  The state of the FAT file system and its one-sector write-back cache: openfat.h (handles) and the
  macros of kernel/fs/fat_core.h. A routine is a function of the state whose result is a fault, or
  \<open>None\<close> for the \<open>return -EIO\<close> in the macros, or a value. The second part proves that on a working
  device the cache is invisible: what the file system sees (\<open>view\<close>) behaves as a plain array of
  sectors.
\<close>

section \<open>Handles and state\<close>

text \<open>The pointer to the volume in a file handle is left out: there is one volume, in the state.\<close>

record fat_file_handle =
  fsize :: u32
  first_cluster :: u32
  position :: u32
  cur_cluster :: u32
  root_flag :: bool
  fflags :: u32
  dirent_sector :: u32
  dirent_offset :: u16

text \<open>The two members of the union are separate fields; \<open>fat32_root_cluster\<close> reads the first.\<close>

record 'w fat_vol_handle =
  vdev :: "'w block_device"
  vtype :: fat_type
  bytes_per_sector :: u16
  sectors_per_cluster :: u8
  reserved_sector_count :: u16
  num_fats :: u8
  first_data_sector :: u32
  cluster_count :: u32
  fat_size :: u32
  root_cluster :: u32
  root_sector_count :: u16
  root_first_sector :: u16
  last_cluster_alloc :: u32
  cwd :: fat_file_handle

definition fat32_root_cluster :: "'w fat_vol_handle \<Rightarrow> u32" where
  "fat32_root_cluster v =
    (case vtype v of FAT_TYPE_FAT32 \<Rightarrow> root_cluster v
     | _ \<Rightarrow> ucast (root_sector_count v) OR push_bit 16 (ucast (root_first_sector v)))"

record 'w fs =
  sector_buf :: buffer
  c_bldev :: "'w block_device option"
  c_sector :: u32
  c_dirty :: bool
  world :: 'w
  vol :: "'w fat_vol_handle"

definition MAX_SECTOR_SIZE :: nat where "MAX_SECTOR_SIZE = 512"

section \<open>Routines\<close>

type_synonym ('w, 'a) io = "'w fs \<Rightarrow> ('a option \<times> 'w fs) result"

definition fret :: "'a \<Rightarrow> ('w, 'a) io" where
  "fret x s = Inr (Some x, s)"

definition fbind :: "('w, 'a) io \<Rightarrow> ('a \<Rightarrow> ('w, 'b) io) \<Rightarrow> ('w, 'b) io" where
  "fbind p f s =
    (case p s of Inl e \<Rightarrow> Inl e | Inr (None, s') \<Rightarrow> Inr (None, s') | Inr (Some x, s') \<Rightarrow> f x s')"

definition return_eio :: "('w, 'a) io" where
  "return_eio s = Inr (None, s)"

definition fault :: "fault \<Rightarrow> ('w, 'a) io" where
  "fault e s = Inl e"

definition fguard :: "fault \<Rightarrow> bool \<Rightarrow> ('w, unit) io" where
  "fguard e b s = (if b then Inr (Some (), s) else Inl e)"

definition lift :: "'a result \<Rightarrow> ('w, 'a) io" where
  "lift r s = (case r of Inl e \<Rightarrow> Inl e | Inr x \<Rightarrow> Inr (Some x, s))"

definition fget :: "('w fs \<Rightarrow> 'a) \<Rightarrow> ('w, 'a) io" where
  "fget f s = Inr (Some (f s), s)"

definition fmod :: "('w fs \<Rightarrow> 'w fs) \<Rightarrow> ('w, unit) io" where
  "fmod f s = Inr (Some (), f s)"

text \<open>The end of a C function: the \<open>return -EIO\<close> of a macro becomes the value \<open>v\<close>.\<close>

definition eio_as :: "'a \<Rightarrow> ('w, 'a) io \<Rightarrow> ('w, 'a) io" where
  "eio_as v p s = (case p s of Inr (None, s') \<Rightarrow> Inr (Some v, s') | r \<Rightarrow> r)"

text \<open>To go on after a macro that returned: the caller sees whether it did.\<close>

definition ftry :: "('w, 'a) io \<Rightarrow> ('w, 'a option) io" where
  "ftry p s = (case p s of Inl e \<Rightarrow> Inl e | Inr (x, s') \<Rightarrow> Inr (Some x, s'))"

definition EIO :: int where "EIO = 5"
definition ENOENT :: int where "ENOENT = 2"
definition EISDIR :: int where "EISDIR = 21"

section \<open>The cache macros\<close>

definition FAT_FLUSH_SECTOR :: "('w, unit) io" where
  "FAT_FLUSH_SECTOR s =
    (if \<not> c_dirty s then Inr (Some (), s\<lparr>c_dirty := False\<rparr>)
     else case c_bldev s of
       None \<Rightarrow> Inl Wild_Pointer
     | Some d \<Rightarrow>
         (case block_write_sectors d (c_sector s) 1 (sector_buf s) (world s) of (n, w') \<Rightarrow>
            if n \<noteq> 1 then Inr (None, s\<lparr>world := w'\<rparr>) else Inr (Some (), s\<lparr>world := w', c_dirty := False\<rparr>)))"

text \<open>Devices are compared as pointers.\<close>

definition cached :: "'w fs \<Rightarrow> u32 \<Rightarrow> bool" where
  "cached s n \<longleftrightarrow>
    (case c_bldev s of None \<Rightarrow> False | Some d \<Rightarrow> dev_addr d = dev_addr (vdev (vol s))) \<and> c_sector s = n"

definition set_tag :: "u32 \<Rightarrow> 'w fs \<Rightarrow> 'w fs" where
  "set_tag n s = s\<lparr>c_bldev := Some (vdev (vol s)), c_sector := n\<rparr>"

definition load_sector :: "u32 \<Rightarrow> ('w, unit) io" where
  "load_sector n s =
    (case block_read_sectors (vdev (vol s)) n 1 (sector_buf s) (world s) of (k, b, w') \<Rightarrow>
       if k \<noteq> 1 then Inr (None, s\<lparr>sector_buf := b, world := w'\<rparr>)
       else Inr (Some (), s\<lparr>sector_buf := b, world := w'\<rparr>))"

definition FAT_GET_SECTOR :: "u32 \<Rightarrow> ('w, unit) io" where
  "FAT_GET_SECTOR n s =
    (if cached s n then Inr (Some (), s)
     else fbind FAT_FLUSH_SECTOR (\<lambda>_. fbind (fmod (set_tag n)) (\<lambda>_. load_sector n)) s)"

definition FAT_PUT_SECTOR :: "u32 \<Rightarrow> ('w, unit) io" where
  "FAT_PUT_SECTOR n s =
    fbind (if \<not> cached s n then FAT_FLUSH_SECTOR else fret ())
      (\<lambda>_. fmod (\<lambda>s. (set_tag n s)\<lparr>c_dirty := True\<rparr>)) s"

text \<open>Access to the buffer, inside its 512 bytes.\<close>

definition buf_get :: "nat \<Rightarrow> nat \<Rightarrow> (buffer \<Rightarrow> 'a) \<Rightarrow> ('w, 'a) io" where
  "buf_get off len f =
    fbind (fguard Out_Of_Bounds (off + len \<le> MAX_SECTOR_SIZE)) (\<lambda>_. fget (\<lambda>s. f (sector_buf s)))"

definition buf_mod :: "nat \<Rightarrow> nat \<Rightarrow> (buffer \<Rightarrow> buffer) \<Rightarrow> ('w, unit) io" where
  "buf_mod off len f =
    fbind (fguard Out_Of_Bounds (off + len \<le> MAX_SECTOR_SIZE)) (\<lambda>_.
    fmod (\<lambda>s. s\<lparr>sector_buf := f (sector_buf s)\<rparr>))"

definition vol_mod :: "('w fat_vol_handle \<Rightarrow> 'w fat_vol_handle) \<Rightarrow> ('w, unit) io" where
  "vol_mod f = fmod (\<lambda>s. s\<lparr>vol := f (vol s)\<rparr>)"

named_theorems io_defs

lemmas [io_defs] = fret_def fbind_def return_eio_def fault_def fguard_def lift_def fget_def fmod_def eio_as_def ftry_def

lemma fbind_simps [simp]:
  "fbind (fret x) f = f x"
  "fbind return_eio h = return_eio"
  "fbind (fault e) k = fault e"
  "fbind (fguard e True) g = g ()"
  "fbind (fguard e False) g = fault e"
  by (simp_all add: io_defs fun_eq_iff)

lemma fbind_run [simp]:
  "fbind (fget g) f s = f (g s) s"
  "fbind (fmod h) f' s = f' () (h s)"
  "fbind (lift (Inr x)) f'' s = f'' x s"
  "fret y s = Inr (Some y, s)"
  by (simp_all add: io_defs)

lemma fbind_assoc: "fbind (fbind p f) g = fbind p (\<lambda>x. fbind (f x) g)"
  by (auto simp: fbind_def fun_eq_iff split: sum.split prod.split option.split)

lemma buf_get_run [simp]:
  "off + len \<le> 512 \<Longrightarrow> fbind (buf_get off len f) k s = k (f (sector_buf s)) s"
  "off + len \<le> 512 \<Longrightarrow> buf_get off len f s = Inr (Some (f (sector_buf s)), s)"
  by (simp_all add: buf_get_def MAX_SECTOR_SIZE_def io_defs)

lemma buf_mod_run [simp]:
  "off + len \<le> 512 \<Longrightarrow> fbind (buf_mod off len f) k s = k () (s\<lparr>sector_buf := f (sector_buf s)\<rparr>)"
  by (simp add: buf_mod_def MAX_SECTOR_SIZE_def io_defs)

lemma eio_as_Some: "p s = Inr (Some x, s') \<Longrightarrow> eio_as v p s = Inr (Some x, s')"
  by (simp add: eio_as_def)

lemma fbind_Some: "p s = Inr (Some x, s') \<Longrightarrow> fbind p f s = f x s'"
  by (simp add: fbind_def)

lemma fbind_cong [fundef_cong]:
  "\<lbrakk> p = p'; s = s'; \<And>x t. p' s' = Inr (Some x, t) \<Longrightarrow> f x t = g x t \<rbrakk> \<Longrightarrow> fbind p f s = fbind p' g s'"
  by (auto simp: fbind_def split: sum.split prod.split option.split)

section \<open>The cache is invisible\<close>

context block_dev
begin

text \<open>The sectors as the file system sees them.\<close>

definition view :: "'w fs \<Rightarrow> u32 \<Rightarrow> sector" where
  "view s n = (if c_bldev s \<noteq> None \<and> c_sector s = n then sector_buf s else disk (world s) n)"

definition cache_ok :: "'w fs \<Rightarrow> bool" where
  "cache_ok s \<longleftrightarrow> vdev (vol s) = dev \<and>
    (case c_bldev s of None \<Rightarrow> \<not> c_dirty s
     | Some d \<Rightarrow> d = dev \<and> unat (c_sector s) < nsec \<and>
         (\<not> c_dirty s \<longrightarrow> same_sector (sector_buf s) (disk (world s) (c_sector s))))"

definition same_view :: "'w fs \<Rightarrow> 'w fs \<Rightarrow> bool" where
  "same_view s t \<longleftrightarrow> (\<forall>n. unat n < nsec \<longrightarrow> same_sector (view s n) (view t n))"

lemma same_sector_refl [simp]: "same_sector a a" by (simp add: same_sector_def)

lemma same_sector_trans: "\<lbrakk> same_sector a b; same_sector b c \<rbrakk> \<Longrightarrow> same_sector a c"
  by (simp add: same_sector_def)

lemma same_sector_sym: "same_sector a b \<Longrightarrow> same_sector b a"
  by (simp add: same_sector_def)

lemma same_view_refl [simp]: "same_view s s" by (simp add: same_view_def)

lemma same_view_trans: "\<lbrakk> same_view a b; same_view b c \<rbrakk> \<Longrightarrow> same_view a c"
  unfolding same_view_def using same_sector_trans by blast

lemma flush_ok:
  assumes "cache_ok s"
  obtains s' where "FAT_FLUSH_SECTOR s = Inr (Some (), s')" "cache_ok s'" "\<not> c_dirty s'" "same_view s' s"
    "sector_buf s' = sector_buf s" "c_bldev s' = c_bldev s" "c_sector s' = c_sector s" "vol s' = vol s"
proof (cases "c_dirty s")
  case False
  then show ?thesis using assms that [of s] by (simp add: FAT_FLUSH_SECTOR_def)
next
  case True
  then have d: "c_bldev s = Some dev" "unat (c_sector s) < nsec"
    using assms by (auto simp: cache_ok_def split: option.splits)
  obtain n w' where wr: "block_write_sectors dev (c_sector s) 1 (sector_buf s) (world s) = (n, w')"
    by (cases "block_write_sectors dev (c_sector s) 1 (sector_buf s) (world s)")
  note w = write_ok [OF d(2) wr]
  let ?s = "s\<lparr>world := w', c_dirty := False\<rparr>"
  show ?thesis
  proof (rule that [of ?s])
    show "FAT_FLUSH_SECTOR s = Inr (Some (), ?s)" using True d wr w by (simp add: FAT_FLUSH_SECTOR_def)
    show "cache_ok ?s" using assms d w by (auto simp: cache_ok_def intro: same_sector_sym)
    show "same_view ?s s" using d w by (auto simp: same_view_def view_def)
  qed simp_all
qed

lemma get_ok:
  assumes "cache_ok s" "unat n < nsec"
  obtains s' where "FAT_GET_SECTOR n s = Inr (Some (), s')" "cache_ok s'" "same_view s' s"
    "c_bldev s' = Some dev" "c_sector s' = n" "vol s' = vol s"
proof (cases "cached s n")
  case True
  then have "c_bldev s = Some dev" "c_sector s = n"
    using assms by (auto simp: cached_def cache_ok_def split: option.splits)
  with True assms that [of s] show ?thesis by (simp add: FAT_GET_SECTOR_def)
next
  case False
  obtain t where t: "FAT_FLUSH_SECTOR s = Inr (Some (), t)" "cache_ok t" "\<not> c_dirty t" "same_view t s" "vol t = vol s"
    using flush_ok [OF assms(1)] by metis
  obtain k b w' where rd: "block_read_sectors dev n 1 (sector_buf t) (world t) = (k, b, w')"
    by (cases "block_read_sectors dev n 1 (sector_buf t) (world t)")
  note r = read_ok [OF assms(2) rd]
  let ?s = "(set_tag n t)\<lparr>sector_buf := b, world := w'\<rparr>"
  have dev: "vdev (vol t) = dev" using t(2) by (simp add: cache_ok_def)
  have clean: "same_sector (disk (world t) m) (view t m)" for m
    using t(2,3) by (auto simp: view_def cache_ok_def split: option.splits intro: same_sector_sym)
  show ?thesis
  proof (rule that [of ?s])
    show "FAT_GET_SECTOR n s = Inr (Some (), ?s)"
      using False t(1) rd r dev by (simp add: FAT_GET_SECTOR_def fbind_def fmod_def load_sector_def set_tag_def)
    show "cache_ok ?s" using t(2,3) r dev assms(2) by (simp add: cache_ok_def set_tag_def)
    have "view ?s m = (if m = n then b else disk (world t) m)" for m
      using r by (simp add: view_def set_tag_def)
    then have "same_view ?s t"
      using r clean same_sector_trans [of b "disk (world t) n" "view t n"] by (simp add: same_view_def)
    then show "same_view ?s s" using t(4) same_view_trans by blast
    show "c_bldev ?s = Some dev" "c_sector ?s = n" "vol ?s = vol s" using dev t(5) by (simp_all add: set_tag_def)
  qed
qed

text \<open>A sector that is in the buffer is changed there and marked.\<close>

lemma put_ok:
  fixes b :: sector
  assumes "cache_ok s" "c_bldev s = Some dev" "c_sector s = n" "unat n < nsec"
  defines "s' \<equiv> s\<lparr>sector_buf := b, c_dirty := True\<rparr>"
  shows "FAT_PUT_SECTOR n (s\<lparr>sector_buf := b\<rparr>) = Inr (Some (), s')" "cache_ok s'"
    "view s' n = b" "m \<noteq> n \<Longrightarrow> view s' m = view s m"
  using assms
  by (auto simp: FAT_PUT_SECTOR_def cached_def cache_ok_def set_tag_def view_def io_defs)

text \<open>
  A whole sector that is not in the buffer is written through the buffer after a flush, as
  \<open>fat_write\<close> does for full sectors.
\<close>

lemma put_whole_ok:
  fixes b :: sector
  assumes "cache_ok s" "\<not> c_dirty s" "unat n < nsec"
  defines "s' \<equiv> s\<lparr>sector_buf := b, c_bldev := Some dev, c_sector := n, c_dirty := True\<rparr>"
  shows "FAT_PUT_SECTOR n (s\<lparr>sector_buf := b\<rparr>) = Inr (Some (), s')" "cache_ok s'"
    "view s' n = b" "m \<noteq> n \<Longrightarrow> same_sector (view s' m) (view s m)"
  using assms
  by (auto simp: FAT_PUT_SECTOR_def FAT_FLUSH_SECTOR_def cached_def cache_ok_def set_tag_def view_def io_defs
      intro: same_sector_sym split: option.splits)

end

end
