(* ===== verification/Fat_Core.thy ===== *)
theory Fat_Core
  imports Fat_Cache
begin

text \<open>
  kernel/fs/fat_core.c and the part of write.c that works on the allocation table: mounting a
  volume, following and changing cluster chains, seeking and reading.
\<close>

section \<open>Volumes\<close>

definition fat_eoc :: "'w fat_vol_handle \<Rightarrow> u32" where
  "fat_eoc v = (case vtype v of FAT_TYPE_FAT12 \<Rightarrow> 0x0FF8 | FAT_TYPE_FAT16 \<Rightarrow> 0xFFF8 | FAT_TYPE_FAT32 \<Rightarrow> 0x0FFFFFF8)"

definition fat_first_sector_of_cluster :: "'w fat_vol_handle \<Rightarrow> u32 \<Rightarrow> u32" where
  "fat_first_sector_of_cluster v n = (n - 2) * ucast (sectors_per_cluster v) + first_data_sector v"

definition zero_file :: fat_file_handle where
  "zero_file = \<lparr>fsize = 0, first_cluster = 0, position = 0, cur_cluster = 0, root_flag = False,
     fflags = 0, dirent_sector = 0, dirent_offset = 0\<rparr>"

definition fat_file_root :: "'w fat_vol_handle \<Rightarrow> fat_file_handle" where
  "fat_file_root v =
    (let h = zero_file;
         h = (case vtype v of
                FAT_TYPE_FAT32 \<Rightarrow> h\<lparr>first_cluster := root_cluster v\<rparr>
              | _ \<Rightarrow> h\<lparr>root_flag := True, first_cluster := ucast (root_first_sector v),
                        fsize := ucast (root_sector_count v) * ucast (bytes_per_sector v)\<rparr>)
     in h\<lparr>cur_cluster := first_cluster h\<rparr>)"

text \<open>A directory entry is its 32 bytes.\<close>

definition fat_file_init :: "buffer \<Rightarrow> fat_file_handle" where
  "fat_file_init dirent =
    (let h = zero_file\<lparr>first_cluster := push_bit 16 (ucast (get_le16 dirent 20)) OR ucast (get_le16 dirent 26),
                       fsize := get_le32 dirent 28\<rparr>
     in h\<lparr>cur_cluster := first_cluster h\<rparr>)"

definition zero_vol :: "'w block_device \<Rightarrow> 'w fat_vol_handle" where
  "zero_vol d = \<lparr>vdev = d, vtype = FAT_TYPE_FAT12, bytes_per_sector = 0, sectors_per_cluster = 0,
     reserved_sector_count = 0, num_fats = 0, first_data_sector = 0, cluster_count = 0, fat_size = 0,
     root_cluster = 0, root_sector_count = 0, root_first_sector = 0, last_cluster_alloc = 0, cwd = zero_file\<rparr>"

definition fat_vol_init :: "'w block_device \<Rightarrow> ('w, int) io" where
  "fat_vol_init dev = eio_as (- EIO)
    (fbind (vol_mod (\<lambda>_. zero_vol dev)) (\<lambda>_.
     fbind (FAT_GET_SECTOR 0) (\<lambda>_.
     fbind (fget sector_buf) (\<lambda>bpb.
     fbind (lift (fat_type bpb)) (\<lambda>t.
     fbind (lift (bpb_cluster_count bpb)) (\<lambda>count.
     fbind (lift (bpb_first_data_sector bpb)) (\<lambda>first.
     fbind (lift (bpb_root_dir_sectors bpb)) (\<lambda>root.
     fbind (vol_mod (\<lambda>h. h\<lparr>vtype := t, cluster_count := count,
              bytes_per_sector := bpb_bytes_per_sector bpb,
              sectors_per_cluster := bpb_sectors_per_cluster bpb,
              first_data_sector := first,
              reserved_sector_count := bpb_reserved_sector_count bpb,
              num_fats := bpb_num_fats bpb, fat_size := bpb_fat_size bpb, last_cluster_alloc := 2\<rparr>)) (\<lambda>_.
     fbind (vol_mod (\<lambda>h. case t of
              FAT_TYPE_FAT32 \<Rightarrow> h\<lparr>root_cluster := bpb_root_cluster bpb\<rparr>
            | _ \<Rightarrow> h\<lparr>root_sector_count := ucast root, root_first_sector := ucast (first - ucast (ucast root :: u16))\<rparr>)) (\<lambda>_.
     fbind (vol_mod (\<lambda>h. h\<lparr>cwd := fat_file_root h\<rparr>)) (\<lambda>_.
     fret 0)))))))))))"

section \<open>Reading the allocation table\<close>

definition fat_offset :: "fat_type \<Rightarrow> u32 \<Rightarrow> u32" where
  "fat_offset t cluster =
    (case t of FAT_TYPE_FAT12 \<Rightarrow> cluster + cluster div 2 | FAT_TYPE_FAT16 \<Rightarrow> cluster * 2 | FAT_TYPE_FAT32 \<Rightarrow> cluster * 4)"

definition fat_get_next_cluster :: "u32 \<Rightarrow> ('w, u32) io" where
  "fat_get_next_cluster cluster = eio_as (- 5)
    (fbind (fget vol) (\<lambda>h.
     let bps = ucast (bytes_per_sector h) :: u32; offset = fat_offset (vtype h) cluster in
     fbind (fguard Div_By_Zero (bps \<noteq> 0)) (\<lambda>_.
     let sector = ucast (reserved_sector_count h) + offset div bps; offset = offset mod bps in
     fbind (FAT_GET_SECTOR sector) (\<lambda>_.
     case vtype h of
       FAT_TYPE_FAT12 \<Rightarrow>
         fbind (if offset = bps - 1
                then fbind (buf_get (unat offset) 1 (\<lambda>b. ucast (b (unat offset)))) (\<lambda>lo.
                     fbind (FAT_GET_SECTOR (sector + 1)) (\<lambda>_.
                     fbind (buf_get 0 1 (\<lambda>b. push_bit 8 (ucast (b 0)))) (\<lambda>hi. fret (lo + hi))))
                else buf_get (unat offset) 2 (\<lambda>b. ucast (get_le16 b (unat offset)))) (\<lambda>next.
         fret (if cluster AND 1 \<noteq> 0 then drop_bit 4 next else next AND 0xFFF))
     | FAT_TYPE_FAT16 \<Rightarrow> buf_get (unat offset) 2 (\<lambda>b. ucast (get_le16 b (unat offset)))
     | FAT_TYPE_FAT32 \<Rightarrow> buf_get (unat offset) 4 (\<lambda>b. get_le32 b (unat offset) AND 0x0FFFFFFF)))))"

section \<open>Changing the allocation table\<close>

text \<open>The place of an entry in a copy of the table.\<close>

definition fat_place :: "'w fat_vol_handle \<Rightarrow> u8 \<Rightarrow> u32 \<Rightarrow> u32 \<times> u32" where
  "fat_place h fat offset =
    (ucast (reserved_sector_count h) + ucast fat * fat_size h + offset div ucast (bytes_per_sector h),
     offset mod ucast (bytes_per_sector h))"

definition fat32_set_next_cluster :: "u8 \<Rightarrow> u32 \<Rightarrow> u32 \<Rightarrow> ('w, int) io" where
  "fat32_set_next_cluster fat cluster next = eio_as (- EIO)
    (fbind (fget vol) (\<lambda>h.
     fbind (fguard Div_By_Zero (bytes_per_sector h \<noteq> 0)) (\<lambda>_.
     let (sector, offset) = fat_place h fat (cluster * 4) in
     fbind (FAT_GET_SECTOR sector) (\<lambda>_.
     fbind (buf_mod (unat offset) 4 (\<lambda>b.
       put_le32 (unat offset) ((next AND 0x0FFFFFFF) OR (get_le32 b (unat offset) AND 0xF0000000)) b)) (\<lambda>_.
     fbind (FAT_PUT_SECTOR sector) (\<lambda>_. fret 0))))))"

definition fat16_set_next_cluster :: "u8 \<Rightarrow> u16 \<Rightarrow> u16 \<Rightarrow> ('w, int) io" where
  "fat16_set_next_cluster fat cluster next = eio_as (- EIO)
    (fbind (fget vol) (\<lambda>h.
     fbind (fguard Div_By_Zero (bytes_per_sector h \<noteq> 0)) (\<lambda>_.
     let (sector, offset) = fat_place h fat (ucast cluster * 2) in
     fbind (FAT_GET_SECTOR sector) (\<lambda>_.
     fbind (buf_mod (unat offset) 2 (put_le16 (unat offset) next)) (\<lambda>_.
     fbind (FAT_PUT_SECTOR sector) (\<lambda>_. fret 0))))))"

definition fat12_set_next_cluster :: "u8 \<Rightarrow> u16 \<Rightarrow> u16 \<Rightarrow> ('w, int) io" where
  "fat12_set_next_cluster fat cluster next = eio_as (- EIO)
    (fbind (fget vol) (\<lambda>h.
     fbind (fguard Div_By_Zero (bytes_per_sector h \<noteq> 0)) (\<lambda>_.
     let (sector, offset) = fat_place h fat (ucast cluster + ucast (cluster div 2)); p = unat offset in
     fbind (FAT_GET_SECTOR sector) (\<lambda>_.
     if offset = ucast (bytes_per_sector h) - 1 then
       if cluster AND 1 \<noteq> 0 then
         let next = push_bit 4 next in
         fbind (buf_mod p 1 (\<lambda>b. b(p := (b p AND 0x0F) OR ucast (next AND 0xF0)))) (\<lambda>_.
         fbind (FAT_PUT_SECTOR sector) (\<lambda>_.
         fbind (FAT_GET_SECTOR (sector + 1)) (\<lambda>_.
         fbind (buf_mod 0 1 (\<lambda>b. b(0 := ucast (drop_bit 8 next)))) (\<lambda>_.
         fbind (FAT_PUT_SECTOR (sector + 1)) (\<lambda>_. fret 0)))))
       else
         fbind (buf_mod p 1 (\<lambda>b. b(p := ucast (next AND 0xFF)))) (\<lambda>_.
         fbind (FAT_PUT_SECTOR sector) (\<lambda>_.
         fbind (FAT_GET_SECTOR (sector + 1)) (\<lambda>_.
         fbind (buf_mod 0 1 (\<lambda>b. b(0 := (b 0 AND 0xF0) OR ucast (drop_bit 8 next AND 0x0F)))) (\<lambda>_.
         fbind (FAT_PUT_SECTOR (sector + 1)) (\<lambda>_. fret 0)))))
     else
       fbind (buf_mod p 2 (\<lambda>b. put_le16 p
         (if cluster AND 1 \<noteq> 0 then push_bit 4 next OR (get_le16 b p AND 0xF)
          else (next AND 0x0FFF) OR (get_le16 b p AND 0xF000)) b)) (\<lambda>_.
       fbind (FAT_PUT_SECTOR sector) (\<lambda>_. fret 0))))))"

text \<open>
  The loop over the copies. The results are or-ed; each is 0 or \<open>-EIO\<close>, so the result is
  \<open>-EIO\<close> when some copy failed. The parameters of the 12- and 16-bit functions are truncated.
\<close>

fun set_in_copies :: "nat list \<Rightarrow> u32 \<Rightarrow> u32 \<Rightarrow> int \<Rightarrow> ('w, int) io" where
  "set_in_copies [] cluster next r = fret r"
| "set_in_copies (i # is) cluster next r =
    fbind (fget (\<lambda>s. vtype (vol s))) (\<lambda>t.
    fbind (case t of
             FAT_TYPE_FAT12 \<Rightarrow> fat12_set_next_cluster (of_nat i) (ucast cluster) (ucast next)
           | FAT_TYPE_FAT16 \<Rightarrow> fat16_set_next_cluster (of_nat i) (ucast cluster) (ucast next)
           | FAT_TYPE_FAT32 \<Rightarrow> fat32_set_next_cluster (of_nat i) cluster next) (\<lambda>e.
    set_in_copies is cluster next (r OR e)))"

definition fat_set_next_cluster :: "u32 \<Rightarrow> u32 \<Rightarrow> ('w, int) io" where
  "fat_set_next_cluster cluster next =
    fbind (fget (\<lambda>s. unat (num_fats (vol s)))) (\<lambda>n. set_in_copies [0..<n] cluster next 0)"

section \<open>Allocation of clusters\<close>

fun find_zero :: "nat list \<Rightarrow> ('w, u32 option) io" where
  "find_zero [] = fret None"
| "find_zero (i # is) =
    fbind (fat_get_next_cluster (of_nat i)) (\<lambda>v. if v = 0 then fret (Some (of_nat i)) else find_zero is)"

text \<open>From the last allocated cluster up to \<open>cluster_count\<close>, then from 2; 0 when none is free.\<close>

definition fat_find_free_cluster :: "('w, u32) io" where
  "fat_find_free_cluster =
    fbind (fget vol) (\<lambda>h.
    fbind (find_zero [unat (last_cluster_alloc h)..<unat (cluster_count h)]) (\<lambda>r.
    fbind (case r of Some i \<Rightarrow> fret (Some i) | None \<Rightarrow> find_zero [2..<unat (last_cluster_alloc h)]) (\<lambda>r.
    case r of
      None \<Rightarrow> fret 0
    | Some i \<Rightarrow> fbind (vol_mod (\<lambda>h. h\<lparr>last_cluster_alloc := i\<rparr>)) (\<lambda>_. fret i))))"

fun write_zeros :: "nat list \<Rightarrow> u32 \<Rightarrow> ('w, unit) io" where
  "write_zeros [] sector = fret ()"
| "write_zeros (i # is) sector =
    fbind (\<lambda>s. case block_write_sectors (vdev (vol s)) (sector + of_nat i) 1 (sector_buf s) (world s) of
                 (n, w') \<Rightarrow> Inr (Some (), s\<lparr>world := w'\<rparr>)) (\<lambda>_.
    write_zeros is sector)"

text \<open>The result is an \<open>int\<close> in the code, which its caller converts back to 32 bits unsigned.\<close>

definition fat_alloc_next_cluster :: "u32 \<Rightarrow> bool \<Rightarrow> ('w, u32) io" where
  "fat_alloc_next_cluster cluster clear = eio_as (- 5)
    (fbind (fget vol) (\<lambda>h.
     fbind (fat_get_next_cluster cluster) (\<lambda>next.
     if next \<noteq> fat_eoc h then fret next
     else
       fbind fat_find_free_cluster (\<lambda>next.
       if next = 0 then fret 0
       else
         fbind (fat_set_next_cluster next (fat_eoc h)) (\<lambda>_.
         fbind (fat_set_next_cluster cluster next) (\<lambda>_.
         if clear then
           fbind FAT_FLUSH_SECTOR (\<lambda>_.
           fbind (buf_mod 0 (unat (bytes_per_sector h))
             (\<lambda>b i. if i < unat (bytes_per_sector h) then 0 else b i)) (\<lambda>_.
           fbind (write_zeros [0..<unat (sectors_per_cluster h)] (fat_first_sector_of_cluster h next)) (\<lambda>_.
           fret next)))
         else fret next))))))"

text \<open>A chain may be cyclic: the loop carries fuel.\<close>

fun fat_chain_unlink :: "nat \<Rightarrow> u32 \<Rightarrow> int \<Rightarrow> ('w, int) io" where
  "fat_chain_unlink 0 cluster r = fault No_Return"
| "fat_chain_unlink (Suc fuel) cluster r =
    fbind (fget vol) (\<lambda>h.
    if cluster \<noteq> 0 \<and> cluster \<noteq> fat_eoc h then
      fbind (fat_get_next_cluster cluster) (\<lambda>next.
      fbind (fat_set_next_cluster cluster 0) (\<lambda>e.
      fat_chain_unlink fuel next (r OR e)))
    else fret r)"

section \<open>Seeking\<close>

definition SEEK_SET :: int where "SEEK_SET = 0"
definition SEEK_CUR :: int where "SEEK_CUR = 1"
definition SEEK_END :: int where "SEEK_END = 2"

definition cluster_bytes :: "'w fat_vol_handle \<Rightarrow> u32" where
  "cluster_bytes h = ucast (sectors_per_cluster h) * ucast (bytes_per_sector h)"

text \<open>The walk along the chain; fuel \<open>offset\<close> is enough unless a cluster has no bytes.\<close>

fun seek_loop :: "nat \<Rightarrow> u32 \<Rightarrow> u32 \<Rightarrow> u32 \<Rightarrow> ('w, u32) io" where
  "seek_loop 0 csize offset c = (if offset \<ge> csize then fault No_Return else fret c)"
| "seek_loop (Suc fuel) csize offset c =
    (if offset \<ge> csize then fbind (fat_get_next_cluster c) (seek_loop fuel csize (offset - csize)) else fret c)"

definition fat_lseek :: "fat_file_handle \<Rightarrow> u32 \<Rightarrow> int \<Rightarrow> ('w, u32 \<times> fat_file_handle) io" where
  "fat_lseek h offset whence =
    (let h = h\<lparr>cur_cluster := first_cluster h\<rparr> in
     if whence \<noteq> SEEK_SET \<and> whence \<noteq> SEEK_CUR \<and> whence \<noteq> SEEK_END then fret (-1, h)
     else
       let offset = (if whence = SEEK_CUR then offset + position h
                     else if whence = SEEK_END then offset + fsize h else offset);
           offset = (if fsize h \<noteq> 0 \<and> offset > fsize h then fsize h else offset);
           h = h\<lparr>position := offset\<rparr>
       in if root_flag h then fret (position h, h)
          else fbind (fget (\<lambda>s. cluster_bytes (vol s))) (\<lambda>csize.
               fbind (seek_loop (unat offset) csize offset (cur_cluster h)) (\<lambda>c.
               fret (position h, h\<lparr>cur_cluster := c\<rparr>))))"

definition fat_file_sector_offset :: "'w fat_vol_handle \<Rightarrow> fat_file_handle \<Rightarrow> (u32 \<times> u16) result" where
  "fat_file_sector_offset v h =
    rbind (guard Div_By_Zero (bytes_per_sector v \<noteq> 0)) (\<lambda>_.
    let bps = ucast (bytes_per_sector v) :: u32 in
    rbind (if root_flag h then Inr (cur_cluster h + position h div bps)
           else rbind (guard Div_By_Zero (sectors_per_cluster v \<noteq> 0)) (\<lambda>_.
                Inr (fat_first_sector_of_cluster v (cur_cluster h) +
                     position h div bps mod ucast (sectors_per_cluster v)))) (\<lambda>sector.
    Inr (sector, ucast (position h mod bps))))"

section \<open>Reading\<close>

text \<open>
  The result of a read: the value of the C function, the bytes put into the caller's buffer so
  far, and the handle. A failed macro returns \<open>-EIO\<close> with the handle as it is then.
\<close>

fun fat_read_loop ::
  "nat \<Rightarrow> int \<Rightarrow> int \<Rightarrow> u32 \<Rightarrow> u16 \<Rightarrow> u8 list \<Rightarrow> fat_file_handle \<Rightarrow> ('w, int \<times> u8 list \<times> fat_file_handle) io" where
  "fat_read_loop 0 i sz sector offset data h = fault No_Return"
| "fat_read_loop (Suc fuel) i sz sector offset data h =
    (if i < sz then
      fbind (fget vol) (\<lambda>v.
      let bps = uint (bytes_per_sector v); chunk = (of_int (min (bps - uint offset) (sz - i)) :: u16) in
      fbind (ftry (FAT_GET_SECTOR sector)) (\<lambda>r.
      case r of None \<Rightarrow> fret (- EIO, data, h) | Some _ \<Rightarrow>
      fbind (buf_get (unat offset) (unat chunk) (\<lambda>b. map b [unat offset..<unat offset + unat chunk])) (\<lambda>bytes.
      let data = data @ bytes; h = h\<lparr>position := position h + ucast chunk\<rparr>; i = i + uint chunk in
      if position h mod ucast (bytes_per_sector v) \<noteq> 0 then fret (i, data, h)
      else if root_flag h then fat_read_loop fuel i sz (sector + 1) 0 data h
      else
        fbind (fguard Div_By_Zero (sectors_per_cluster v \<noteq> 0)) (\<lambda>_.
        let spc = ucast (sectors_per_cluster v) in
        if (sector + 1) mod spc - first_data_sector v mod spc = 0 then
          fbind (fat_get_next_cluster (cur_cluster h)) (\<lambda>c.
          let h = h\<lparr>cur_cluster := c\<rparr> in
          if c = fat_eoc v then fret (i, data, h)
          else fat_read_loop fuel i sz (fat_first_sector_of_cluster v c) 0 data h)
        else fat_read_loop fuel i sz (sector + 1) 0 data h))))
     else fret (i, data, h))"

definition fat_read :: "fat_file_handle \<Rightarrow> int \<Rightarrow> ('w, int \<times> u8 list \<times> fat_file_handle) io" where
  "fat_read h sz =
    fbind (fget vol) (\<lambda>v.
    fbind (lift (fat_file_sector_offset v h)) (\<lambda>(sector, offset).
    let sz = (if fsize h \<noteq> 0 \<and> position h + of_int sz > fsize h then sint (fsize h - position h) else sz) in
    fat_read_loop (Suc (nat sz)) 0 sz sector offset [] h))"

end
