(* ===== verification/Fat_Table.thy ===== *)
theory Fat_Table
  imports Fat_Core
begin

text \<open>
  The allocation table as an array of entries. \<open>entry_get\<close> and \<open>entry_put\<close> are the entry formats on
  a plain array of bytes; the first part proves that entries do not disturb each other, the 12-bit
  ones, which share bytes, included. The second part proves that the code, with its cache and its
  entries split over two sectors, computes exactly these on what the file system sees.
\<close>

section \<open>Entries in an array of bytes\<close>

definition entry_off :: "fat_type \<Rightarrow> nat \<Rightarrow> nat" where
  "entry_off t c = (case t of FAT_TYPE_FAT12 \<Rightarrow> c + c div 2 | FAT_TYPE_FAT16 \<Rightarrow> 2 * c | FAT_TYPE_FAT32 \<Rightarrow> 4 * c)"

definition entry_len :: "fat_type \<Rightarrow> nat" where
  "entry_len t = (case t of FAT_TYPE_FAT32 \<Rightarrow> 4 | _ \<Rightarrow> 2)"

definition entry_get :: "fat_type \<Rightarrow> (nat \<Rightarrow> u8) \<Rightarrow> nat \<Rightarrow> u32" where
  "entry_get t f c =
    (let k = entry_off t c in
     case t of
       FAT_TYPE_FAT12 \<Rightarrow> (if odd c then drop_bit 4 (ucast (get_le16 f k)) else ucast (get_le16 f k) AND 0xFFF)
     | FAT_TYPE_FAT16 \<Rightarrow> ucast (get_le16 f k)
     | FAT_TYPE_FAT32 \<Rightarrow> get_le32 f k AND 0x0FFFFFFF)"

definition entry_put :: "fat_type \<Rightarrow> (nat \<Rightarrow> u8) \<Rightarrow> nat \<Rightarrow> u32 \<Rightarrow> nat \<Rightarrow> u8" where
  "entry_put t f c v =
    (let k = entry_off t c in
     case t of
       FAT_TYPE_FAT12 \<Rightarrow> put_le16 k (if odd c then push_bit 4 (ucast v) OR (get_le16 f k AND 0xF)
                                   else (ucast v AND 0x0FFF) OR (get_le16 f k AND 0xF000)) f
     | FAT_TYPE_FAT16 \<Rightarrow> put_le16 k (ucast v) f
     | FAT_TYPE_FAT32 \<Rightarrow> put_le32 k ((v AND 0x0FFFFFFF) OR (get_le32 f k AND 0xF0000000)) f)"

text \<open>The bits of a value that an entry holds.\<close>

definition entry_mask :: "fat_type \<Rightarrow> u32" where
  "entry_mask t = (case t of FAT_TYPE_FAT12 \<Rightarrow> 0xFFF | FAT_TYPE_FAT16 \<Rightarrow> 0xFFFF | FAT_TYPE_FAT32 \<Rightarrow> 0x0FFFFFFF)"

lemma masks: "(0xF :: u16) = mask 4" "(0xFFF :: u16) = mask 12" "(0xFFF :: u32) = mask 12" "(0xFFFF :: u32) = mask 16"
  "(0x0FFFFFFF :: u32) = mask 28" "(0xF000 :: u16) = push_bit 12 (mask 4)" "(0xF0000000 :: u32) = push_bit 28 (mask 4)"
  by (simp_all add: mask_eq_exp_minus_1)

lemma bit_le16: "bit (get_le16 f k) n \<longleftrightarrow> (if n < 8 then bit (f k) n else n < 16 \<and> bit (f (k + 1)) (n - 8))"
proof -
  have big: "bit (f j) i \<Longrightarrow> i < 8" for i j using bit_imp_le_length [of "f j" i] by simp
  have "get_le16 f k = ucast (f k) OR push_bit 8 (ucast (f (k + 1)))"
    unfolding get_le16_def by (rule disjunctive_add) (auto simp: bit_simps dest!: big)
  moreover have "\<not> n < 8 \<Longrightarrow> \<not> bit (f k) n" by (auto dest: big)
  ultimately show ?thesis by (cases "n < 8") (auto simp: bit_simps)
qed

lemma get_put_le16_nat: "get_le16 (put_le16 k v f) (k :: nat) = v"
  by (rule get_put_le16) simp_all

lemma get_put_le32_nat: "get_le32 (put_le32 k v f) (k :: nat) = v"
  by (rule get_put_le32) simp

lemma entry_get_put: "entry_get t (entry_put t f c v) c = v AND entry_mask t"
proof (cases t)
  case FAT_TYPE_FAT12
  show ?thesis
    by (rule bit_word_eqI)
      (auto simp: FAT_TYPE_FAT12 entry_get_def entry_put_def entry_mask_def Let_def get_put_le16_nat masks bit_simps)
next
  case FAT_TYPE_FAT16
  show ?thesis
    by (rule bit_word_eqI)
      (auto simp: FAT_TYPE_FAT16 entry_get_def entry_put_def entry_mask_def Let_def get_put_le16_nat masks bit_simps)
next
  case FAT_TYPE_FAT32
  show ?thesis
    by (rule bit_word_eqI)
      (auto simp: FAT_TYPE_FAT32 entry_get_def entry_put_def entry_mask_def Let_def get_put_le32_nat masks bit_simps)
qed

text \<open>Two 12-bit entries that share a byte: each keeps the other's half.\<close>

lemma nat_off12: "entry_off FAT_TYPE_FAT12 (2 * n) = 3 * n" "entry_off FAT_TYPE_FAT12 (Suc (2 * n)) = Suc (3 * n)"
  by (simp_all add: entry_off_def)

lemma put12_bytes:
  "put_le16 k (push_bit 4 v OR (get_le16 f k AND 0xF)) f (k :: nat) AND 0xF = f k AND 0xF"
  "put_le16 k ((v AND 0x0FFF) OR (get_le16 f k AND 0xF000)) f (k + 1) AND 0xF0 = f (k + 1) AND 0xF0"
proof -
  have m: "(0xF :: u8) = mask 4" "(0xF0 :: u8) = push_bit 4 (mask 4)" by (simp_all add: mask_eq_exp_minus_1)
  have m16: "(0xff :: u16) = mask 8" by (simp add: mask_eq_exp_minus_1)
  show "put_le16 k (push_bit 4 v OR (get_le16 f k AND 0xF)) f k AND 0xF = f k AND 0xF"
    by (rule bit_word_eqI) (auto simp: put_le16_def m m16 masks bit_simps bit_le16)
  show "put_le16 k ((v AND 0x0FFF) OR (get_le16 f k AND 0xF000)) f (k + 1) AND 0xF0 = f (k + 1) AND 0xF0"
    by (rule bit_word_eqI) (auto simp: put_le16_def m m16 masks bit_simps bit_le16)
qed

text \<open>Writing an entry leaves every other entry as it was.\<close>

lemma get_le16_and: "get_le16 f k AND 0xFFF = ucast (f k) OR push_bit 8 (ucast (f (k + 1) AND 0xF))"
proof -
  have big: "bit (f j) i \<Longrightarrow> i < 8" for i j using bit_imp_le_length [of "f j" i] by simp
  have m: "(0xF :: u8) = mask 4" by (simp add: mask_eq_exp_minus_1)
  show ?thesis by (rule bit_word_eqI) (auto simp: m masks bit_simps bit_le16 dest: big)
qed

lemma get_le16_shift: "drop_bit 4 (get_le16 f k) = ucast (drop_bit 4 (f k AND 0xF0)) OR push_bit 4 (ucast (f (k + 1)))"
proof -
  have big: "bit (f j) i \<Longrightarrow> i < 8" for i j using bit_imp_le_length [of "f j" i] by simp
  have m: "(0xF0 :: u8) = push_bit 4 (mask 4)" by (simp add: mask_eq_exp_minus_1)
  show ?thesis by (rule bit_word_eqI) (auto simp: m bit_simps bit_le16 dest: big)
qed

lemma entry_get12:
  "entry_get FAT_TYPE_FAT12 f c =
    (let k = entry_off FAT_TYPE_FAT12 c in
     ucast (if odd c then ucast (drop_bit 4 (f k AND 0xF0)) OR push_bit 4 (ucast (f (k + 1)))
            else ucast (f k) OR push_bit 8 (ucast (f (k + 1) AND 0xF)) :: u16))"
proof -
  have "ucast (w AND 0xFFF :: u16) = (ucast w AND 0xFFF :: u32)" for w
    by (rule bit_word_eqI) (auto simp: masks bit_simps)
  moreover have "ucast (drop_bit 4 w :: u16) = (drop_bit 4 (ucast w) :: u32)" for w
    using bit_imp_le_length [of w] by (intro bit_word_eqI) (fastforce simp: bit_simps)
  ultimately have "entry_get FAT_TYPE_FAT12 f c =
      ucast (if odd c then drop_bit 4 (get_le16 f (entry_off FAT_TYPE_FAT12 c))
             else get_le16 f (entry_off FAT_TYPE_FAT12 c) AND 0xFFF)"
    by (simp add: entry_get_def Let_def)
  then show ?thesis unfolding get_le16_and get_le16_shift Let_def .
qed

lemma entry_get_other12:
  assumes "c \<noteq> c'" shows "entry_get FAT_TYPE_FAT12 (entry_put FAT_TYPE_FAT12 f c v) c' = entry_get FAT_TYPE_FAT12 f c'"
proof -
  let ?k = "entry_off FAT_TYPE_FAT12 c" and ?k' = "entry_off FAT_TYPE_FAT12 c'"
  let ?f = "entry_put FAT_TYPE_FAT12 f c v"
  have out: "?f x = f x" if "x \<noteq> ?k" "x \<noteq> ?k + 1" for x
    using that by (simp add: entry_put_def Let_def put_le16_outside)
  have lo: "odd c \<Longrightarrow> ?f ?k AND 0xF = f ?k AND 0xF" and hi: "even c \<Longrightarrow> ?f (?k + 1) AND 0xF0 = f (?k + 1) AND 0xF0"
    using put12_bytes by (simp_all add: entry_put_def Let_def)
  have off: "entry_off FAT_TYPE_FAT12 x = 3 * (x div 2) + x mod 2" for x
    unfolding entry_off_def using div_mult_mod_eq [of x 2] by simp
  consider "c div 2 \<noteq> c' div 2" | "c div 2 = c' div 2" "even c" "odd c'" | "c div 2 = c' div 2" "odd c" "even c'"
    using assms by (metis div_mult_mod_eq even_iff_mod_2_eq_zero odd_iff_mod_2_eq_one)
  then show ?thesis
  proof cases
    case 1
    then have "?k' + i \<noteq> ?k + j" if "i < 2" "j < 2" for i j
    proof -
      have "3 * a' + (r' + i) \<noteq> 3 * a + (r + j)" if "a \<noteq> a'" "r' + i < 3" "r + j < 3" for a a' r r' :: nat
        using that by linarith
      moreover have "c mod 2 + j < 3" "c' mod 2 + i < 3"
        using that mod_less_divisor [of 2 c] mod_less_divisor [of 2 c'] by linarith+
      ultimately show ?thesis using 1 unfolding off by (simp add: add.assoc)
    qed
    from this [of 0 0] this [of 0 1] this [of 1 0] this [of 1 1]
    have "?f ?k' = f ?k'" "?f (?k' + 1) = f (?k' + 1)" by (simp_all add: out)
    then show ?thesis unfolding entry_get12 Let_def by simp
  next
    case 2
    then have "?k' = ?k + 1" by (simp add: off odd_iff_mod_2_eq_one even_iff_mod_2_eq_zero)
    with hi [OF 2(2)] out [of "?k' + 1"] 2(3) show ?thesis unfolding entry_get12 Let_def by simp
  next
    case 3
    then have "?k = ?k' + 1" by (simp add: off odd_iff_mod_2_eq_one even_iff_mod_2_eq_zero)
    with lo [OF 3(2)] out [of ?k'] 3(3) show ?thesis unfolding entry_get12 Let_def by simp
  qed
qed

lemma entry_get_other: "c \<noteq> c' \<Longrightarrow> entry_get t (entry_put t f c v) c' = entry_get t f c'"
proof (cases t)
  case FAT_TYPE_FAT12
  then show "c \<noteq> c' \<Longrightarrow> ?thesis" by (simp add: entry_get_other12)
next
  case FAT_TYPE_FAT16
  assume "c \<noteq> c'"
  then have "2 * c' + i \<noteq> 2 * c + j" if "i < 2" "j < 2" for i j using that by presburger
  from this [of 0 0] this [of 0 1] this [of 1 0] this [of 1 1] show ?thesis
    by (simp add: FAT_TYPE_FAT16 entry_get_def entry_put_def entry_off_def get_le16_def put_le16_outside)
next
  case FAT_TYPE_FAT32
  assume "c \<noteq> c'"
  then have ne: "4 * c' + i \<noteq> 4 * c + j" if "i < 4" "j < 4" for i j using that by presburger
  have "get_le32 (put_le32 (4 * c) w f) (4 * c') = get_le32 f (4 * c')" for w
    by (rule get_le32_cong, rule put_le32_outside) (use ne in simp)
  then show ?thesis by (simp add: FAT_TYPE_FAT32 entry_get_def entry_put_def entry_off_def Let_def)
qed

end
