(* ===== verification/Fat_View.thy ===== *)
theory Fat_View
  imports Fat_Table
begin

text \<open>
  The code that reads and changes the allocation table computes the plain table operations of
  Fat_Table on the sectors the file system sees, on every copy of the table, whatever is in the
  cache and wherever the entries lie. Proved for any block device that works, in \<open>block_dev\<close>,
  and stated for the ramdisk.
\<close>

section \<open>The table of a volume\<close>

definition table_sector :: "'w fat_vol_handle \<Rightarrow> nat \<Rightarrow> nat \<Rightarrow> u32" where
  "table_sector h i q = ucast (reserved_sector_count h) + of_nat i * fat_size h + of_nat q"

definition table_byte :: "'w fat_vol_handle \<Rightarrow> nat \<Rightarrow> (u32 \<Rightarrow> sector) \<Rightarrow> nat \<Rightarrow> u8" where
  "table_byte h i V k = V (table_sector h i (k div 512)) (k mod 512)"

text \<open>The volume has sectors of 512 bytes and its tables lie in the first \<open>nsec\<close> sectors.\<close>

definition table_ok :: "nat \<Rightarrow> 'w fat_vol_handle \<Rightarrow> bool" where
  "table_ok nsec h \<longleftrightarrow> bytes_per_sector h = 512 \<and> 0 < num_fats h \<and> nsec \<le> 2 ^ 32 \<and>
    unat (reserved_sector_count h) + unat (num_fats h) * unat (fat_size h) \<le> nsec"

definition valid_cluster :: "'w fat_vol_handle \<Rightarrow> u32 \<Rightarrow> bool" where
  "valid_cluster h c \<longleftrightarrow>
    unat c < (if vtype h = FAT_TYPE_FAT32 then 2 ^ 28 else 2 ^ 16) \<and>
    entry_off (vtype h) (unat c) + entry_len (vtype h) \<le> 512 * unat (fat_size h)"

lemma table_sector_unat:
  assumes "table_ok nsec h" "i < unat (num_fats h)" "q < unat (fat_size h)"
  shows "unat (table_sector h i q) = unat (reserved_sector_count h) + i * unat (fat_size h) + q"
    and "unat (table_sector h i q) < nsec"
proof -
  have "Suc i * unat (fat_size h) \<le> unat (num_fats h) * unat (fat_size h)"
    using assms(2) by (intro mult_le_mono1) simp
  then have b: "unat (reserved_sector_count h) + i * unat (fat_size h) + q < nsec"
    using assms(1,3) by (simp add: table_ok_def)
  then have w: "unat (reserved_sector_count h) + i * unat (fat_size h) + q < 2 ^ 32"
    using assms(1) by (simp add: table_ok_def)
  have "i < 2 ^ 8" using assms(2) unsigned_less [where 'a = nat, of "num_fats h"] by simp
  then have "table_sector h i q = of_nat (unat (reserved_sector_count h) + i * unat (fat_size h) + q)"
    by (simp add: table_sector_def)
  then have "unat (table_sector h i q) = unat (reserved_sector_count h) + i * unat (fat_size h) + q"
    using w by (simp only: unat_of_nat_u32)
  with b show "unat (table_sector h i q) = unat (reserved_sector_count h) + i * unat (fat_size h) + q"
    "unat (table_sector h i q) < nsec" by simp_all
qed

lemma table_sector_inj:
  assumes "table_ok nsec h" "i < unat (num_fats h)" "q < unat (fat_size h)"
    "i' < unat (num_fats h)" "q' < unat (fat_size h)" "table_sector h i q = table_sector h i' q'"
  shows "i = i' \<and> q = q'"
proof -
  have "i * unat (fat_size h) + q = i' * unat (fat_size h) + q'"
    using table_sector_unat(1) [OF assms(1-3)] table_sector_unat(1) [OF assms(1,4,5)] assms(6) by simp
  then have "(i * unat (fat_size h) + q) div unat (fat_size h) = (i' * unat (fat_size h) + q') div unat (fat_size h)"
    "(i * unat (fat_size h) + q) mod unat (fat_size h) = (i' * unat (fat_size h) + q') mod unat (fat_size h)"
    by simp_all
  then show ?thesis using assms(3,5) by simp
qed

lemma fat_place_table:
  assumes "bytes_per_sector h = 512" "i < 256"
  shows "fat_place h (of_nat i) offset = (table_sector h i (unat offset div 512), of_nat (unat offset mod 512))"
proof -
  have "(ucast (of_nat i :: u8) :: u32) = of_nat i"
    using assms(2) by (simp add: unsigned_of_nat take_bit_nat_eq_self)
  moreover have "offset div 512 = of_nat (unat offset div 512)" "offset mod 512 = of_nat (unat offset mod 512)"
    by (simp_all add: word_arith_nat_div word_arith_nat_mod)
  ultimately show ?thesis by (simp add: fat_place_def table_sector_def assms(1))
qed

lemma unat_mod512: "unat (of_nat (k mod 512) :: u32) = k mod 512"
  by (rule unat_of_nat_u32) (rule less_trans [OF mod_less_divisor], simp_all)

text \<open>The offset of an entry, as each routine computes it.\<close>

lemma fat_offset_unat:
  assumes "valid_cluster h c"
  shows "unat (fat_offset (vtype h) c) = entry_off (vtype h) (unat c)"
    and "vtype h = FAT_TYPE_FAT32 \<Longrightarrow> unat (c * 4) = entry_off (vtype h) (unat c)"
    and "vtype h = FAT_TYPE_FAT16 \<Longrightarrow> unat (ucast (ucast c :: u16) * 2 :: u32) = entry_off (vtype h) (unat c)"
    and "vtype h = FAT_TYPE_FAT12 \<Longrightarrow>
      unat (ucast (ucast c :: u16) + ucast ((ucast c :: u16) div 2) :: u32) = entry_off (vtype h) (unat c)"
proof -
  have c: "unat (ucast c :: u16) = unat c" if "vtype h \<noteq> FAT_TYPE_FAT32"
    using assms that by (intro unat_ucast_small) (simp add: valid_cluster_def)
  show "unat (fat_offset (vtype h) c) = entry_off (vtype h) (unat c)"
    using assms by (cases "vtype h") (auto simp: valid_cluster_def fat_offset_def entry_off_def unat_word_ariths unat_div)
  show "vtype h = FAT_TYPE_FAT32 \<Longrightarrow> unat (c * 4) = entry_off (vtype h) (unat c)"
    using assms by (simp add: valid_cluster_def entry_off_def unat_word_ariths)
  show "vtype h = FAT_TYPE_FAT16 \<Longrightarrow> unat (ucast (ucast c :: u16) * 2 :: u32) = entry_off (vtype h) (unat c)"
    using assms c by (simp add: valid_cluster_def entry_off_def unat_word_ariths)
  show "unat (ucast (ucast c :: u16) + ucast ((ucast c :: u16) div 2) :: u32) = entry_off (vtype h) (unat c)"
    if "vtype h = FAT_TYPE_FAT12"
  proof -
    have "unat c < 65536" using assms that by (simp add: valid_cluster_def)
    then have "unat c div 2 < 65536" "unat c + unat c div 2 < 4294967296" by linarith+
    then show ?thesis using that c by (simp add: entry_off_def unat_word_ariths unat_div)
  qed
qed

section \<open>One sector\<close>

context block_dev
begin

lemma same_viewD: "\<lbrakk> same_view s t; unat n < nsec \<rbrakk> \<Longrightarrow> same_sector (view s n) (view t n)"
  by (simp add: same_view_def)

text \<open>Read a sector, change it in the buffer, mark it.\<close>

lemma rmw_ok:
  assumes "cache_ok s" "unat n < nsec" "off + len \<le> 512"
  obtains s' b where
    "fbind (FAT_GET_SECTOR n) (\<lambda>_. fbind (buf_mod off len f) (\<lambda>_. fbind (FAT_PUT_SECTOR n) k)) s = k () s'"
    "cache_ok s'" "vol s' = vol s" "same_sector b (view s n)" "view s' n = f b"
    "\<And>m. \<lbrakk> m \<noteq> n; unat m < nsec \<rbrakk> \<Longrightarrow> same_sector (view s' m) (view s m)"
    "c_bldev s' = Some dev" "c_sector s' = n"
proof -
  obtain t where t: "FAT_GET_SECTOR n s = Inr (Some (), t)" "cache_ok t" "same_view t s"
    "c_bldev t = Some dev" "c_sector t = n" "vol t = vol s"
    using get_ok [OF assms(1,2)] by metis
  note p = put_ok [OF t(2,4,5) assms(2), where b = "f (sector_buf t)"]
  let ?s = "t\<lparr>sector_buf := f (sector_buf t), c_dirty := True\<rparr>"
  have buf: "sector_buf t = view t n" using t(4,5) by (simp add: view_def)
  show ?thesis
  proof (rule that [of ?s "view t n"])
    show "fbind (FAT_GET_SECTOR n) (\<lambda>_. fbind (buf_mod off len f) (\<lambda>_. fbind (FAT_PUT_SECTOR n) k)) s = k () ?s"
      using assms(3) by (simp add: t(1) fbind_def fguard_def fmod_def buf_mod_def MAX_SECTOR_SIZE_def p(1))
    show "view ?s n = f (view t n)" using p(3) buf by simp
    show "\<And>m. \<lbrakk> m \<noteq> n; unat m < nsec \<rbrakk> \<Longrightarrow> same_sector (view ?s m) (view s m)"
      using p(4) same_viewD [OF t(3)] by (metis same_sector_def)
    show "same_sector (view t n) (view s n)" using same_viewD [OF t(3) assms(2)] .
  qed (use p(2) t in simp_all)
qed

text \<open>The same, read as a change of the bytes of one copy of the table.\<close>

lemma table_rmw:
  assumes "cache_ok s" "table_ok nsec (vol s)" "i < unat (num_fats (vol s))" "q < unat (fat_size (vol s))"
    and "off + len \<le> 512" "\<And>b b'. same_sector b b' \<Longrightarrow> same_sector (f b) (f b')"
  defines "n \<equiv> table_sector (vol s) i q"
  obtains s' where
    "fbind (FAT_GET_SECTOR n) (\<lambda>_. fbind (buf_mod off len f) (\<lambda>_. fbind (FAT_PUT_SECTOR n) k)) s = k () s'"
    "cache_ok s'" "vol s' = vol s"
    "\<forall>j<512. table_byte (vol s) i (view s') (512 * q + j) = f (\<lambda>j. table_byte (vol s) i (view s) (512 * q + j)) j"
    "\<forall>x. x < 512 * unat (fat_size (vol s)) \<longrightarrow> x div 512 \<noteq> q \<longrightarrow>
           table_byte (vol s) i (view s') x = table_byte (vol s) i (view s) x"
    "\<forall>m. m \<noteq> n \<longrightarrow> unat m < nsec \<longrightarrow> same_sector (view s' m) (view s m)"
proof -
  note n = table_sector_unat [OF assms(2-4)]
  obtain s' b where s': "fbind (FAT_GET_SECTOR n) (\<lambda>_. fbind (buf_mod off len f) (\<lambda>_. fbind (FAT_PUT_SECTOR n) k)) s = k () s'"
    "cache_ok s'" "vol s' = vol s" "same_sector b (view s n)" "view s' n = f b"
    "\<And>m. \<lbrakk> m \<noteq> n; unat m < nsec \<rbrakk> \<Longrightarrow> same_sector (view s' m) (view s m)"
    using rmw_ok [OF assms(1) _ assms(5), of n f k] n(2) unfolding n_def by metis
  show ?thesis
  proof (rule that [OF s'(1-3)])
    have "same_sector b (\<lambda>j. table_byte (vol s) i (view s) (512 * q + j))"
      using s'(4) by (simp add: same_sector_def table_byte_def n_def)
    from assms(6) [OF this] show "\<forall>j<512. table_byte (vol s) i (view s') (512 * q + j) =
        f (\<lambda>j. table_byte (vol s) i (view s) (512 * q + j)) j"
      using s'(5) by (simp add: table_byte_def same_sector_def n_def)
    show "\<forall>m. m \<noteq> n \<longrightarrow> unat m < nsec \<longrightarrow> same_sector (view s' m) (view s m)" using s'(6) by blast
    show "\<forall>x. x < 512 * unat (fat_size (vol s)) \<longrightarrow> x div 512 \<noteq> q \<longrightarrow>
        table_byte (vol s) i (view s') x = table_byte (vol s) i (view s) x"
    proof (intro allI impI)
      fix x assume x: "x < 512 * unat (fat_size (vol s))" "x div 512 \<noteq> q"
      then have q: "x div 512 < unat (fat_size (vol s))" by (simp add: less_mult_imp_div_less mult.commute)
      then have "table_sector (vol s) i (x div 512) \<noteq> n"
        using table_sector_inj [OF assms(2,3) q assms(3,4)] x(2) by (auto simp: n_def)
      from s'(6) [OF this table_sector_unat(2) [OF assms(2,3) q]]
      show "table_byte (vol s) i (view s') x = table_byte (vol s) i (view s) x"
        by (simp add: table_byte_def same_sector_def)
    qed
  qed
qed

end

section \<open>Changing an entry\<close>

lemma put_le16_shift: "put_le16 p v (\<lambda>j. F (B + j)) j = put_le16 (B + p) v F (B + j :: nat)"
  by (simp add: put_le16_def)

lemma get_le16_shifted: "get_le16 (\<lambda>j. F (B + j)) p = get_le16 F (B + p :: nat)"
  by (simp add: get_le16_def)

lemma put_le32_shift: "put_le32 p v (\<lambda>j. F (B + j)) j = put_le32 (B + p) v F (B + j :: nat)"
  by (simp add: put_le32_def put_le16_def)

lemma get_le32_shifted: "get_le32 (\<lambda>j. F (B + j)) p = get_le32 F (B + p :: nat)"
  by (simp add: get_le32_def get_le16_def)

lemma same_get16: "\<lbrakk> same_sector b b'; p + 2 \<le> 512 \<rbrakk> \<Longrightarrow> get_le16 b p = get_le16 b' p"
  by (simp add: same_sector_def get_le16_def)

lemma same_get32: "\<lbrakk> same_sector b b'; p + 4 \<le> 512 \<rbrakk> \<Longrightarrow> get_le32 b p = get_le32 b' p"
  by (rule get_le32_cong) (simp add: same_sector_def)

lemma same_put16: "same_sector b b' \<Longrightarrow> same_sector (put_le16 p v b) (put_le16 p v b')"
  by (simp add: same_sector_def put_le16_def)

lemma same_put32: "same_sector b b' \<Longrightarrow> same_sector (put_le32 p v b) (put_le32 p v b')"
  by (simp add: put_le32_def same_put16)

text \<open>An entry that does not cross a sector boundary, as a change of a sector and of the table.\<close>

definition entry_in_sector :: "fat_type \<Rightarrow> nat \<Rightarrow> u32 \<Rightarrow> nat \<Rightarrow> buffer \<Rightarrow> buffer" where
  "entry_in_sector t c v p b =
    (case t of
       FAT_TYPE_FAT12 \<Rightarrow> put_le16 p (if odd c then push_bit 4 (ucast v) OR (get_le16 b p AND 0xF)
                                   else (ucast v AND 0x0FFF) OR (get_le16 b p AND 0xF000)) b
     | FAT_TYPE_FAT16 \<Rightarrow> put_le16 p (ucast v) b
     | FAT_TYPE_FAT32 \<Rightarrow> put_le32 p ((v AND 0x0FFFFFFF) OR (get_le32 b p AND 0xF0000000)) b)"

lemma entry_in_sector_eqs:
  "entry_in_sector FAT_TYPE_FAT32 c v p =
     (\<lambda>b. put_le32 p ((v AND 0x0FFFFFFF) OR (get_le32 b p AND 0xF0000000)) b)"
  "entry_in_sector FAT_TYPE_FAT16 c v p = put_le16 p (ucast v)"
  "entry_in_sector FAT_TYPE_FAT12 c v p = (\<lambda>b. put_le16 p
     (if odd c then push_bit 4 (ucast v) OR (get_le16 b p AND 0xF)
      else (ucast v AND 0x0FFF) OR (get_le16 b p AND 0xF000)) b)"
  by (simp_all add: entry_in_sector_def fun_eq_iff)

lemma entry_in_sector_local:
  "\<lbrakk> same_sector b b'; p + entry_len t \<le> 512 \<rbrakk> \<Longrightarrow> same_sector (entry_in_sector t c v p b) (entry_in_sector t c v p b')"
  by (cases t) (simp_all add: entry_in_sector_def entry_len_def same_get16 [of b b'] same_get32 [of b b'] same_put16 same_put32)

lemma entry_in_sector_put:
  "entry_off t c = B + p \<Longrightarrow> entry_in_sector t c v p (\<lambda>j. F (B + j)) j = entry_put t F c v (B + j)"
  by (cases t) (simp_all add: entry_in_sector_def entry_put_def Let_def put_le16_shift put_le32_shift
      get_le16_shifted get_le32_shifted)

lemma entry_put_outside:
  assumes "\<not> (entry_off t c \<le> x \<and> x < entry_off t c + entry_len t)"
  shows "entry_put t F c v x = F x"
  using assms by (cases t)
    (auto simp: entry_put_def entry_len_def Let_def intro!: put_le16_outside put_le32_outside)

context block_dev
begin

definition sets_entry :: "'w fs \<Rightarrow> nat \<Rightarrow> u32 \<Rightarrow> u32 \<Rightarrow> 'w fs \<Rightarrow> bool" where
  "sets_entry s i c v s' \<longleftrightarrow> cache_ok s' \<and> vol s' = vol s \<and>
    (\<forall>x < 512 * unat (fat_size (vol s)).
       table_byte (vol s) i (view s') x = entry_put (vtype (vol s)) (table_byte (vol s) i (view s)) (unat c) v x) \<and>
    (\<forall>m. unat m < nsec \<longrightarrow> (\<forall>q < unat (fat_size (vol s)). m \<noteq> table_sector (vol s) i q) \<longrightarrow>
       same_sector (view s' m) (view s m))"

lemma set_in_sector:
  assumes "cache_ok s" "table_ok nsec (vol s)" "i < unat (num_fats (vol s))" "valid_cluster (vol s) c"
  defines "o' \<equiv> entry_off (vtype (vol s)) (unat c)" and "len \<equiv> entry_len (vtype (vol s))"
  assumes "o' mod 512 + len \<le> 512"
  defines "n \<equiv> table_sector (vol s) i (o' div 512)"
  obtains s' where "fbind (FAT_GET_SECTOR n) (\<lambda>_.
      fbind (buf_mod (o' mod 512) len (entry_in_sector (vtype (vol s)) (unat c) v (o' mod 512))) (\<lambda>_.
      fbind (FAT_PUT_SECTOR n) k)) s = k () s'" "sets_entry s i c v s'"
proof -
  let ?t = "vtype (vol s)" and ?F = "table_byte (vol s) i (view s)"
  have len: "0 < len" by (simp add: len_def entry_len_def split: fat_type.split)
  have "o' + len \<le> 512 * unat (fat_size (vol s))" using assms(4) by (simp add: valid_cluster_def o'_def len_def)
  then have q: "o' div 512 < unat (fat_size (vol s))" using len by (simp add: less_mult_imp_div_less mult.commute)
  have o': "o' = 512 * (o' div 512) + o' mod 512" by simp
  have local: "same_sector b b' \<Longrightarrow> same_sector (entry_in_sector ?t (unat c) v (o' mod 512) b)
      (entry_in_sector ?t (unat c) v (o' mod 512) b')" for b b'
    using assms(7) entry_in_sector_local [of b b' "o' mod 512" ?t] by (simp add: len_def)
  obtain s' where s': "fbind (FAT_GET_SECTOR n) (\<lambda>_.
      fbind (buf_mod (o' mod 512) len (entry_in_sector ?t (unat c) v (o' mod 512))) (\<lambda>_.
      fbind (FAT_PUT_SECTOR n) k)) s = k () s'" "cache_ok s'" "vol s' = vol s"
    "\<forall>j<512. table_byte (vol s) i (view s') (512 * (o' div 512) + j) =
       entry_in_sector ?t (unat c) v (o' mod 512) (\<lambda>j. ?F (512 * (o' div 512) + j)) j"
    "\<forall>x. x < 512 * unat (fat_size (vol s)) \<longrightarrow> x div 512 \<noteq> o' div 512 \<longrightarrow>
       table_byte (vol s) i (view s') x = ?F x"
    "\<forall>m. m \<noteq> n \<longrightarrow> unat m < nsec \<longrightarrow> same_sector (view s' m) (view s m)"
    by (rule table_rmw [OF assms(1-3) q assms(7), folded n_def,
          where f = "entry_in_sector ?t (unat c) v (o' mod 512)" and k = k, OF local]) (assumption | rule that)+
  have "table_byte (vol s) i (view s') x = entry_put ?t ?F (unat c) v x"
    if x: "x < 512 * unat (fat_size (vol s))" for x
  proof (cases "x div 512 = o' div 512")
    case True
    then have xd: "x = 512 * (o' div 512) + x mod 512" by (metis mult_div_mod_eq)
    have "entry_in_sector ?t (unat c) v (o' mod 512) (\<lambda>j. ?F (512 * (o' div 512) + j)) (x mod 512) =
        entry_put ?t ?F (unat c) v (512 * (o' div 512) + x mod 512)"
      by (rule entry_in_sector_put) (simp add: o'_def)
    with s'(4) [rule_format, of "x mod 512"] show ?thesis unfolding xd [symmetric] by simp
  next
    case False
    have "\<not> (o' \<le> x \<and> x < o' + len)"
    proof
      assume "o' \<le> x \<and> x < o' + len"
      then have "512 * (o' div 512) \<le> x" "x < 512 * (o' div 512) + 512" using o' assms(7) by linarith+
      then have "x div 512 = o' div 512" by (intro div_nat_eqI) simp_all
      with False show False ..
    qed
    then have "entry_put ?t ?F (unat c) v x = ?F x" unfolding o'_def len_def by (rule entry_put_outside)
    with s'(5) x False show ?thesis by simp
  qed
  moreover have "same_sector (view s' m) (view s m)"
    if "unat m < nsec" "\<forall>q < unat (fat_size (vol s)). m \<noteq> table_sector (vol s) i q" for m
    using s'(6) that q by (auto simp: n_def)
  ultimately have "sets_entry s i c v s'" using s'(2,3) by (simp add: sets_entry_def)
  with s'(1) show ?thesis by (rule that)
qed

end

text \<open>A 12-bit entry over two sectors: one byte in each.\<close>

lemma put12_split:
  fixes v :: u16
  assumes "entry_off FAT_TYPE_FAT12 c = k"
  shows "odd c \<Longrightarrow> entry_put FAT_TYPE_FAT12 F c w =
      F(k := (F k AND 0x0F) OR ucast (push_bit 4 (ucast w :: u16) AND 0xF0), k + 1 := ucast (drop_bit 8 (push_bit 4 (ucast w :: u16))))"
    and "even c \<Longrightarrow> entry_put FAT_TYPE_FAT12 F c w =
      F(k := ucast ((ucast w :: u16) AND 0xFF), k + 1 := (F (k + 1) AND 0xF0) OR ucast (drop_bit 8 (ucast w :: u16) AND 0x0F))"
proof -
  have m: "(0xF :: u8) = mask 4" "(0xF0 :: u8) = push_bit 4 (mask 4)" "(0xFF :: u16) = mask 8"
    "(0xF0 :: u16) = push_bit 4 (mask 4)" by (simp_all add: mask_eq_exp_minus_1)
  have ev: "ucast ((push_bit 4 (ucast w) OR (get_le16 F k AND 0xF)) AND 0xff :: u16) =
      (F k AND 0x0F) OR (ucast (push_bit 4 (ucast w :: u16) AND 0xF0) :: u8)"
    "ucast (drop_bit 8 (push_bit 4 (ucast w) OR (get_le16 F k AND 0xF) :: u16)) =
      (ucast (drop_bit 8 (push_bit 4 (ucast w :: u16))) :: u8)"
    "ucast (((ucast w AND 0x0FFF) OR (get_le16 F k AND 0xF000)) AND 0xff :: u16) = (ucast ((ucast w :: u16) AND 0xFF) :: u8)"
    "ucast (drop_bit 8 ((ucast w AND 0x0FFF) OR (get_le16 F k AND 0xF000) :: u16)) =
      (F (k + 1) AND 0xF0) OR (ucast (drop_bit 8 (ucast w :: u16) AND 0x0F) :: u8)"
    by (rule bit_word_eqI; auto simp: m masks bit_simps bit_le16)+
  show "odd c \<Longrightarrow> entry_put FAT_TYPE_FAT12 F c w =
      F(k := (F k AND 0x0F) OR ucast (push_bit 4 (ucast w :: u16) AND 0xF0), k + 1 := ucast (drop_bit 8 (push_bit 4 (ucast w :: u16))))"
    using ev by (simp add: entry_put_def assms put_le16_def)
  show "even c \<Longrightarrow> entry_put FAT_TYPE_FAT12 F c w =
      F(k := ucast ((ucast w :: u16) AND 0xFF), k + 1 := (F (k + 1) AND 0xF0) OR ucast (drop_bit 8 (ucast w :: u16) AND 0x0F))"
    using ev by (simp add: entry_put_def assms put_le16_def)
qed

context block_dev
begin

lemma byte_rmw:
  assumes "cache_ok s" "table_ok nsec (vol s)" "i < unat (num_fats (vol s))" "q < unat (fat_size (vol s))" "p < 512"
  defines "n \<equiv> table_sector (vol s) i q" and "F \<equiv> table_byte (vol s) i (view s)"
  obtains s' where
    "fbind (FAT_GET_SECTOR n) (\<lambda>_. fbind (buf_mod p 1 (\<lambda>b. b(p := g (b p)))) (\<lambda>_. fbind (FAT_PUT_SECTOR n) k)) s = k () s'"
    "cache_ok s'" "vol s' = vol s"
    "\<forall>x < 512 * unat (fat_size (vol s)). table_byte (vol s) i (view s') x = (F(512 * q + p := g (F (512 * q + p)))) x"
    "\<forall>m. m \<noteq> n \<longrightarrow> unat m < nsec \<longrightarrow> same_sector (view s' m) (view s m)"
proof -
  have local: "same_sector b b' \<Longrightarrow> same_sector (b(p := g (b p))) (b'(p := g (b' p)))" for b b'
    using assms(5) by (simp add: same_sector_def)
  have len: "p + 1 \<le> 512" using assms(5) by simp
  obtain s' where s':
    "fbind (FAT_GET_SECTOR n) (\<lambda>_. fbind (buf_mod p 1 (\<lambda>b. b(p := g (b p)))) (\<lambda>_. fbind (FAT_PUT_SECTOR n) k)) s = k () s'"
    "cache_ok s'" "vol s' = vol s"
    "\<forall>j<512. table_byte (vol s) i (view s') (512 * q + j) =
      ((\<lambda>j. F (512 * q + j))(p := g (F (512 * q + p)))) j"
    "\<forall>x. x < 512 * unat (fat_size (vol s)) \<longrightarrow> x div 512 \<noteq> q \<longrightarrow> table_byte (vol s) i (view s') x = F x"
    "\<forall>m. m \<noteq> n \<longrightarrow> unat m < nsec \<longrightarrow> same_sector (view s' m) (view s m)"
    unfolding F_def
    by (rule table_rmw [OF assms(1-4) len, folded n_def,
          where f = "\<lambda>b. b(p := g (b p))" and k = k, OF local]) (assumption | rule that)+
  have "table_byte (vol s) i (view s') x = (F(512 * q + p := g (F (512 * q + p)))) x"
    if "x < 512 * unat (fat_size (vol s))" for x
  proof (cases "x div 512 = q")
    case True
    then have "x = 512 * q + x mod 512" by (metis mult_div_mod_eq)
    with s'(4) [rule_format, of "x mod 512"] show ?thesis by (auto simp: fun_upd_def)
  next
    case False
    then have "x \<noteq> 512 * q + p" using assms(5) by auto
    with s'(5) that False show ?thesis by simp
  qed
  with s'(1-3,6) that show ?thesis by blast
qed

end

context block_dev
begin

lemma num_fats_256: "i < unat (num_fats h) \<Longrightarrow> i < 256"
  using unsigned_less [where 'a = nat, of "num_fats h"] by simp

lemma set32_ok:
  assumes "cache_ok s" "table_ok nsec (vol s)" "i < unat (num_fats (vol s))" "valid_cluster (vol s) c"
    and t: "vtype (vol s) = FAT_TYPE_FAT32"
  obtains s' where "fat32_set_next_cluster (of_nat i) c v s = Inr (Some 0, s')" "sets_entry s i c v s'"
proof -
  let ?o = "entry_off FAT_TYPE_FAT32 (unat c)"
  have bps: "bytes_per_sector (vol s) = 512" using assms(2) by (simp add: table_ok_def)
  note place = fat_place_table [OF bps num_fats_256 [OF assms(3)], of "c * 4",
      unfolded fat_offset_unat(2) [OF assms(4) t, unfolded t]]
  have "?o mod 512 + 4 \<le> 512"
    using mult_mod_right [of 4 "unat c" 128] mod_less_divisor [of 128 "unat c"] by (simp add: entry_off_def)
  then obtain s' where s': "fbind (FAT_GET_SECTOR (table_sector (vol s) i (?o div 512))) (\<lambda>_.
      fbind (buf_mod (?o mod 512) 4 (entry_in_sector FAT_TYPE_FAT32 (unat c) v (?o mod 512))) (\<lambda>_.
      fbind (FAT_PUT_SECTOR (table_sector (vol s) i (?o div 512))) (\<lambda>_. fret 0))) s = Inr (Some (0 :: int), s')"
    "sets_entry s i c v s'"
    by (rule set_in_sector [OF assms(1-4), unfolded t entry_len_def fat_type.case,
          where v = v and k = "\<lambda>_. fret (0 :: int)", unfolded fret_def]) (assumption | rule that [unfolded fret_def])+
  show ?thesis
  proof (rule that [OF _ s'(2)])
    show "fat32_set_next_cluster (of_nat i) c v s = Inr (Some 0, s')"
      unfolding fat32_set_next_cluster_def
      by (rule eio_as_Some) (use s'(1) in \<open>simp add: bps place Let_def unat_mod512 entry_in_sector_eqs\<close>)
  qed
qed

lemma set16_ok:
  assumes "cache_ok s" "table_ok nsec (vol s)" "i < unat (num_fats (vol s))" "valid_cluster (vol s) c"
    and t: "vtype (vol s) = FAT_TYPE_FAT16"
  obtains s' where "fat16_set_next_cluster (of_nat i) (ucast c) (ucast v) s = Inr (Some 0, s')" "sets_entry s i c v s'"
proof -
  let ?o = "entry_off FAT_TYPE_FAT16 (unat c)"
  have bps: "bytes_per_sector (vol s) = 512" using assms(2) by (simp add: table_ok_def)
  note place = fat_place_table [OF bps num_fats_256 [OF assms(3)], of "ucast (ucast c :: u16) * 2",
      unfolded fat_offset_unat(3) [OF assms(4) t, unfolded t]]
  have "?o mod 512 + 2 \<le> 512"
    using mult_mod_right [of 2 "unat c" 256] mod_less_divisor [of 256 "unat c"] by (simp add: entry_off_def)
  then obtain s' where s': "fbind (FAT_GET_SECTOR (table_sector (vol s) i (?o div 512))) (\<lambda>_.
      fbind (buf_mod (?o mod 512) 2 (entry_in_sector FAT_TYPE_FAT16 (unat c) v (?o mod 512))) (\<lambda>_.
      fbind (FAT_PUT_SECTOR (table_sector (vol s) i (?o div 512))) (\<lambda>_. fret 0))) s = Inr (Some (0 :: int), s')"
    "sets_entry s i c v s'"
    by (rule set_in_sector [OF assms(1-4), unfolded t entry_len_def fat_type.case,
          where v = v and k = "\<lambda>_. fret (0 :: int)", unfolded fret_def]) (assumption | rule that [unfolded fret_def])+
  show ?thesis
  proof (rule that [OF _ s'(2)])
    show "fat16_set_next_cluster (of_nat i) (ucast c) (ucast v) s = Inr (Some 0, s')"
      unfolding fat16_set_next_cluster_def
      by (rule eio_as_Some) (use s'(1) in \<open>simp add: bps place Let_def unat_mod512 entry_in_sector_eqs\<close>)
  qed
qed

lemma odd_ucast: "(ucast (c :: u32) :: u16) AND 1 \<noteq> 0 \<longleftrightarrow> odd (unat c)"
proof -
  have "odd (ucast c :: u16) \<longleftrightarrow> odd (unat c)"
    by (simp only: flip: bit_0) (simp add: bit_simps)
  then show ?thesis by (simp add: and_one_eq mod_2_eq_odd)
qed

end

lemma offset_511: "(of_nat (k mod 512) :: u32) = 511 \<longleftrightarrow> k mod 512 = 511"
proof -
  have "(of_nat (k mod 512) :: u32) = 511 \<longleftrightarrow> unat (of_nat (k mod 512) :: u32) = unat (511 :: u32)"
    by (simp only: word_unat_eq_iff)
  then show ?thesis unfolding unat_mod512 by simp
qed

context block_dev
begin

lemma set12_crossing:
  fixes v :: u32
  assumes "cache_ok s" "table_ok nsec (vol s)" "i < unat (num_fats (vol s))" "valid_cluster (vol s) c"
    and t: "vtype (vol s) = FAT_TYPE_FAT12"
  defines "o' \<equiv> entry_off FAT_TYPE_FAT12 (unat c)"
  assumes "o' mod 512 = 511"
  defines "n \<equiv> table_sector (vol s) i (o' div 512)" and "F \<equiv> table_byte (vol s) i (view s)"
  assumes g: "entry_put FAT_TYPE_FAT12 F (unat c) v = F(o' := g1 (F o'), o' + 1 := g2 (F (o' + 1)))"
  obtains s' where "fbind (FAT_GET_SECTOR n) (\<lambda>_. fbind (buf_mod 511 1 (\<lambda>b. b(511 := g1 (b 511)))) (\<lambda>_.
      fbind (FAT_PUT_SECTOR n) (\<lambda>_. fbind (FAT_GET_SECTOR (n + 1)) (\<lambda>_.
      fbind (buf_mod 0 1 (\<lambda>b. b(0 := g2 (b 0)))) (\<lambda>_. fbind (FAT_PUT_SECTOR (n + 1)) k))))) s = k () s'"
    "sets_entry s i c v s'"
proof -
  let ?q = "o' div 512" and ?fs = "unat (fat_size (vol s))"
  have o': "o' = 512 * ?q + 511" using assms(7) by (metis mult_div_mod_eq)
  have "o' + 2 \<le> 512 * ?fs" using assms(4) by (simp add: valid_cluster_def o'_def t entry_len_def)
  then have q: "?q < ?fs" "?q + 1 < ?fs" using o' by linarith+
  have n1: "n + 1 = table_sector (vol s) i (?q + 1)" by (simp add: n_def table_sector_def)
  define k2 where "k2 = (\<lambda>_ :: unit. fbind (FAT_GET_SECTOR (n + 1)) (\<lambda>_.
      fbind (buf_mod 0 1 (\<lambda>b. b(0 := g2 (b 0)))) (\<lambda>_. fbind (FAT_PUT_SECTOR (n + 1)) k)))"
  obtain s1 where s1: "fbind (FAT_GET_SECTOR n) (\<lambda>_. fbind (buf_mod 511 1 (\<lambda>b. b(511 := g1 (b 511)))) (\<lambda>_.
      fbind (FAT_PUT_SECTOR n) k2)) s = k2 () s1" "cache_ok s1" "vol s1 = vol s"
    "\<forall>x < 512 * ?fs. table_byte (vol s) i (view s1) x = (F(o' := g1 (F o'))) x"
    "\<forall>m. m \<noteq> n \<longrightarrow> unat m < nsec \<longrightarrow> same_sector (view s1 m) (view s m)"
    using byte_rmw [OF assms(1-3) q(1), of 511 g1 k2] unfolding n_def F_def o' [symmetric] by auto
  have "table_ok nsec (vol s1)" "i < unat (num_fats (vol s1))" "?q + 1 < unat (fat_size (vol s1))"
    using assms(2,3) q(2) s1(3) by simp_all
  from byte_rmw [OF s1(2) this, of 0 g2 k] n1 s1(3) obtain s2 where
    s2: "k2 () s1 = k () s2" "cache_ok s2" "vol s2 = vol s1"
    "\<forall>x < 512 * ?fs. table_byte (vol s) i (view s2) x =
       ((table_byte (vol s) i (view s1))(512 * (?q + 1) := g2 (table_byte (vol s) i (view s1) (512 * (?q + 1))))) x"
    "\<forall>m. m \<noteq> n + 1 \<longrightarrow> unat m < nsec \<longrightarrow> same_sector (view s2 m) (view s1 m)"
    unfolding k2_def by auto
  have o1: "512 * (?q + 1) = o' + 1" using o' by simp
  have "table_byte (vol s) i (view s2) x = entry_put FAT_TYPE_FAT12 F (unat c) v x" if "x < 512 * ?fs" for x
    using s2(4) s1(4) that \<open>o' + 2 \<le> 512 * ?fs\<close> unfolding g o1 by simp
  moreover have "same_sector (view s2 m) (view s m)" if "unat m < nsec" "\<forall>q < ?fs. m \<noteq> table_sector (vol s) i q" for m
    using s1(5) s2(5) that q n1 same_sector_trans [of "view s2 m" "view s1 m" "view s m"] by (auto simp: n_def)
  ultimately have "sets_entry s i c v s2" using s2(2,3) s1(3) by (simp add: sets_entry_def F_def t)
  moreover have "fbind (FAT_GET_SECTOR n) (\<lambda>_. fbind (buf_mod 511 1 (\<lambda>b. b(511 := g1 (b 511)))) (\<lambda>_.
      fbind (FAT_PUT_SECTOR n) k2)) s = k () s2" using s1(1) s2(1) by simp
  ultimately show ?thesis using that unfolding k2_def by blast
qed

end

context block_dev
begin

lemma set12_ok:
  assumes "cache_ok s" "table_ok nsec (vol s)" "i < unat (num_fats (vol s))" "valid_cluster (vol s) c"
    and t: "vtype (vol s) = FAT_TYPE_FAT12"
  obtains s' where "fat12_set_next_cluster (of_nat i) (ucast c) (ucast v) s = Inr (Some 0, s')" "sets_entry s i c v s'"
proof -
  let ?o = "entry_off FAT_TYPE_FAT12 (unat c)" and ?F = "table_byte (vol s) i (view s)" and ?v = "ucast v :: u16"
  let ?n = "table_sector (vol s) i (?o div 512)"
  have bps: "bytes_per_sector (vol s) = 512" using assms(2) by (simp add: table_ok_def)
  note place = fat_place_table [OF bps num_fats_256 [OF assms(3)], of "ucast (ucast c :: u16) + ucast ((ucast c :: u16) div 2)",
      unfolded fat_offset_unat(4) [OF assms(4) t, unfolded t]]
  consider "?o mod 512 = 511" "odd (unat c)" | "?o mod 512 = 511" "even (unat c)" | "?o mod 512 \<noteq> 511" by blast
  then show ?thesis
  proof cases
    case 1
    obtain s' where s': "fbind (FAT_GET_SECTOR ?n) (\<lambda>_.
        fbind (buf_mod 511 1 (\<lambda>b. b(511 := (b 511 AND 0x0F) OR ucast (push_bit 4 ?v AND 0xF0)))) (\<lambda>_.
        fbind (FAT_PUT_SECTOR ?n) (\<lambda>_. fbind (FAT_GET_SECTOR (?n + 1)) (\<lambda>_.
        fbind (buf_mod 0 1 (\<lambda>b. b(0 := ucast (drop_bit 8 (push_bit 4 ?v))))) (\<lambda>_.
        fbind (FAT_PUT_SECTOR (?n + 1)) (\<lambda>_. fret 0)))))) s = fret (0 :: int) s'" "sets_entry s i c v s'"
      by (rule set12_crossing [OF assms 1(1), where v = v and k = "\<lambda>_. fret (0 :: int)"
              and ?g1.0 = "\<lambda>y. (y AND 0x0F) OR ucast (push_bit 4 ?v AND 0xF0)"
              and ?g2.0 = "\<lambda>_. ucast (drop_bit 8 (push_bit 4 ?v))",
            OF put12_split(1) [OF refl 1(2)]]) (rule that)
    show ?thesis
    proof (rule that [OF _ s'(2)])
      show "fat12_set_next_cluster (of_nat i) (ucast c) ?v s = Inr (Some 0, s')"
        unfolding fat12_set_next_cluster_def
        by (rule eio_as_Some) (use s'(1) 1 in \<open>simp add: bps place Let_def unat_mod512 offset_511 odd_ucast\<close>)
    qed
  next
    case 2
    obtain s' where s': "fbind (FAT_GET_SECTOR ?n) (\<lambda>_.
        fbind (buf_mod 511 1 (\<lambda>b. b(511 := ucast (?v AND 0xFF)))) (\<lambda>_.
        fbind (FAT_PUT_SECTOR ?n) (\<lambda>_. fbind (FAT_GET_SECTOR (?n + 1)) (\<lambda>_.
        fbind (buf_mod 0 1 (\<lambda>b. b(0 := (b 0 AND 0xF0) OR ucast (drop_bit 8 ?v AND 0x0F)))) (\<lambda>_.
        fbind (FAT_PUT_SECTOR (?n + 1)) (\<lambda>_. fret 0)))))) s = fret (0 :: int) s'" "sets_entry s i c v s'"
      by (rule set12_crossing [OF assms 2(1), where v = v and k = "\<lambda>_. fret (0 :: int)"
              and ?g1.0 = "\<lambda>_. ucast (?v AND 0xFF)"
              and ?g2.0 = "\<lambda>y. (y AND 0xF0) OR ucast (drop_bit 8 ?v AND 0x0F)",
            OF put12_split(2) [OF refl 2(2)]]) (rule that)
    show ?thesis
    proof (rule that [OF _ s'(2)])
      show "fat12_set_next_cluster (of_nat i) (ucast c) ?v s = Inr (Some 0, s')"
        unfolding fat12_set_next_cluster_def
        by (rule eio_as_Some) (use s'(1) 2 in \<open>simp add: bps place Let_def unat_mod512 offset_511 odd_ucast\<close>)
    qed
  next
    case 3
    have "?o mod 512 < 512" by simp
    with 3 have len: "?o mod 512 + 2 \<le> 512" by linarith
    obtain s' where s': "fbind (FAT_GET_SECTOR ?n) (\<lambda>_.
        fbind (buf_mod (?o mod 512) 2 (entry_in_sector FAT_TYPE_FAT12 (unat c) v (?o mod 512))) (\<lambda>_.
        fbind (FAT_PUT_SECTOR ?n) (\<lambda>_. fret 0))) s = fret (0 :: int) s'" "sets_entry s i c v s'"
      by (rule set_in_sector [OF assms(1-4), unfolded t entry_len_def fat_type.case, OF len,
            where v = v and k = "\<lambda>_. fret (0 :: int)"]) (rule that)
    show ?thesis
    proof (rule that [OF _ s'(2)])
      show "fat12_set_next_cluster (of_nat i) (ucast c) ?v s = Inr (Some 0, s')"
        unfolding fat12_set_next_cluster_def
        by (rule eio_as_Some) (use s'(1) 3 in \<open>simp add: bps place Let_def unat_mod512 offset_511 odd_ucast entry_in_sector_eqs cong: if_cong\<close>)
    qed
  qed
qed

definition set_one :: "nat \<Rightarrow> u32 \<Rightarrow> u32 \<Rightarrow> fat_type \<Rightarrow> ('w, int) io" where
  "set_one i c v t =
    (case t of
       FAT_TYPE_FAT12 \<Rightarrow> fat12_set_next_cluster (of_nat i) (ucast c) (ucast v)
     | FAT_TYPE_FAT16 \<Rightarrow> fat16_set_next_cluster (of_nat i) (ucast c) (ucast v)
     | FAT_TYPE_FAT32 \<Rightarrow> fat32_set_next_cluster (of_nat i) c v)"

lemma set_one_ok:
  assumes "cache_ok s" "table_ok nsec (vol s)" "i < unat (num_fats (vol s))" "valid_cluster (vol s) c"
  obtains s' where "set_one i c v (vtype (vol s)) s = Inr (Some 0, s')" "sets_entry s i c v s'"
proof (cases "vtype (vol s)")
  case FAT_TYPE_FAT12
  then show ?thesis using set12_ok [OF assms] that by (auto simp: set_one_def)
next
  case FAT_TYPE_FAT16
  then show ?thesis using set16_ok [OF assms] that by (auto simp: set_one_def)
next
  case FAT_TYPE_FAT32
  then show ?thesis using set32_ok [OF assms] that by (auto simp: set_one_def)
qed

end

lemma entry_get_cong:
  "\<lbrakk> \<And>x. x < L \<Longrightarrow> F x = G x; entry_off t c + entry_len t \<le> L \<rbrakk> \<Longrightarrow> entry_get t F c = entry_get t G c"
  by (cases t) (simp_all add: entry_get_def entry_len_def Let_def get_le16_cong [of F _ G] get_le32_cong [of F _ G])

lemma entry_put_cong:
  assumes "\<And>x. x < L \<Longrightarrow> F x = G x" "entry_off t c + entry_len t \<le> L" "x < L"
  shows "entry_put t F c v x = entry_put t G c v x"
  using assms by (cases t)
    (simp_all add: entry_put_def entry_len_def Let_def put_le32_def put_le16_def get_le16_cong [of F _ G] get_le32_cong [of F _ G])

context block_dev
begin

text \<open>A copy whose sectors are all unchanged.\<close>

lemma table_same:
  assumes "table_ok nsec h" "i < unat (num_fats h)" "x < 512 * unat (fat_size h)"
    and "\<forall>q < unat (fat_size h). same_sector (view s' (table_sector h i q)) (view s (table_sector h i q))"
  shows "table_byte h i (view s') x = table_byte h i (view s) x"
proof -
  have "x div 512 < unat (fat_size h)" using assms(3) by (simp add: less_mult_imp_div_less mult.commute)
  with assms(4) show ?thesis by (simp add: table_byte_def same_sector_def)
qed

definition sets_copies :: "'w fs \<Rightarrow> nat set \<Rightarrow> u32 \<Rightarrow> u32 \<Rightarrow> 'w fs \<Rightarrow> bool" where
  "sets_copies s I c v s' \<longleftrightarrow> cache_ok s' \<and> vol s' = vol s \<and>
    (\<forall>i\<in>I. \<forall>x < 512 * unat (fat_size (vol s)).
       table_byte (vol s) i (view s') x = entry_put (vtype (vol s)) (table_byte (vol s) i (view s)) (unat c) v x) \<and>
    (\<forall>m. unat m < nsec \<longrightarrow> (\<forall>i\<in>I. \<forall>q < unat (fat_size (vol s)). m \<noteq> table_sector (vol s) i q) \<longrightarrow>
       same_sector (view s' m) (view s m))"

lemma set_in_copies_ok:
  "\<lbrakk> cache_ok s; table_ok nsec (vol s); valid_cluster (vol s) c; distinct is;
     \<forall>i\<in>set is. i < unat (num_fats (vol s)) \<rbrakk> \<Longrightarrow>
   \<exists>s'. set_in_copies is c v r s = Inr (Some r, s') \<and> sets_copies s (set is) c v s'"
proof (induction "is" arbitrary: s)
  case Nil
  then show ?case by (simp add: sets_copies_def)
next
  case (Cons i "is")
  let ?h = "vol s" and ?fs = "unat (fat_size (vol s))"
  have i: "i < unat (num_fats ?h)" using Cons.prems(5) by simp
  obtain s1 where s1: "set_one i c v (vtype ?h) s = Inr (Some 0, s1)" "sets_entry s i c v s1"
    using set_one_ok [OF Cons.prems(1,2) i Cons.prems(3)] by metis
  then have v1: "vol s1 = ?h" "cache_ok s1" by (simp_all add: sets_entry_def)
  obtain s' where s': "set_in_copies is c v r s1 = Inr (Some r, s')" "sets_copies s1 (set is) c v s'"
    using Cons.IH [of s1] Cons.prems v1 by auto
  have code: "set_in_copies (i # is) c v r s = Inr (Some r, s')"
    using s1(1) s'(1) by (simp add: fbind_def set_one_def fget_def)
  have other: "same_sector (view s1 (table_sector ?h j q)) (view s (table_sector ?h j q))"
    if "j < unat (num_fats ?h)" "j \<noteq> i" "q < ?fs" for j q
    using s1(2) table_sector_inj [OF Cons.prems(2) that(1,3) i] that(2) table_sector_unat(2) [OF Cons.prems(2) that(1,3)]
    by (auto simp: sets_entry_def)
  have in_entry: "entry_off (vtype ?h) (unat c) + entry_len (vtype ?h) \<le> 512 * ?fs"
    using Cons.prems(3) by (simp add: valid_cluster_def)
  have "table_byte ?h j (view s') x = entry_put (vtype ?h) (table_byte ?h j (view s)) (unat c) v x"
    if j: "j \<in> set (i # is)" and x: "x < 512 * ?fs" for j x
  proof (cases "j = i")
    case True
    have "\<forall>q < ?fs. same_sector (view s' (table_sector ?h i q)) (view s1 (table_sector ?h i q))"
    proof (intro allI impI)
      fix q assume q: "q < ?fs"
      have "\<forall>j\<in>set is. \<forall>q'<?fs. table_sector ?h i q \<noteq> table_sector ?h j q'"
        using table_sector_inj [OF Cons.prems(2) i q] Cons.prems(4,5) by auto
      then show "same_sector (view s' (table_sector ?h i q)) (view s1 (table_sector ?h i q))"
        using s'(2) table_sector_unat(2) [OF Cons.prems(2) i q] v1(1) by (simp add: sets_copies_def)
    qed
    from table_same [OF Cons.prems(2) i x this] s1(2) x True show ?thesis by (simp add: sets_entry_def)
  next
    case False
    with j have j': "j \<in> set is" "j < unat (num_fats ?h)" using Cons.prems(5) by auto
    have "table_byte ?h j (view s1) y = table_byte ?h j (view s) y" if "y < 512 * ?fs" for y
      using table_same [OF Cons.prems(2) j'(2) that] other [OF j'(2) False] by blast
    from entry_put_cong [OF this in_entry x] s'(2) v1(1) j'(1) x show ?thesis by (simp add: sets_copies_def)
  qed
  moreover have "same_sector (view s' m) (view s m)"
    if m: "unat m < nsec" "\<forall>i\<in>set (i # is). \<forall>q < ?fs. m \<noteq> table_sector ?h i q" for m
    using s1(2) s'(2) v1(1) m same_sector_trans [of "view s' m" "view s1 m" "view s m"]
    by (simp add: sets_entry_def sets_copies_def)
  ultimately have "sets_copies s (set (i # is)) c v s'"
    using s'(2) v1(1) by (simp add: sets_copies_def)
  with code show ?case by blast
qed

lemma set_next_ok:
  assumes "cache_ok s" "table_ok nsec (vol s)" "valid_cluster (vol s) c"
  obtains s' where "fat_set_next_cluster c v s = Inr (Some 0, s')" "sets_copies s {..<unat (num_fats (vol s))} c v s'"
proof -
  obtain s' where "set_in_copies [0..<unat (num_fats (vol s))] c v 0 s = Inr (Some 0, s')"
    "sets_copies s (set [0..<unat (num_fats (vol s))]) c v s'"
    using set_in_copies_ok [OF assms, of "[0..<unat (num_fats (vol s))]" v 0] by auto
  then show ?thesis using that by (simp add: fat_set_next_cluster_def atLeast0LessThan)
qed

end

section \<open>Reading an entry\<close>

lemma odd_unat: "(c :: u32) AND 1 \<noteq> 0 \<longleftrightarrow> odd (unat c)"
proof -
  have "odd c \<longleftrightarrow> odd (unat c)" by (simp only: flip: bit_0) (simp add: bit_simps)
  then show ?thesis by (simp add: and_one_eq mod_2_eq_odd)
qed

lemma join_bytes: "ucast (a :: u8) + push_bit 8 (ucast (b :: u8)) = (ucast (ucast a + push_bit 8 (ucast b) :: u16) :: u32)"
proof -
  have big: "bit (w :: u8) i \<Longrightarrow> i < 8" for w i using bit_imp_le_length [of w i] by simp
  have 1: "(ucast a + push_bit 8 (ucast b) :: u32) = ucast a OR push_bit 8 (ucast b)"
    by (rule disjunctive_add) (auto simp: bit_simps dest: big)
  have 2: "(ucast a + push_bit 8 (ucast b) :: u16) = ucast a OR push_bit 8 (ucast b)"
    by (rule disjunctive_add) (auto simp: bit_simps dest: big)
  show ?thesis unfolding 1 2 by (rule bit_word_eqI) (auto simp: bit_simps dest: big)
qed

lemma table_sector_0:
  "ucast (reserved_sector_count h) + offset div 512 = table_sector h 0 (unat offset div 512)"
  "(offset :: u32) mod 512 = of_nat (unat offset mod 512)"
  by (simp_all add: table_sector_def word_arith_nat_div word_arith_nat_mod)

context block_dev
begin

lemma table_get:
  assumes "cache_ok s" "table_ok nsec (vol s)" "q < unat (fat_size (vol s))"
  defines "F \<equiv> table_byte (vol s) 0 (view s)" and "n \<equiv> table_sector (vol s) 0 q"
  obtains s' where "FAT_GET_SECTOR n s = Inr (Some (), s')" "cache_ok s'" "same_view s' s" "vol s' = vol s"
    "\<forall>j<512. sector_buf s' j = F (512 * q + j)"
proof -
  have i: "0 < unat (num_fats (vol s))" using assms(2) by (simp add: table_ok_def word_less_nat_alt)
  have n: "unat n < nsec" unfolding n_def by (rule table_sector_unat(2) [OF assms(2) i assms(3)])
  obtain s' where s': "FAT_GET_SECTOR n s = Inr (Some (), s')" "cache_ok s'" "same_view s' s" "vol s' = vol s"
    "c_bldev s' = Some dev" "c_sector s' = n" using get_ok [OF assms(1) n] by metis
  have "sector_buf s' = view s' n" using s'(5,6) by (simp add: view_def)
  then have "\<forall>j<512. sector_buf s' j = F (512 * q + j)"
    using same_viewD [OF s'(3) n] by (simp add: same_sector_def F_def table_byte_def n_def)
  with s' show ?thesis using that by blast
qed

lemma table_bytes_same_view:
  assumes "same_view s' s" "table_ok nsec h" "i < unat (num_fats h)" "x < 512 * unat (fat_size h)"
  shows "table_byte h i (view s') x = table_byte h i (view s) x"
  by (rule table_same [OF assms(2-4)]) (use same_viewD [OF assms(1)] table_sector_unat(2) [OF assms(2,3)] in blast)

lemma get_next_ok:
  assumes "cache_ok s" "table_ok nsec (vol s)" "valid_cluster (vol s) c"
  obtains s' where "fat_get_next_cluster c s =
      Inr (Some (entry_get (vtype (vol s)) (table_byte (vol s) 0 (view s)) (unat c)), s')"
    "cache_ok s'" "same_view s' s" "vol s' = vol s"
proof -
  let ?t = "vtype (vol s)" and ?F = "table_byte (vol s) 0 (view s)"
  let ?o = "entry_off ?t (unat c)"
  let ?n = "table_sector (vol s) 0 (?o div 512)"
  have bps: "bytes_per_sector (vol s) = 512" using assms(2) by (simp add: table_ok_def)
  have in_entry: "?o + entry_len ?t \<le> 512 * unat (fat_size (vol s))" using assms(3) by (simp add: valid_cluster_def)
  then have q: "?o div 512 < unat (fat_size (vol s))"
    by (intro less_mult_imp_div_less) (cases ?t; simp add: entry_len_def)
  have place: "ucast (reserved_sector_count (vol s)) + fat_offset t c div 512 = table_sector (vol s) 0 (entry_off t (unat c) div 512)"
    "fat_offset t c mod 512 = of_nat (entry_off t (unat c) mod 512)" if "?t = t" for t
    using that fat_offset_unat(1) [OF assms(3)] by (simp_all add: table_sector_0)
  obtain s1 where s1: "FAT_GET_SECTOR ?n s = Inr (Some (), s1)" "cache_ok s1" "same_view s1 s" "vol s1 = vol s"
    "\<forall>j<512. sector_buf s1 j = ?F (512 * (?o div 512) + j)" using table_get [OF assms(1,2) q] by metis
  have o': "512 * (?o div 512) + ?o mod 512 = ?o" by simp
  have o512: "?o mod 512 < 512" by simp
  have b16: "get_le16 (sector_buf s1) (?o mod 512) = get_le16 ?F ?o" if "?o mod 512 + 2 \<le> 512"
    using that s1(5) get_le16_shifted [of ?F "512 * (?o div 512)" "?o mod 512"] o' by (simp add: get_le16_def)
  have b32: "get_le32 (sector_buf s1) (?o mod 512) = get_le32 ?F ?o" if "?o mod 512 + 4 \<le> 512"
  proof -
    have "get_le32 (sector_buf s1) (?o mod 512) = get_le32 (\<lambda>j. ?F (512 * (?o div 512) + j)) (?o mod 512)"
      by (rule get_le32_cong) (use s1(5) that in simp)
    then show ?thesis by (simp only: get_le32_shifted o')
  qed
  have g1: "fbind (FAT_GET_SECTOR (table_sector (vol s) 0 (entry_off t (unat c) div 512))) f s = f () s1" if "?t = t"
    for t and f :: "unit \<Rightarrow> ('w, u32) io"
    using that s1(1) by (simp add: fbind_def)
  note code = bps place Let_def unat_mod512 offset_511 odd_unat entry_get_def fbind_assoc g1
  show ?thesis
  proof (cases "?t = FAT_TYPE_FAT12 \<and> ?o mod 512 = 511")
    case True
    have t: "?t = FAT_TYPE_FAT12" using True by (rule conjunct1)
    have l: "?o mod 512 = 511" using True by (rule conjunct2)
    have "?o + 2 \<le> 512 * unat (fat_size (vol s))" using in_entry by (simp add: t entry_len_def)
    then have q1: "?o div 512 + 1 < unat (fat_size (vol s1))" unfolding s1(4) using o' l by linarith
    have n1: "?n + 1 = table_sector (vol s1) 0 (?o div 512 + 1)" by (simp add: table_sector_def s1(4))
    obtain s2 where s2: "FAT_GET_SECTOR (?n + 1) s1 = Inr (Some (), s2)" "cache_ok s2" "same_view s2 s1" "vol s2 = vol s1"
      "\<forall>j<512. sector_buf s2 j = table_byte (vol s1) 0 (view s1) (512 * (?o div 512 + 1) + j)"
      using table_get [OF s1(2) _ q1] assms(2) s1(4) n1 by metis
    have o1: "512 * (?o div 512 + 1) = ?o + 1" using o' l by simp
    have i: "0 < unat (num_fats (vol s))" using assms(2) by (simp add: table_ok_def word_less_nat_alt)
    have "sector_buf s1 511 = ?F ?o" using s1(5) [rule_format, of 511] o' l by simp
    moreover have "sector_buf s2 0 = ?F (?o + 1)"
    proof -
      have "?o + 1 < 512 * unat (fat_size (vol s))" using in_entry by (simp add: t entry_len_def)
      then have "table_byte (vol s) 0 (view s1) (?o + 1) = ?F (?o + 1)"
        by (rule table_bytes_same_view [OF s1(3) assms(2) i])
      with s2(5) [rule_format, of 0] show ?thesis unfolding o1 s1(4) by simp
    qed
    moreover have "fbind (FAT_GET_SECTOR (?n + 1)) f s1 = f () s2" for f :: "unit \<Rightarrow> ('w, u32) io"
      by (simp add: fbind_def s2(1))
    ultimately have "fat_get_next_cluster c s = Inr (Some (entry_get ?t ?F (unat c)), s2)"
      unfolding fat_get_next_cluster_def
      by (intro eio_as_Some) (use l in \<open>simp add: code t join_bytes get_le16_def\<close>)
    then show ?thesis using that s2 s1 same_view_trans by metis
  next
    case False
    have len: "?t = FAT_TYPE_FAT32 \<Longrightarrow> ?o mod 512 + 4 \<le> 512" "?t \<noteq> FAT_TYPE_FAT32 \<Longrightarrow> ?o mod 512 + 2 \<le> 512"
      using False o512 mult_mod_right [of 4 "unat c" 128] mult_mod_right [of 2 "unat c" 256]
        mod_less_divisor [of 128 "unat c"] mod_less_divisor [of 256 "unat c"]
      by (cases ?t; simp add: entry_off_def; linarith)+
    have "fat_get_next_cluster c s = Inr (Some (entry_get ?t ?F (unat c)), s1)"
      unfolding fat_get_next_cluster_def
      by (rule eio_as_Some, cases ?t) (use False len b16 b32 in \<open>simp_all add: code\<close>)
    then show ?thesis using that s1 by metis
  qed
qed

end

section \<open>Properties\<close>

text \<open>What the file system sees of the ramdisk at \<open>base\<close>, through its cache.\<close>

abbreviation rd_view :: "u64 \<Rightarrow> bytes fs \<Rightarrow> u32 \<Rightarrow> sector" where
  "rd_view base \<equiv> block_dev.view (ramdisk_content base)"

abbreviation rd_ok :: "u64 \<Rightarrow> u64 \<Rightarrow> bytes fs \<Rightarrow> bool" where
  "rd_ok addr base \<equiv> block_dev.cache_ok (ramdisk_device addr base) (ramdisk_content base) rd_sectors"

abbreviation rd_table :: "u64 \<Rightarrow> nat \<Rightarrow> bytes fs \<Rightarrow> nat \<Rightarrow> u8" where
  "rd_table base i s \<equiv> table_byte (vol s) i (rd_view base s)"

text \<open>
  C12: \<open>_fat_get_next_cluster\<close> returns the entry of the first copy of the table as the file system
  sees it, dirty cache included, for all three entry formats and for entries over two sectors; it
  changes nothing that can be seen.
\<close>

theorem get_next_cluster_reads_table:
  assumes "rd_ok addr base s" and "table_ok rd_sectors (vol s)" and "valid_cluster (vol s) c"
  shows "\<exists>s'. fat_get_next_cluster c s =
      Inr (Some (entry_get (vtype (vol s)) (rd_table base 0 s) (unat c)), s') \<and>
    rd_ok addr base s' \<and> vol s' = vol s \<and>
    (\<forall>n. unat n < rd_sectors \<longrightarrow> same_sector (rd_view base s' n) (rd_view base s n))"
proof -
  obtain s' where "fat_get_next_cluster c s =
      Inr (Some (entry_get (vtype (vol s)) (rd_table base 0 s) (unat c)), s')"
    "rd_ok addr base s'" "block_dev.same_view (ramdisk_content base) rd_sectors s' s" "vol s' = vol s"
    by (rule ramdisk.get_next_ok [OF assms])
  then show ?thesis by (auto simp: ramdisk.same_view_def)
qed

text \<open>
  C11: \<open>fat_set_next_cluster\<close> returns 0, makes every copy of the table the one with the entry
  replaced, and leaves every sector outside the tables as it was.
\<close>

theorem set_next_cluster_writes_tables:
  assumes "rd_ok addr base s" and "table_ok rd_sectors (vol s)" and "valid_cluster (vol s) c"
  shows "\<exists>s'. fat_set_next_cluster c v s = Inr (Some 0, s') \<and> rd_ok addr base s' \<and> vol s' = vol s \<and>
    (\<forall>i < unat (num_fats (vol s)). \<forall>x < 512 * unat (fat_size (vol s)).
       rd_table base i s' x = entry_put (vtype (vol s)) (rd_table base i s) (unat c) v x) \<and>
    (\<forall>n. unat n < rd_sectors \<longrightarrow>
       (\<forall>i < unat (num_fats (vol s)). \<forall>q < unat (fat_size (vol s)). n \<noteq> table_sector (vol s) i q) \<longrightarrow>
       same_sector (rd_view base s' n) (rd_view base s n))"
proof -
  obtain s' where "fat_set_next_cluster c v s = Inr (Some 0, s')"
    "block_dev.sets_copies (ramdisk_device addr base) (ramdisk_content base) rd_sectors s {..<unat (num_fats (vol s))} c v s'"
    by (rule ramdisk.set_next_ok [OF assms])
  then show ?thesis by (auto simp: ramdisk.sets_copies_def)
qed

text \<open>
  C13: after an entry is set, the chain reads back the value (the bits the format keeps) there, and
  every other entry as before, also where 12-bit entries share a byte.
\<close>

theorem set_then_get:
  assumes "rd_ok addr base s" and "table_ok rd_sectors (vol s)" and "valid_cluster (vol s) c" and "valid_cluster (vol s) c'"
  shows "\<exists>w s1 s2 s3. fat_get_next_cluster c' s = Inr (Some w, s1) \<and> fat_set_next_cluster c v s = Inr (Some 0, s2) \<and>
    fat_get_next_cluster c' s2 = Inr (Some (if c' = c then v AND entry_mask (vtype (vol s)) else w), s3)"
proof -
  let ?t = "vtype (vol s)" and ?fs = "unat (fat_size (vol s))"
  obtain s1 where s1: "fat_get_next_cluster c' s = Inr (Some (entry_get ?t (rd_table base 0 s) (unat c')), s1)"
    by (rule ramdisk.get_next_ok [OF assms(1,2,4)])
  obtain s2 where s2: "fat_set_next_cluster c v s = Inr (Some 0, s2)"
    "block_dev.sets_copies (ramdisk_device addr base) (ramdisk_content base) rd_sectors s {..<unat (num_fats (vol s))} c v s2"
    by (rule ramdisk.set_next_ok [OF assms(1-3)])
  then have v2: "vol s2 = vol s" "rd_ok addr base s2" by (simp_all add: ramdisk.sets_copies_def)
  have "rd_table base 0 s2 x = entry_put ?t (rd_table base 0 s) (unat c) v x" if "x < 512 * ?fs" for x
    using s2(2) that assms(2) by (simp add: ramdisk.sets_copies_def table_ok_def word_less_nat_alt)
  then have "entry_get ?t (rd_table base 0 s2) (unat c') = entry_get ?t (entry_put ?t (rd_table base 0 s) (unat c) v) (unat c')"
    by (rule entry_get_cong) (assumption, rule assms(4) [unfolded valid_cluster_def, THEN conjunct2])
  then have e: "entry_get ?t (rd_table base 0 s2) (unat c') =
      (if c' = c then v AND entry_mask ?t else entry_get ?t (rd_table base 0 s) (unat c'))"
    using entry_get_other [of "unat c" "unat c'"] by (auto simp: entry_get_put word_unat_eq_iff)
  have "table_ok rd_sectors (vol s2)" "valid_cluster (vol s2) c'" using assms(2,4) v2 by simp_all
  then obtain s3 where "fat_get_next_cluster c' s2 = Inr (Some (entry_get ?t (rd_table base 0 s2) (unat c')), s3)"
    using ramdisk.get_next_ok [OF v2(2), of c'] v2(1) by auto
  then show ?thesis using s1 s2(1) unfolding e by blast
qed

text \<open>A floppy on the ramdisk at 0x82200000, mounted, with an empty cache; entry 341 is over two sectors.\<close>

definition floppy_vol :: "bytes fat_vol_handle" where
  "floppy_vol = (zero_vol (ramdisk_device 4096 0x82200000))\<lparr>bytes_per_sector := 512, sectors_per_cluster := 1,
     reserved_sector_count := 1, num_fats := 2, fat_size := 9, first_data_sector := 33, cluster_count := 2847,
     root_sector_count := 14, root_first_sector := 19, last_cluster_alloc := 2\<rparr>"

definition floppy_fs :: "bytes fs" where
  "floppy_fs = \<lparr>sector_buf = (\<lambda>_. 0), c_bldev = None, c_sector = 0, c_dirty = False, world = (\<lambda>_. 0), vol = floppy_vol\<rparr>"

lemma floppy_cache: "rd_ok 4096 0x82200000 floppy_fs"
  by (simp add: ramdisk.cache_ok_def floppy_fs_def floppy_vol_def zero_vol_def)

lemma floppy_table: "table_ok rd_sectors (vol floppy_fs)"
  "valid_cluster (vol floppy_fs) 341" "valid_cluster (vol floppy_fs) 342" "vtype (vol floppy_fs) = FAT_TYPE_FAT12"
  by (simp_all add: floppy_fs_def floppy_vol_def zero_vol_def table_ok_def valid_cluster_def
      entry_off_def entry_len_def rd_sectors_def)

lemmas floppy_fs_ok = floppy_cache floppy_table

theorem get_next_cluster_reads_table_witness: "\<exists>s'. fat_get_next_cluster 341 floppy_fs = Inr (Some 0, s')"
proof -
  have "rd_table 0x82200000 0 floppy_fs = (\<lambda>_. 0)"
    by (simp add: fun_eq_iff table_byte_def ramdisk.view_def ramdisk_content_def floppy_fs_def)
  with get_next_cluster_reads_table [OF floppy_fs_ok(1-3)] show ?thesis
    by (auto simp: floppy_fs_ok(5) entry_get_def get_le16_def)
qed

theorem set_next_cluster_writes_tables_witness: "\<exists>s'. fat_set_next_cluster 341 0xABC floppy_fs = Inr (Some 0, s') \<and>
    rd_table 0x82200000 1 s' 511 = 0xC0"
proof -
  have "rd_table 0x82200000 i floppy_fs = (\<lambda>_. 0)" for i
    by (simp add: fun_eq_iff table_byte_def ramdisk.view_def ramdisk_content_def floppy_fs_def)
  with set_next_cluster_writes_tables [OF floppy_fs_ok(1-3), of "0xABC"] show ?thesis
    unfolding floppy_fs_ok(5) by (auto simp: floppy_fs_def floppy_vol_def entry_put_def entry_off_def put_le16_def get_le16_def)
qed

theorem set_then_get_witness: "\<exists>s2 s3. fat_set_next_cluster 341 0xABC floppy_fs = Inr (Some 0, s2) \<and>
    fat_get_next_cluster 341 s2 = Inr (Some 0xABC, s3)"
  using set_then_get [OF floppy_fs_ok(1-3) floppy_fs_ok(3), of "0xABC"] by (auto simp: floppy_fs_ok(5) entry_mask_def)

end
