(* ===== verification/Fat_Write.thy ===== *)
theory Fat_Write
  imports Fat_View
begin

text \<open>
  Writing a file: fat_file_sync and fat_write of kernel/fs/write.c. The handle is passed and
  returned by value. The caller's buffer is the list of its bytes.
\<close>

definition O_ASYNC :: u32 where "O_ASYNC = 0x2000"

text \<open>The directory entry has its 32 bytes at \<open>dirent_offset\<close>; the fields are at 20, 26 and 28.\<close>

definition fat_file_sync :: "fat_file_handle \<Rightarrow> ('w, int) io" where
  "fat_file_sync h = eio_as (- EIO)
    (fbind (FAT_GET_SECTOR (dirent_sector h)) (\<lambda>_.
     let p = unat (dirent_offset h) in
     fbind (buf_mod p 32 (\<lambda>b.
       put_le16 (p + 26) (ucast (first_cluster h AND 0xFFFF))
        (put_le16 (p + 20) (ucast (drop_bit 16 (first_cluster h)))
          (put_le32 (p + 28) (fsize h) b)))) (\<lambda>_.
     fbind (FAT_PUT_SECTOR (dirent_sector h)) (\<lambda>_.
     fbind FAT_FLUSH_SECTOR (\<lambda>_. fret 0)))))"

text \<open>
  The loop. The first component of the result says whether a macro returned \<open>-EIO\<close> from the
  function; otherwise the second is the number of bytes written. Unlike \<open>fat_read\<close>, the end of a
  cluster is taken to be where the sector number is a multiple of the cluster size.
\<close>

fun fat_write_loop ::
  "nat \<Rightarrow> int \<Rightarrow> int \<Rightarrow> u32 \<Rightarrow> u16 \<Rightarrow> u8 list \<Rightarrow> fat_file_handle \<Rightarrow> ('w, bool \<times> int \<times> fat_file_handle) io" where
  "fat_write_loop 0 i sz sector offset buf h = fault No_Return"
| "fat_write_loop (Suc fuel) i sz sector offset buf h =
    (if i < sz then
      fbind (fget vol) (\<lambda>v.
      let bps = uint (bytes_per_sector v); chunk = (of_int (min (bps - uint offset) (sz - i)) :: u16);
          p = unat offset; n = unat chunk; k = nat i in
      fbind (ftry (if chunk < bytes_per_sector v then FAT_GET_SECTOR sector else FAT_FLUSH_SECTOR)) (\<lambda>r.
      case r of None \<Rightarrow> fret (True, i, h) | Some _ \<Rightarrow>
      fbind (fguard Out_Of_Bounds (k + n \<le> length buf)) (\<lambda>_.
      fbind (buf_mod p n (\<lambda>b j. if p \<le> j \<and> j < p + n then buf ! (k + (j - p)) else b j)) (\<lambda>_.
      fbind (ftry (FAT_PUT_SECTOR sector)) (\<lambda>r.
      case r of None \<Rightarrow> fret (True, i, h) | Some _ \<Rightarrow>
      let h = h\<lparr>position := position h + ucast chunk\<rparr>; i = i + uint chunk in
      if position h mod ucast (bytes_per_sector v) \<noteq> 0 then fret (False, i, h)
      else if root_flag h then fat_write_loop fuel i sz (sector + 1) 0 buf h
      else
        fbind (fguard Div_By_Zero (sectors_per_cluster v \<noteq> 0)) (\<lambda>_.
        if (sector + 1) mod ucast (sectors_per_cluster v) = 0 then
          fbind (fat_alloc_next_cluster (cur_cluster h) (fsize h = 0)) (\<lambda>c.
          if c = 0 then fret (False, i, h)
          else fat_write_loop fuel i sz (fat_first_sector_of_cluster v c) 0 buf (h\<lparr>cur_cluster := c\<rparr>))
        else fat_write_loop fuel i sz (sector + 1) 0 buf h))))))
     else fret (False, i, h))"

text \<open>The first cluster of an empty file; 0 in the result means that there was none.\<close>

definition fat_first_cluster :: "fat_file_handle \<Rightarrow> int \<Rightarrow> ('w, bool \<times> fat_file_handle) io" where
  "fat_first_cluster h sz =
    (if cur_cluster h = 0 \<and> sz \<noteq> 0 then
       fbind fat_find_free_cluster (\<lambda>c.
       let h = h\<lparr>first_cluster := c\<rparr> in
       if c = 0 then fret (False, h)
       else
         fbind (fget (\<lambda>s. fat_eoc (vol s))) (\<lambda>eoc.
         fbind (fat_set_next_cluster c eoc) (\<lambda>_. fret (True, h\<lparr>cur_cluster := c\<rparr>))))
     else fret (True, h))"

definition fat_write :: "fat_file_handle \<Rightarrow> u8 list \<Rightarrow> int \<Rightarrow> ('w, int \<times> fat_file_handle) io" where
  "fat_write h buf sz =
    fbind (fat_first_cluster h sz) (\<lambda>(ok, h).
    if \<not> ok then fret (0, h)
    else
      let sz = (if root_flag h \<and> position h + of_int sz > fsize h then sint (fsize h - position h) else sz) in
      fbind (fget vol) (\<lambda>v.
      fbind (lift (fat_file_sector_offset v h)) (\<lambda>(sector, offset).
      fbind (fat_write_loop (Suc (nat sz)) 0 sz sector offset buf h) (\<lambda>(failed, i, h).
      if failed then fret (- EIO, h)
      else if dirent_sector h \<noteq> 0 \<and> position h > fsize h then
        let h = h\<lparr>fsize := position h\<rparr> in
        fbind (if fflags h AND O_ASYNC = 0 then fat_file_sync h else fret 0) (\<lambda>_. fret (i, h))
      else fret (i, h)))))"

end
