(* ===== verification/Fat_Dir.thy ===== *)
theory Fat_Dir
  imports Fat_Write
begin

text \<open>
  Directories: kernel/fs/direntry.c and the part of write.c that creates and removes entries. A name
  is the list of the bytes at its address, the final zero and what follows it included, as far as
  they may be read; reading past the list is \<open>Out_Of_Bounds\<close>. The loops over a directory carry
  fuel, as the cluster chain of a directory may be cyclic.
\<close>

type_synonym name = "u8 list"

section \<open>Strings as lists\<close>

text \<open>The character at a position, and the functions of strings.c on lists.\<close>

definition chr :: "name \<Rightarrow> nat \<Rightarrow> u8 result" where
  "chr s i = (if i < length s then Inr (s ! i) else Inl Out_Of_Bounds)"

fun name_length :: "name \<Rightarrow> nat result" where
  "name_length [] = Inl Out_Of_Bounds"
| "name_length (c # s) = (if c = 0 then Inr 0 else rbind (name_length s) (\<lambda>n. Inr (Suc n)))"

fun name_eq :: "name \<Rightarrow> name \<Rightarrow> bool result" where
  "name_eq (a # s) (b # t) = (if a \<noteq> b then Inr False else if a = 0 then Inr True else name_eq s t)"
| "name_eq _ _ = Inl Out_Of_Bounds"

text \<open>\<open>strrchr\<close>: the position after the last occurrence.\<close>

fun name_rchr :: "u8 \<Rightarrow> name \<Rightarrow> nat \<Rightarrow> nat option \<Rightarrow> nat option result" where
  "name_rchr c [] i r = Inl Out_Of_Bounds"
| "name_rchr c (a # s) i r =
    (if a = 0 then Inr r else name_rchr c s (Suc i) (if a = c then Some (Suc i) else r))"

definition up :: "u8 \<Rightarrow> u8" where "up c = ucast (toupper (ucast c))"
definition low :: "u8 \<Rightarrow> u8" where "low c = ucast (tolower (ucast c))"

section \<open>Directory entries\<close>

record dirent =
  d_name :: name
  fat_attr :: u8
  fat_sname :: name

definition FAT_ATTR_VOLUME_ID :: u8 where "FAT_ATTR_VOLUME_ID = 0x08"
definition FAT_ATTR_DIRECTORY :: u8 where "FAT_ATTR_DIRECTORY = 0x10"
definition FAT_ATTR_ARCHIVE :: u8 where "FAT_ATTR_ARCHIVE = 0x20"
definition FAT_ATTR_LONG_NAME :: u8 where "FAT_ATTR_LONG_NAME = 0x0F"
definition FAT_LAST_LONG_ENTRY :: u8 where "FAT_LAST_LONG_ENTRY = 0x40"

definition fat_dirent_chksum :: "u8 list \<Rightarrow> u8" where
  "fat_dirent_chksum dosname =
    foldl (\<lambda>sum c. (if sum AND 1 \<noteq> 0 then 0x80 else 0) + drop_bit 1 sum + c) 0 (take 11 dosname)"

text \<open>
  The characters go to \<open>d_name\<close> from the index \<open>i\<close> on; the result is the code of the C function
  and the buffer. The UTF-16 characters are those at offset \<open>p\<close> of the entry.
\<close>

fun ascii_from_utf16 :: "name \<Rightarrow> int \<Rightarrow> u8 list \<Rightarrow> nat \<Rightarrow> nat \<Rightarrow> (nat \<times> name) result" where
  "ascii_from_utf16 d i e p 0 = Inr (1, d)"
| "ascii_from_utf16 d i e p (Suc n) =
    (let tmp = get_le16 (\<lambda>k. e ! k) p in
     if tmp > 127 then Inr (2, d)
     else rbind (guard Out_Of_Bounds (0 \<le> i \<and> i < int (length d))) (\<lambda>_.
       let d = d[nat i := ucast tmp] in
       if tmp = 0 then Inr (0, d) else ascii_from_utf16 d (i + 1) e (p + 2) n))"

text \<open>A part of a long name: the end of the name, or the buffer and the checksum to go on with.\<close>

definition long_part :: "int \<Rightarrow> u8 list \<Rightarrow> nat \<Rightarrow> nat \<Rightarrow> bool \<times> name \<times> u16 \<Rightarrow> (bool \<times> name \<times> u16) result" where
  "long_part i e p n = (\<lambda>(ended, d, csum).
    if ended then Inr (ended, d, csum)
    else rbind (ascii_from_utf16 d i e p n) (\<lambda>(r, d).
      Inr (r = 0, d, if r = 2 then -1 else csum)))"

definition long_entry :: "u8 list \<Rightarrow> name \<Rightarrow> u16 \<Rightarrow> (name \<times> u16) result" where
  "long_entry e d csum =
    (let ord = e ! 0; sum = ucast (e ! 13) :: u16;
         (d, csum) = (if ord AND FAT_LAST_LONG_ENTRY \<noteq> 0 then (replicate (length d) 0, sum) else (d, csum));
         csum = (if csum \<noteq> sum then -1 else csum);
         i = (int (unat (ord AND 0x3f)) - 1) * 13 in
     rbind (rbind (rbind (long_part i e 1 5 (False, d, csum)) (long_part (i + 5) e 14 6)) (long_part (i + 11) e 28 2))
       (\<lambda>(_, d, csum). Inr (d, csum)))"

text \<open>
  The 8.3 name: \<open>skip_spaces\<close> is the inner loop, which looks at the byte after the name (the
  attribute) when it runs to the end.
\<close>

fun skip_spaces :: "nat \<Rightarrow> u8 list \<Rightarrow> nat \<Rightarrow> nat" where
  "skip_spaces 0 e i = i"
| "skip_spaces (Suc n) e i = (if e ! Suc i = 0x20 \<and> Suc i < 11 then skip_spaces n e (Suc i) else Suc i)"

fun short_loop :: "nat \<Rightarrow> u8 list \<Rightarrow> nat \<Rightarrow> nat \<Rightarrow> name \<Rightarrow> name \<times> nat" where
  "short_loop 0 e i j d = (d, j)"
| "short_loop (Suc n) e i j d =
    (if i < 11 then
       if e ! i = 0x20 then short_loop n e (Suc (skip_spaces 11 e i)) (Suc j) (d[j := 0x2E])
       else short_loop n e (Suc i) (Suc j) (d[j := low (e ! i)])
     else (d, j))"

definition short_name :: "u8 list \<Rightarrow> name \<Rightarrow> name" where
  "short_name e d =
    (let (d, j) = short_loop 12 e 0 0 d;
         d = (if d ! (j - 1) = 0x2E then d[j - 1 := 0] else d)
     in d[j := 0])"

text \<open>One entry of the directory at a time; \<open>-1\<close> at the end.\<close>

fun fat_readdir_loop :: "nat \<Rightarrow> u16 \<Rightarrow> fat_file_handle \<Rightarrow> dirent \<Rightarrow> ('w, int \<times> fat_file_handle \<times> dirent) io" where
  "fat_readdir_loop 0 csum h ent = fault No_Return"
| "fat_readdir_loop (Suc fuel) csum h ent =
    fbind (fat_read h 32) (\<lambda>(n, e, h).
    if n \<noteq> 32 then fret (-1, h, ent)
    else if e ! 0 = 0 then fret (-1, h, ent)
    else if e ! 0 = 0xE5 \<or> e ! 11 = FAT_ATTR_VOLUME_ID then fat_readdir_loop fuel csum h ent
    else if e ! 11 = FAT_ATTR_LONG_NAME then
      fbind (lift (long_entry e (d_name ent) csum)) (\<lambda>(d, csum).
      fat_readdir_loop fuel csum h (ent\<lparr>d_name := d\<rparr>))
    else
      let d = (if csum \<noteq> ucast (fat_dirent_chksum e) then (d_name ent)[0 := 0] else d_name ent);
          d = (if d ! 0 = 0 then short_name e d else d)
      in fret (0, h, \<lparr>d_name = d, fat_attr = e ! 11, fat_sname = take 11 e\<rparr>))"

definition fat_readdir :: "nat \<Rightarrow> fat_file_handle \<Rightarrow> dirent \<Rightarrow> ('w, int \<times> fat_file_handle \<times> dirent) io" where
  "fat_readdir fuel h ent = fat_readdir_loop fuel (-1) h ent"

section \<open>A place for new entries\<close>

fun seek_empty_loop :: "nat \<Rightarrow> int \<Rightarrow> int \<Rightarrow> u32 \<Rightarrow> fat_file_handle \<Rightarrow> ('w, u32 \<times> fat_file_handle) io" where
  "seek_empty_loop 0 i entries pos dir = fault No_Return"
| "seek_empty_loop (Suc fuel) i entries pos dir =
    fbind (fat_read dir 32) (\<lambda>(n, e, dir).
    if n \<noteq> 32 then fret (pos, dir)
    else if e ! 0 = 0 then fret (pos, dir)
    else if e ! 0 = 0xE5 then
      if i + 1 = entries then fret (pos, dir) else seek_empty_loop fuel (i + 1) entries pos dir
    else seek_empty_loop fuel 0 entries (position dir) dir)"

definition fat_dir_seek_empty :: "nat \<Rightarrow> fat_file_handle \<Rightarrow> int \<Rightarrow> ('w, int \<times> fat_file_handle) io" where
  "fat_dir_seek_empty fuel dir entries =
    fbind (fat_lseek dir 0 SEEK_SET) (\<lambda>(_, dir).
    fbind (seek_empty_loop fuel 0 entries 0 dir) (\<lambda>(pos, dir).
    fbind (fat_lseek dir pos SEEK_SET) (\<lambda>(_, dir).
    fret (0, dir))))"

end
