(* ===== verification/Fat_Open.thy ===== *)
theory Fat_Open
  imports Fat_Dir
begin

text \<open>
  Opening, creating and removing files by name: fat_open and its name comparison in
  kernel/fs/direntry.c, the rest of write.c. A function that fills in a handle through a pointer
  returns it as an option, \<open>None\<close> when it was not written. The directory is the current directory
  of the volume, whose handle moves along.
\<close>

section \<open>Comparing names\<close>

text \<open>The canonical 11 bytes of a name, and the position in the name where the loop ended.\<close>

fun canon_loop :: "nat \<Rightarrow> name \<Rightarrow> nat \<Rightarrow> nat \<Rightarrow> u8 list \<Rightarrow> (u8 list \<times> nat) result" where
  "canon_loop 0 s p i canon = Inr (canon, p)"
| "canon_loop (Suc n) s p i canon =
    rbind (chr s p) (\<lambda>c.
    if c = 0 \<or> c = 0x2F then Inr (canon, p)
    else if c = 0x2E \<and> i < 8 then canon_loop n s p (Suc i) canon
    else
      let p = (if c = 0x2E \<and> i = 8 then Suc p else p) in
      rbind (chr s p) (\<lambda>c. canon_loop n s (Suc p) (Suc i) (canon[i := up c])))"

definition fat_comparesfn :: "name \<Rightarrow> u8 list \<Rightarrow> bool result" where
  "fat_comparesfn s fatname =
    rbind (chr s 0) (\<lambda>c.
    rbind (if c = 0x2E then
             rbind (name_length s) (\<lambda>n.
             rbind (guard Out_Of_Bounds (n \<le> 11)) (\<lambda>_. Inr (take n s @ replicate (11 - n) 0x20, n)))
           else canon_loop 11 s 0 0 (replicate 11 0x20)) (\<lambda>(canon, p).
    rbind (chr s p) (\<lambda>c. Inr ((c = 0 \<or> c = 0x2F) \<and> canon = take 11 fatname))))"

section \<open>Opening\<close>

definition with_cwd :: "(fat_file_handle \<Rightarrow> ('w, 'a \<times> fat_file_handle) io) \<Rightarrow> ('w, 'a) io" where
  "with_cwd f =
    fbind (fget (\<lambda>s. cwd (vol s))) (\<lambda>h. fbind (f h) (\<lambda>(x, h). fbind (vol_mod (\<lambda>v. v\<lparr>cwd := h\<rparr>)) (\<lambda>_. fret x)))"

text \<open>The entry that was just read, read again: its position on the disk and the handle it gives.\<close>

definition open_entry :: "u32 \<Rightarrow> ('w, int \<times> fat_file_handle option) io" where
  "open_entry flags =
    fbind (with_cwd (\<lambda>dir. fat_lseek dir (-32) SEEK_CUR)) (\<lambda>_.
    fbind (fget vol) (\<lambda>v.
    fbind (lift (fat_file_sector_offset v (cwd v))) (\<lambda>(sector, offset).
    fbind (with_cwd (\<lambda>dir. fbind (fat_read dir 32) (\<lambda>(n, e, dir). fret ((n, e), dir)))) (\<lambda>(n, e).
    if n \<noteq> 32 then fret (- EIO, None)
    else
      let h = (fat_file_init (\<lambda>k. e ! k))\<lparr>fflags := flags\<rparr> in
      fret (0, Some (if e ! 11 AND FAT_ATTR_DIRECTORY = 0 then h\<lparr>dirent_sector := sector, dirent_offset := offset\<rparr>
                     else if first_cluster h = 0 then fat_file_root v
                     else h))))))"

fun open_loop :: "nat \<Rightarrow> name \<Rightarrow> u32 \<Rightarrow> dirent \<Rightarrow> ('w, int \<times> fat_file_handle option) io" where
  "open_loop 0 nm flags ent = fault No_Return"
| "open_loop (Suc fuel) nm flags ent =
    fbind (with_cwd (\<lambda>dir. fbind (fat_readdir (Suc fuel) dir ent) (\<lambda>(r, dir, ent). fret ((r, ent), dir)))) (\<lambda>(r, ent).
    if r \<noteq> 0 then fret (- ENOENT, None)
    else
      fbind (lift (name_eq nm (d_name ent))) (\<lambda>eq.
      fbind (lift (if eq then Inr True else fat_comparesfn nm (fat_sname ent))) (\<lambda>found.
      if found then open_entry flags else open_loop fuel nm flags ent)))"

text \<open>The \<open>dirent\<close> on the stack is not initialised: it is a parameter.\<close>

definition fat_open :: "nat \<Rightarrow> dirent \<Rightarrow> name \<Rightarrow> u32 \<Rightarrow> ('w, int \<times> fat_file_handle option) io" where
  "fat_open fuel ent nm flags =
    fbind (lift (name_eq nm [0x2E, 0])) (\<lambda>dot.
    if dot then fbind (fget (\<lambda>s. cwd (vol s))) (\<lambda>h. fret (0, Some h))
    else
      fbind (with_cwd (\<lambda>dir. fat_lseek dir 0 SEEK_SET)) (\<lambda>_.
      open_loop fuel nm flags ent))"

text \<open>The handle that \<open>fat_open\<close> fills in is the current directory itself.\<close>

definition fat_chdir :: "nat \<Rightarrow> dirent \<Rightarrow> name \<Rightarrow> ('w, int) io" where
  "fat_chdir fuel ent nm =
    fbind (fat_open fuel ent nm 0) (\<lambda>(r, f).
    fbind (case f of None \<Rightarrow> fret () | Some h \<Rightarrow> vol_mod (\<lambda>v. v\<lparr>cwd := h\<rparr>)) (\<lambda>_. fret r))"

section \<open>Removing\<close>

definition fat_unlink :: "nat \<Rightarrow> dirent \<Rightarrow> name \<Rightarrow> ('w, int) io" where
  "fat_unlink fuel ent nm = eio_as (- EIO)
    (fbind (fat_open fuel ent nm 0) (\<lambda>(r, f).
     case f of None \<Rightarrow> fret r | Some h \<Rightarrow>
     if r \<noteq> 0 then fret r
     else if dirent_sector h = 0 then fret (- EISDIR)
     else
       fbind (fat_chain_unlink fuel (first_cluster h) 0) (\<lambda>_.
       fbind (FAT_GET_SECTOR (dirent_sector h)) (\<lambda>_.
       fbind (buf_mod (unat (dirent_offset h)) 1 (\<lambda>b. b(unat (dirent_offset h) := 0xE5))) (\<lambda>_.
       fbind (FAT_PUT_SECTOR (dirent_sector h)) (\<lambda>_. fret 0))))))"

section \<open>Creating\<close>

fun short_stem :: "nat \<Rightarrow> name \<Rightarrow> nat \<Rightarrow> u8 list \<Rightarrow> (u8 list \<times> nat) result" where
  "short_stem 0 s i sname = Inr (sname, i)"
| "short_stem (Suc n) s i sname =
    rbind (chr s i) (\<lambda>c.
    if c = 0 \<or> c = 0x2E then Inr (sname, i) else short_stem n s (Suc i) (sname[i := up c]))"

text \<open>The suffix starts at \<open>p\<close>; its characters 1 to 3 are taken.\<close>

fun short_suffix :: "nat \<Rightarrow> name \<Rightarrow> nat \<Rightarrow> nat \<Rightarrow> u8 list \<Rightarrow> u8 list result" where
  "short_suffix 0 s p j sname = Inr sname"
| "short_suffix (Suc n) s p j sname =
    rbind (chr s (p + j)) (\<lambda>c.
    if c = 0 then Inr sname else short_suffix n s p (Suc j) (sname[j + 7 := up c]))"

text \<open>
  \<open>suffix - name\<close> is the position of the suffix; the null pointer is at no position of the name.
\<close>

definition build_short_name :: "u8 list \<Rightarrow> name \<Rightarrow> nat \<Rightarrow> u8 list result" where
  "build_short_name sname s n =
    rbind (short_stem 8 s 0 (replicate 11 0x20 @ drop 11 sname)) (\<lambda>(sname, i).
    rbind (name_rchr 0x2E s 0 None) (\<lambda>suffix.
    rbind (case suffix of None \<Rightarrow> Inr sname | Some p \<Rightarrow> short_suffix 3 s p 1 sname) (\<lambda>sname.
    rbind (if i = 8 then rbind (chr s 8) (\<lambda>c. Inr (c \<noteq> 0x2E)) else Inr False) (\<lambda>long.
    if long \<or> suffix \<noteq> Some i then
      let i = min i 6 in Inr (sname[i := 0x7E, Suc i := 0x30 + of_nat (n mod 10)])
    else Inr sname))))"

text \<open>A free short name: the names tried so far, and the handle that a name in use opened.\<close>

fun pick_short_name ::
  "nat list \<Rightarrow> nat \<Rightarrow> dirent \<Rightarrow> name \<Rightarrow> u8 list \<Rightarrow> fat_file_handle option \<Rightarrow> ('w, u8 list \<times> fat_file_handle option) io" where
  "pick_short_name [] fuel ent nm sname f = fret (sname, f)"
| "pick_short_name (i # is) fuel ent nm sname f =
    fbind (lift (build_short_name sname nm i)) (\<lambda>sname.
    fbind (fat_open fuel ent sname 0) (\<lambda>(r, f').
    let f = (case f' of None \<Rightarrow> f | Some _ \<Rightarrow> f') in
    if r \<noteq> 0 then fret (sname, f)
    else pick_short_name is fuel ent nm (sname[0 := 0x20]) f))"

text \<open>A directory entry for 13 characters of the name, the \<open>i\<close>-th from 0.\<close>

fun put_chars :: "name \<Rightarrow> nat \<Rightarrow> nat \<Rightarrow> nat \<Rightarrow> buffer \<Rightarrow> buffer result" where
  "put_chars s k p 0 e = Inr e"
| "put_chars s k p (Suc n) e = rbind (chr s k) (\<lambda>c. put_chars s (Suc k) (p + 2) n (put_le16 p (ucast c) e))"

definition long_dirent :: "name \<Rightarrow> nat \<Rightarrow> bool \<Rightarrow> u8 list \<Rightarrow> buffer \<Rightarrow> buffer result" where
  "long_dirent s i final sname e =
    (let ord = of_nat (i + 1) :: u8 in
     rbind (put_chars s (i * 13) 1 5 (e(0 := if final then ord OR FAT_LAST_LONG_ENTRY else ord))) (\<lambda>e.
     rbind (put_chars s (i * 13 + 5) 14 6 e) (\<lambda>e.
     rbind (put_chars s (i * 13 + 11) 28 2 e) (\<lambda>e.
     Inr (e(13 := fat_dirent_chksum sname))))))"

definition entry_bytes :: "buffer \<Rightarrow> u8 list" where
  "entry_bytes e = map e [0..<32]"

definition write_entry :: "buffer \<Rightarrow> ('w, int) io" where
  "write_entry e = with_cwd (\<lambda>h. fat_write h (entry_bytes e) 32)"

text \<open>From the last part of the name to the first; \<open>False\<close> when a write fell short.\<close>

fun write_long :: "nat list \<Rightarrow> name \<Rightarrow> bool \<Rightarrow> u8 list \<Rightarrow> buffer \<Rightarrow> ('w, bool) io" where
  "write_long [] s final sname e = fret True"
| "write_long (i # is) s final sname e =
    fbind (lift (long_dirent s i final sname e)) (\<lambda>e.
    fbind (write_entry e) (\<lambda>r. if r \<noteq> 32 then fret False else write_long is s False sname e))"

definition short_dirent :: "u8 list \<Rightarrow> u8 \<Rightarrow> buffer" where
  "short_dirent sname attr = (\<lambda>i. if i < 11 then sname ! i else if i = 11 then attr else 0)"

definition put_cluster :: "u32 \<Rightarrow> buffer \<Rightarrow> buffer" where
  "put_cluster c e = put_le16 26 (ucast (c AND 0xFFFF)) (put_le16 20 (ucast (drop_bit 16 c)) e)"

definition fat_dir_create_file :: "nat \<Rightarrow> dirent \<Rightarrow> name \<Rightarrow> u8 \<Rightarrow> ('w, int \<times> fat_file_handle option) io" where
  "fat_dir_create_file fuel ent nm attr =
    fbind (fat_open fuel ent nm 0) (\<lambda>(r, f).
    if r = 0 then fret (-1, f)
    else
      fbind (pick_short_name [1..<10] fuel ent nm (replicate 12 0) f) (\<lambda>(sname, f).
      if sname ! 0 = 0x20 then fret (-1, f)
      else
        fbind (lift (name_length nm)) (\<lambda>n.
        fbind (with_cwd (\<lambda>dir. fat_dir_seek_empty fuel dir (int (n div 13) + 2))) (\<lambda>_.
        fbind (write_long (rev [0..<Suc (n div 13)]) nm True sname ((\<lambda>_. 0)(11 := FAT_ATTR_LONG_NAME))) (\<lambda>ok.
        if \<not> ok then fret (-1, f)
        else
          fbind (if attr = FAT_ATTR_DIRECTORY then
                   fbind fat_find_free_cluster (\<lambda>c.
                   if c = 0 then fret None
                   else fbind (fget (\<lambda>s. fat_eoc (vol s))) (\<lambda>eoc.
                        fbind (fat_set_next_cluster c eoc) (\<lambda>_. fret (Some (put_cluster c (short_dirent sname attr))))))
                 else fret (Some (short_dirent sname attr))) (\<lambda>e.
          case e of None \<Rightarrow> fret (-1, f) | Some e \<Rightarrow>
          fbind (write_entry e) (\<lambda>r.
          if r \<noteq> 32 then fret (-1, f)
          else
            fbind (fat_open fuel ent nm 0) (\<lambda>(r, f').
            fret (r, case f' of None \<Rightarrow> f | Some _ \<Rightarrow> f')))))))))"

fun put_sectors :: "nat list \<Rightarrow> u32 \<Rightarrow> ('w, unit) io" where
  "put_sectors [] sector = fret ()"
| "put_sectors (i # is) sector = fbind (FAT_PUT_SECTOR (sector + of_nat i)) (\<lambda>_. put_sectors is sector)"

text \<open>\<open>file->flags\<close> is written whether or not the handle was.\<close>

definition fat_create :: "nat \<Rightarrow> dirent \<Rightarrow> name \<Rightarrow> u32 \<Rightarrow> ('w, int \<times> fat_file_handle option) io" where
  "fat_create fuel ent nm flags =
    fbind (fat_dir_create_file fuel ent nm FAT_ATTR_ARCHIVE) (\<lambda>(r, f).
    fret (r, map_option (\<lambda>h. h\<lparr>fflags := flags\<rparr>) f))"

definition dot_entry :: "fat_file_handle \<Rightarrow> buffer" where
  "dot_entry dir = put_cluster (first_cluster dir)
    (short_dirent ((replicate 11 0x20)[0 := 0x2E]) FAT_ATTR_DIRECTORY)"

definition dot_dot_entry :: "'w fat_vol_handle \<Rightarrow> buffer \<Rightarrow> buffer" where
  "dot_dot_entry v e =
    put_cluster (if \<not> root_flag (cwd v) \<and> fat32_root_cluster v \<noteq> first_cluster (cwd v)
                 then first_cluster (cwd v) else 0) (e(1 := 0x2E))"

definition fat_mkdir :: "nat \<Rightarrow> dirent \<Rightarrow> name \<Rightarrow> ('w, int) io" where
  "fat_mkdir fuel ent nm = eio_as (- EIO)
    (fbind (fat_dir_create_file fuel ent nm FAT_ATTR_DIRECTORY) (\<lambda>(r, f).
     case f of None \<Rightarrow> fret r | Some dir \<Rightarrow>
     if r \<noteq> 0 then fret r
     else
       fbind FAT_FLUSH_SECTOR (\<lambda>_.
       fbind (fget vol) (\<lambda>v.
       fbind (buf_mod 0 (unat (bytes_per_sector v)) (\<lambda>b i. if i < unat (bytes_per_sector v) then 0 else b i)) (\<lambda>_.
       fbind (put_sectors [0..<unat (sectors_per_cluster v)] (fat_first_sector_of_cluster v (first_cluster dir))) (\<lambda>_.
       fbind (fat_write dir (entry_bytes (dot_entry dir)) 32) (\<lambda>(r, dir).
       if r < 0 then fret r
       else
         fbind (fat_write dir (entry_bytes (dot_dot_entry v (dot_entry dir))) 32) (\<lambda>(r, dir).
         fret (if r < 0 then r else 0)))))))))"

end
