(* ===== verification/Fat_Unix.thy ===== *)
theory Fat_Unix
  imports Fat_Open
begin

text \<open>
  The path interface of kernel/fs/unixlike.c and \<open>filesystem_init\<close> of kernel/fs/fstest.c. \<open>malloc\<close>
  and \<open>free\<close> are not part of the program: the argument \<open>mal\<close> says whether \<open>malloc\<close> returns an
  object, and its result is used without a test. The volume that \<open>ufat_mount\<close> allocates is the one
  of the state.
\<close>

definition ufat_mount :: "bool \<Rightarrow> 'w block_device \<Rightarrow> ('w, bool) io" where
  "ufat_mount mal dev =
    fbind (fguard Wild_Pointer mal) (\<lambda>_. fbind (fat_vol_init dev) (\<lambda>r. fret (r = 0)))"

fun name_chr :: "u8 \<Rightarrow> name \<Rightarrow> name option result" where
  "name_chr c [] = Inl Out_Of_Bounds"
| "name_chr c (a # s) = (if a = c then Inr (Some (a # s)) else if a = 0 then Inr None else name_chr c s)"

text \<open>The walk along the path: \<open>None\<close> when a part does not open. Every round shortens the path.\<close>

fun ufat_walk :: "nat \<Rightarrow> nat \<Rightarrow> dirent \<Rightarrow> name \<Rightarrow> u32 \<Rightarrow> fat_file_handle \<Rightarrow> ('w, fat_file_handle option) io" where
  "ufat_walk 0 fuel ent path flags h = fault No_Return"
| "ufat_walk (Suc n) fuel ent path flags h =
    fbind (lift (chr path 0)) (\<lambda>c.
    if c = 0 then fret (Some h)
    else
      fbind (vol_mod (\<lambda>v. v\<lparr>cwd := h\<rparr>)) (\<lambda>_.
      fbind (fat_open fuel ent path flags) (\<lambda>(r, f).
      if r \<noteq> 0 then fret None
      else
        let h = (case f of None \<Rightarrow> h | Some h \<Rightarrow> h) in
        fbind (lift (name_chr 0x2F path)) (\<lambda>rest.
        case rest of None \<Rightarrow> fret (Some h) | Some p \<Rightarrow> ufat_walk n fuel ent (tl p) flags h))))"

definition ufat_open :: "bool \<Rightarrow> nat \<Rightarrow> dirent \<Rightarrow> name option \<Rightarrow> u32 \<Rightarrow> ('w, fat_file_handle option) io" where
  "ufat_open mal fuel ent path flags =
    (case path of None \<Rightarrow> fret None | Some path \<Rightarrow>
     fbind (lift (chr path 0)) (\<lambda>c.
     if c = 0 then fret None
     else
       fbind (fguard Wild_Pointer mal) (\<lambda>_.
       fbind (fget vol) (\<lambda>v.
       fbind (if c = 0x2F then ufat_walk (length path) fuel ent (tl path) flags (fat_file_root v)
              else ufat_walk (length path) fuel ent path flags (cwd v)) (\<lambda>h.
       fbind (vol_mod (\<lambda>w. w\<lparr>cwd := cwd v\<rparr>)) (\<lambda>_. fret h))))))"

record stat =
  st_mode :: u32
  st_size :: u32

definition S_IFDIR :: u32 where "S_IFDIR = 0x4000"

text \<open>The sector is read into the buffer of the cache, whatever the cache holds.\<close>

definition ufat_stat :: "fat_file_handle \<Rightarrow> ('w, int \<times> stat) io" where
  "ufat_stat h =
    (let st = \<lparr>st_mode = 0, st_size = 0\<rparr>; p = unat (dirent_offset h) in
     if dirent_sector h = 0 then fret (0, st\<lparr>st_mode := S_IFDIR\<rparr>)
     else
       fbind (ftry (load_sector (dirent_sector h))) (\<lambda>r.
       case r of None \<Rightarrow> fret (-1, st) | Some _ \<Rightarrow>
       fbind (buf_get p 12 (\<lambda>b. b (p + 11))) (\<lambda>attr.
       if attr AND FAT_ATTR_DIRECTORY \<noteq> 0 then fret (0, st\<lparr>st_mode := S_IFDIR\<rparr>)
       else fbind (buf_get (p + 28) 4 (\<lambda>b. get_le32 b (p + 28))) (\<lambda>n. fret (0, st\<lparr>st_size := n\<rparr>)))))"

text \<open>At boot: a device for the ramdisk, and the volume on it.\<close>

definition filesystem_init :: "u64 \<Rightarrow> u64 \<Rightarrow> buddy \<Rightarrow> bytes fs \<Rightarrow> (buddy \<times> bytes fs) result" where
  "filesystem_init pmm_start ramdisk b s =
    rbind (block_device_new pmm_start ramdisk b) (\<lambda>(dev, b).
    rbind (fat_vol_init dev s) (\<lambda>(r, s).
    rbind (guard Assert_Failed (r = Some 0)) (\<lambda>_. Inr (b, s))))"

end
