(* ===== verification/Proc.thy ===== *)
theory Proc
  imports Vms Fat_Unix
begin

text \<open>
  Processes: kernel/proc/sched.c, its header, and the control registers of kernel/arch/isa.c. The
  state is that of the machine: the memory (the world of the file system, in which the ramdisk
  lies), the allocator, the tasks and the registers. A pointer to a task is its index.

  The kernel runs on an identity mapping, so its own accesses are to physical addresses. Its
  accesses to user memory go through the translation of the hardware, the argument \<open>mmu\<close>: from the
  memory, the value of \<open>satp\<close> and a virtual address to a physical one, \<open>None\<close> for a page fault.

  A function that ends in \<open>trap_return\<close> does not return to its caller: its result is the state in
  which user code goes on. Log lines are left out.
\<close>

section \<open>Registers\<close>

text \<open>struct context: also the registers of the processor while user code runs.\<close>

record trap_context =
  c_ra :: u64
  c_sp :: u64
  c_gp :: u64
  c_tp :: u64
  c_t0 :: u64
  c_t1 :: u64
  c_t2 :: u64
  c_s0 :: u64
  c_s1 :: u64
  c_a0 :: u64
  c_a1 :: u64
  c_a2 :: u64
  c_a3 :: u64
  c_a4 :: u64
  c_a5 :: u64
  c_a6 :: u64
  c_a7 :: u64
  c_s2 :: u64
  c_s3 :: u64
  c_s4 :: u64
  c_s5 :: u64
  c_s6 :: u64
  c_s7 :: u64
  c_s8 :: u64
  c_s9 :: u64
  c_s10 :: u64
  c_s11 :: u64
  c_t3 :: u64
  c_t4 :: u64
  c_t5 :: u64
  c_t6 :: u64
  c_sepc :: u64

record csrs =
  r_sie :: u64
  r_sstatus :: u64
  r_stvec :: u64
  r_scause :: u64
  r_sscratch :: u64
  r_satp :: u64

definition SSTATUS_SIE :: u64 where "SSTATUS_SIE = 2 ^ 1"
definition SSTATUS_SPP :: u64 where "SSTATUS_SPP = 2 ^ 8"
definition SSTATUS_SUM :: u64 where "SSTATUS_SUM = 2 ^ 18"
definition SIE_SEIE :: u64 where "SIE_SEIE = 2 ^ 9"
definition SIE_STIE :: u64 where "SIE_STIE = 2 ^ 5"
definition SIE_SSIE :: u64 where "SIE_SSIE = 2 ^ 1"

section \<open>Tasks\<close>

definition NR_TASK :: nat where "NR_TASK = 64"
definition MAX_VMA_NUM :: nat where "MAX_VMA_NUM = 5"
definition TASK_INITIAL_COUNTER :: u64 where "TASK_INITIAL_COUNTER = 256"
definition SV39_USER_SP_ADDR :: u64 where "SV39_USER_SP_ADDR = 0x4000000000"

datatype task_state = TASK_RUNNING | TASK_SLEEPING | TASK_STOPPED | TASK_ZOMBIE

record vma =
  mem_start :: u64
  mem_range :: u64
  vma_flags :: u32

text \<open>The fields that no code reads or writes are left out.\<close>

record task_struct =
  filename :: "u8 list"
  pid :: u32
  fpid :: u32
  state :: task_state
  context_of :: trap_context
  pgtable :: u64
  mem_map :: "vma list"
  counter :: u64

record machine =
  csr :: csrs
  fsys :: "bytes fs"
  mm :: buddy
  pmm_start :: u64
  k_pgtable :: u64
  task :: "task_struct list"
  current_task :: nat
  pidmap :: "u32 list"
  jiffies :: u64
  timer :: u64
  sscratch_stack :: trap_context
  printed :: "u8 list"

abbreviation mem :: "machine \<Rightarrow> bytes" where "mem s \<equiv> world (fsys s)"

definition set_mem :: "bytes \<Rightarrow> machine \<Rightarrow> machine" where
  "set_mem m s = s\<lparr>fsys := (fsys s)\<lparr>world := m\<rparr>\<rparr>"

text \<open>\<open>task[i]\<close>, which \<open>current_task\<close> points to.\<close>

abbreviation cur_task :: "machine \<Rightarrow> task_struct" where "cur_task s \<equiv> task s ! current_task s"

definition upd_task :: "nat \<Rightarrow> (task_struct \<Rightarrow> task_struct) \<Rightarrow> machine \<Rightarrow> machine" where
  "upd_task i f s = s\<lparr>task := (task s)[i := f (task s ! i)]\<rparr>"

definition upd_cur_context :: "(trap_context \<Rightarrow> trap_context) \<Rightarrow> machine \<Rightarrow> machine" where
  "upd_cur_context f s = upd_task (current_task s) (\<lambda>t. t\<lparr>context_of := f (context_of t)\<rparr>) s"

section \<open>Control registers\<close>

definition sstatus_get :: "machine \<Rightarrow> u64" where "sstatus_get s = r_sstatus (csr s)"
definition sstatus_set :: "u64 \<Rightarrow> machine \<Rightarrow> machine" where "sstatus_set v s = s\<lparr>csr := (csr s)\<lparr>r_sstatus := v\<rparr>\<rparr>"
definition sie_get :: "machine \<Rightarrow> u64" where "sie_get s = r_sie (csr s)"
definition sie_set :: "u64 \<Rightarrow> machine \<Rightarrow> machine" where "sie_set v s = s\<lparr>csr := (csr s)\<lparr>r_sie := v\<rparr>\<rparr>"
definition stvec_set :: "u64 \<Rightarrow> machine \<Rightarrow> machine" where "stvec_set v s = s\<lparr>csr := (csr s)\<lparr>r_stvec := v\<rparr>\<rparr>"
definition scause_get :: "machine \<Rightarrow> u64" where "scause_get s = r_scause (csr s)"
definition sscratch_set :: "u64 \<Rightarrow> machine \<Rightarrow> machine" where "sscratch_set v s = s\<lparr>csr := (csr s)\<lparr>r_sscratch := v\<rparr>\<rparr>"
definition satp_set :: "u64 \<Rightarrow> machine \<Rightarrow> machine" where "satp_set v s = s\<lparr>csr := (csr s)\<lparr>r_satp := v\<rparr>\<rparr>"
definition satp_get :: "machine \<Rightarrow> u64" where "satp_get s = r_satp (csr s)"

definition intr_off :: "machine \<Rightarrow> machine" where
  "intr_off s = sstatus_set (sstatus_get s AND NOT SSTATUS_SIE) s"

definition intr_on :: "machine \<Rightarrow> machine" where
  "intr_on s = sstatus_set (sstatus_get s OR SSTATUS_SIE) s"

section \<open>Allocating processes\<close>

definition kalloc_m :: "machine \<Rightarrow> u64 \<Rightarrow> (u64 \<times> machine) result" where
  "kalloc_m s sz = rbind (kalloc (pmm_start s) sz (mm s)) (\<lambda>(a, b). Inr (a, s\<lparr>mm := b\<rparr>))"

text \<open>A table that is a copy of the root table of the kernel.\<close>

definition alloc_pgtable :: "machine \<Rightarrow> (u64 \<times> machine) result" where
  "alloc_pgtable s =
    rbind (kalloc_m s (of_nat PGSIZE)) (\<lambda>(t, s).
    rbind (guard (Panic ''allocate a unaligned page table'') (align t)) (\<lambda>_.
    let m = memset t 0 (of_nat PGSIZE) (mem s);
        m = memcpy t (k_pgtable s) (of_nat PGSIZE) m
    in Inr (t, set_mem m s)))"

definition alloc_pid :: "machine \<Rightarrow> (nat \<times> machine) result" where
  "alloc_pid s =
    (case find (\<lambda>i. pidmap s ! i = 0) [0..<NR_TASK] of
       None \<Rightarrow> Inl (Panic ''no free pid'')
     | Some i \<Rightarrow> Inr (i, s\<lparr>pidmap := (pidmap s)[i := 1]\<rparr>))"

definition get_process_count :: "machine \<Rightarrow> u32" where
  "get_process_count s = fold (\<lambda>i cnt. if pidmap s ! i \<noteq> 0 then cnt + 1 else cnt) [0..<NR_TASK] 0"

definition alloc_process :: "machine \<Rightarrow> (nat \<times> machine) result" where
  "alloc_process s =
    rbind (alloc_pid s) (\<lambda>(p, s).
    let s = upd_task p (\<lambda>t. t\<lparr>pid := of_nat p, state := TASK_RUNNING\<rparr>) s in
    rbind (alloc_pgtable s) (\<lambda>(t, s).
    Inr (p, upd_task p (\<lambda>q. q\<lparr>pgtable := t, counter := TASK_INITIAL_COUNTER,
                               context_of := (context_of q)\<lparr>c_sp := SV39_USER_SP_ADDR\<rparr>\<rparr>) s)))"

section \<open>Switching\<close>

text \<open>\<open>trap_return\<close> loads the registers from \<open>sscratch_stack\<close> and goes to user mode.\<close>

definition trap_return_2 :: "machine \<Rightarrow> machine" where
  "trap_return_2 s = s\<lparr>sscratch_stack := context_of (cur_task s)\<rparr>"

definition switch_to :: "machine \<Rightarrow> machine" where
  "switch_to s =
    (let s = sstatus_set (sstatus_get s AND NOT SSTATUS_SPP) s;
         s = satp_set (push_bit 60 SV39_ADDRESSING_MODE + drop_bit 12 (pgtable (cur_task s))) s
     in trap_return_2 s)"

text \<open>The first task that may run and has more ticks left than the current one.\<close>

definition schedule :: "machine \<Rightarrow> bool \<times> machine" where
  "schedule s =
    (case find (\<lambda>i. let p = task s ! i in
            pgtable p \<noteq> 0 \<and> state p = TASK_RUNNING \<and> i \<noteq> current_task s \<and> counter p > counter (cur_task s))
          [0..<NR_TASK] of
       None \<Rightarrow> (False, s)
     | Some i \<Rightarrow> (True, s\<lparr>current_task := i\<rparr>))"

definition TIMER_CLK_RATE :: u64 where "TIMER_CLK_RATE = 390000"

text \<open>The argument is the time that \<open>mtime_get\<close> reads.\<close>

definition do_timer :: "u64 \<Rightarrow> machine \<Rightarrow> machine" where
  "do_timer mtime s =
    (let status_spp = drop_bit 8 (sstatus_get s AND SSTATUS_SPP);
         s = s\<lparr>jiffies := jiffies s + 1\<rparr>;
         s = upd_task (current_task s) (\<lambda>t. t\<lparr>counter := counter t - 1\<rparr>) s;
         s = s\<lparr>timer := mtime + TIMER_CLK_RATE\<rparr>
     in if status_spp = 0 then
          (let (found, s) = schedule s in if found then switch_to s else trap_return_2 s)
        else trap_return_2 s)"

section \<open>Memory of processes\<close>

fun insert_vma :: "u64 \<Rightarrow> u64 \<Rightarrow> u32 \<Rightarrow> vma list \<Rightarrow> vma list" where
  "insert_vma va sz flag [] = []"
| "insert_vma va sz flag (v # vs) =
    (if mem_range v = 0 then \<lparr>mem_start = va, mem_range = sz, vma_flags = flag\<rparr> # vs
     else v # insert_vma va sz flag vs)"

definition vma_insert :: "nat \<Rightarrow> u64 \<Rightarrow> u64 \<Rightarrow> u32 \<Rightarrow> machine \<Rightarrow> machine" where
  "vma_insert p va sz flag s = upd_task p (\<lambda>t. t\<lparr>mem_map := insert_vma va sz flag (mem_map t)\<rparr>) s"

definition umap :: "nat \<Rightarrow> u64 \<Rightarrow> u64 \<Rightarrow> u64 \<Rightarrow> machine \<Rightarrow> machine result" where
  "umap p va pa sz s =
    (let s = vma_insert p va sz PTE_U s in
     case map_range (kalloc (pmm_start s) (of_nat PGSIZE)) (pgtable (task s ! p)) va pa sz PTE_U (mem s) (mm s) of
       None \<Rightarrow> Inl No_Return
     | Some r \<Rightarrow> rbind r (\<lambda>(m, b). Inr ((set_mem m s)\<lparr>mm := b\<rparr>)))"

type_synonym mmu_fun = "bytes \<Rightarrow> u64 \<Rightarrow> u64 \<Rightarrow> u64 option"

text \<open>\<open>memcpy\<close> from user memory, byte by byte.\<close>

fun copy_from_user :: "mmu_fun \<Rightarrow> u64 \<Rightarrow> nat \<Rightarrow> u64 \<Rightarrow> u64 \<Rightarrow> bytes \<Rightarrow> bytes result" where
  "copy_from_user mmu satp 0 dst va m = Inr m"
| "copy_from_user mmu satp (Suc n) dst va m =
    (case mmu m satp va of
       None \<Rightarrow> Inl Wild_Pointer
     | Some pa \<Rightarrow> copy_from_user mmu satp n (dst + 1) (va + 1) (m(dst := m pa)))"

fun copy_areas :: "mmu_fun \<Rightarrow> nat \<Rightarrow> vma list \<Rightarrow> machine \<Rightarrow> machine result" where
  "copy_areas mmu p [] s = Inr s"
| "copy_areas mmu p (v # vs) s =
    rbind (if mem_range v \<noteq> 0 then
             rbind (kalloc_m s (mem_range v)) (\<lambda>(pa, s).
             rbind (copy_from_user mmu (satp_get s) (unat (ucast (mem_range v) :: u32)) pa (mem_start v) (mem s)) (\<lambda>m.
             umap p (mem_start v) pa (mem_range v) (set_mem m s)))
           else Inr s) (copy_areas mmu p vs)"

definition copy_mem_from :: "mmu_fun \<Rightarrow> nat \<Rightarrow> nat \<Rightarrow> machine \<Rightarrow> machine result" where
  "copy_mem_from mmu p current s =
    (let s = sstatus_set (sstatus_get s OR SSTATUS_SUM) s in
     rbind (copy_areas mmu p (mem_map (task s ! current)) s) (\<lambda>s.
     Inr (sstatus_set (sstatus_get s AND NOT SSTATUS_SUM) s)))"

end
