(* ===== verification/Trap.thy ===== *)
theory Trap
  imports Proc
begin

text \<open>
  Traps and system calls: kernel/proc/trap.c and syscall.c, the entry and return sequences of
  kernel/arch/entry.S, and starting a program (\<open>execve\<close> of sched.c). The registers of the
  processor are a \<open>trap_context\<close>, with the program counter of the trap in \<open>c_sepc\<close>.
\<close>

section \<open>Entry and return\<close>

definition S_TIMER_INT :: u64 where "S_TIMER_INT = 5"
definition SYSCALL_FROM_U_MODE :: u64 where "SYSCALL_FROM_U_MODE = 8"
definition SYSCALL_GETPID :: u64 where "SYSCALL_GETPID = 8"
definition SYSCALL_FORK :: u64 where "SYSCALL_FORK = 32"
definition SYSCALL_WRITE :: u64 where "SYSCALL_WRITE = 64"

text \<open>
  The arguments are the addresses of \<open>sscratch_stack\<close> and of \<open>trap_entry\<close>, and the time.
\<close>

definition trap_init :: "u64 \<Rightarrow> u64 \<Rightarrow> u64 \<Rightarrow> machine \<Rightarrow> machine" where
  "trap_init stack handler mtime s =
    (let s = sscratch_set stack s;
         s = stvec_set handler s;
         s = sstatus_set (sstatus_get s OR SSTATUS_SIE) s;
         s = sie_set (sie_get s OR (SIE_STIE OR SIE_SSIE OR SIE_SEIE)) s
     in s\<lparr>timer := mtime + TIMER_CLK_RATE\<rparr>)"

section \<open>System calls\<close>

fun read_user :: "mmu_fun \<Rightarrow> u64 \<Rightarrow> nat \<Rightarrow> u64 \<Rightarrow> bytes \<Rightarrow> u8 list result" where
  "read_user mmu satp 0 va m = Inr []"
| "read_user mmu satp (Suc n) va m =
    (case mmu m satp va of
       None \<Rightarrow> Inl Wild_Pointer
     | Some pa \<Rightarrow> rbind (read_user mmu satp n (va + 1) m) (\<lambda>xs. Inr (m pa # xs)))"

text \<open>The buffer on the stack has 256 bytes; the copy and the terminating zero go into it.\<close>

definition sys_write :: "mmu_fun \<Rightarrow> u64 \<Rightarrow> u64 \<Rightarrow> u64 \<Rightarrow> machine \<Rightarrow> (u32 \<times> machine) result" where
  "sys_write mmu fd buf len s =
    (if fd = 0 then
       let s = sstatus_set (sstatus_get s OR SSTATUS_SUM) s; n = unat (ucast len :: u32) in
       rbind (guard Out_Of_Bounds (n \<le> 256)) (\<lambda>_.
       rbind (read_user mmu (satp_get s) n buf (mem s)) (\<lambda>xs.
       rbind (guard Out_Of_Bounds (unat len < 256)) (\<lambda>_.
       let s = s\<lparr>printed := printed s @ takeWhile (\<lambda>c. c \<noteq> 0) xs\<rparr>
       in Inr (ucast len, sstatus_set (sstatus_get s AND NOT SSTATUS_SUM) s))))
     else Inr (ucast len, s))"

definition sys_fork :: "mmu_fun \<Rightarrow> machine \<Rightarrow> (u64 \<times> machine) result" where
  "sys_fork mmu s =
    rbind (alloc_process s) (\<lambda>(p, s).
    let cur = cur_task s;
        s = upd_task p (\<lambda>t. t\<lparr>filename := filename cur, fpid := pid cur, state := TASK_RUNNING,
                               context_of := (context_of cur)\<lparr>c_a0 := 0\<rparr>\<rparr>) s;
        child = ucast (pid (task s ! p)) :: u64;
        s = upd_cur_context (\<lambda>c. c\<lparr>c_a0 := child\<rparr>) s
    in rbind (copy_mem_from mmu p (current_task s) s) (\<lambda>s. Inr (child, s)))"

definition sys_getpid :: "machine \<Rightarrow> u64 \<times> machine" where
  "sys_getpid s =
    (let v = ucast (pid (cur_task s)) in (v, upd_cur_context (\<lambda>c. c\<lparr>c_a0 := v\<rparr>) s))"

text \<open>The name table that is read for the log has 65 entries.\<close>

definition syscall :: "mmu_fun \<Rightarrow> machine \<Rightarrow> (u64 \<times> machine) result" where
  "syscall mmu s =
    (let t = context_of (cur_task s); num = c_a7 t in
     rbind (guard Out_Of_Bounds (num \<le> 64)) (\<lambda>_.
     if num = SYSCALL_GETPID then Inr (sys_getpid s)
     else if num = SYSCALL_FORK then sys_fork mmu s
     else if num = SYSCALL_WRITE then
       rbind (sys_write mmu (c_a0 t) (c_a1 t) (c_a2 t) s) (\<lambda>(r, s). Inr (scast r, s))
     else Inl (Panic ''unexpected syscall number: %d'')))"

section \<open>Handlers\<close>

text \<open>The name tables of interrupts and exceptions have 16 entries.\<close>

definition handle_interrupt :: "u64 \<Rightarrow> u64 \<Rightarrow> machine \<Rightarrow> machine result" where
  "handle_interrupt mtime code s =
    (if code = S_TIMER_INT then Inr (do_timer mtime s)
     else rbind (guard Out_Of_Bounds (code < 16)) (\<lambda>_. Inl (Panic ''unexpected interrupt code: %s'')))"

definition handle_exception :: "mmu_fun \<Rightarrow> u64 \<Rightarrow> machine \<Rightarrow> machine result" where
  "handle_exception mmu code s =
    (if code = SYSCALL_FROM_U_MODE then rbind (syscall mmu s) (\<lambda>(r, s). Inr s)
     else rbind (guard Out_Of_Bounds (code < 16)) (\<lambda>_. Inl (Panic ''unexpected exception code: %s'')))"

text \<open>An interrupt handler that returns ends in \<open>trap_return\<close>.\<close>

definition trap_start :: "mmu_fun \<Rightarrow> u64 \<Rightarrow> machine \<Rightarrow> machine result" where
  "trap_start mmu mtime s =
    (let code = scause_get s AND 0xff;
         s1 = upd_cur_context (\<lambda>_. sscratch_stack s) s
     in if bit (scause_get s) 63 then handle_interrupt mtime code s1
        else
          rbind (handle_exception mmu code (upd_cur_context (\<lambda>c. c\<lparr>c_sepc := c_sepc c + 4\<rparr>) s1)) (\<lambda>s.
          Inr (trap_return_2 s)))"

text \<open>
  The assembly around it: the registers are saved to \<open>sscratch_stack\<close>, and loaded from it for
  the return.
\<close>

definition trap_entry :: "trap_context \<Rightarrow> machine \<Rightarrow> machine" where
  "trap_entry regs s = s\<lparr>sscratch_stack := regs\<rparr>"

definition trap_return :: "machine \<Rightarrow> trap_context" where
  "trap_return s = sscratch_stack s"

text \<open>A trap of user code: from the registers at the trap to those that user code goes on with.\<close>

definition user_trap :: "mmu_fun \<Rightarrow> u64 \<Rightarrow> trap_context \<Rightarrow> machine \<Rightarrow> (trap_context \<times> machine) result" where
  "user_trap mmu mtime regs s =
    rbind (trap_start mmu mtime (trap_entry regs s)) (\<lambda>s. Inr (trap_return s, s))"

section \<open>Starting a program\<close>

definition ELF_MAGIC :: u32 where "ELF_MAGIC = 0x464C457F"
definition ELF_PROG_LOAD :: u32 where "ELF_PROG_LOAD = 1"

definition store_bytes :: "u64 \<Rightarrow> u8 list \<Rightarrow> bytes \<Rightarrow> bytes" where
  "store_bytes a xs m = fold (\<lambda>i m. m(a + of_nat i := xs ! i)) [0..<length xs] m"

text \<open>The fields of struct elfhdr and struct proghdr at an address.\<close>

definition elf_magic :: "bytes \<Rightarrow> u64 \<Rightarrow> u32" where "elf_magic m a = get_le32 m a"
definition elf_entry :: "bytes \<Rightarrow> u64 \<Rightarrow> u64" where "elf_entry m a = load64 m (a + 24)"
definition elf_phoff :: "bytes \<Rightarrow> u64 \<Rightarrow> u64" where "elf_phoff m a = load64 m (a + 32)"
definition elf_phnum :: "bytes \<Rightarrow> u64 \<Rightarrow> u16" where "elf_phnum m a = get_le16 m (a + 56)"
definition ph_type :: "bytes \<Rightarrow> u64 \<Rightarrow> u32" where "ph_type m a = get_le32 m a"
definition ph_off :: "bytes \<Rightarrow> u64 \<Rightarrow> u64" where "ph_off m a = load64 m (a + 8)"
definition ph_vaddr :: "bytes \<Rightarrow> u64 \<Rightarrow> u64" where "ph_vaddr m a = load64 m (a + 16)"
definition ph_filesz :: "bytes \<Rightarrow> u64 \<Rightarrow> u64" where "ph_filesz m a = load64 m (a + 32)"
definition ph_memsz :: "bytes \<Rightarrow> u64 \<Rightarrow> u64" where "ph_memsz m a = load64 m (a + 40)"

text \<open>One program header; the last argument and the result carry \<open>SEPC_OFFSET\<close>.\<close>

definition load_section :: "nat \<Rightarrow> u64 \<Rightarrow> u64 \<Rightarrow> u64 \<times> machine \<Rightarrow> (u64 \<times> machine) result" where
  "load_section p elf ph = (\<lambda>(sepc_offset, s).
    (let m = mem s; memsz = ph_memsz m ph; vaddr = ph_vaddr m ph; start = elf_entry m elf in
     if ph_type m ph \<noteq> ELF_PROG_LOAD then Inr (sepc_offset, s)
     else
       rbind (kalloc_m s memsz) (\<lambda>(tmp, s).
       rbind (guard (Panic ''...'') (align tmp)) (\<lambda>_.
       let s = set_mem (memcpy tmp (elf + ph_off m ph) (ucast (ph_filesz m ph)) (mem s)) s in
       rbind (umap p vaddr tmp memsz s) (\<lambda>s.
       Inr (if vaddr \<le> start \<and> start < vaddr + memsz then OFFSET tmp else sepc_offset, s))))))"

text \<open>\<open>off\<close> has 32 bits.\<close>

fun load_sections :: "nat list \<Rightarrow> nat \<Rightarrow> u64 \<Rightarrow> u64 \<times> machine \<Rightarrow> (u64 \<times> machine) result" where
  "load_sections [] p elf r = Inr r"
| "load_sections (i # is) p elf r =
    (let off = ucast (elf_phoff (mem (snd r)) elf) + of_nat i * 56 :: u32 in
     rbind (load_section p elf (elf + ucast off) r) (load_sections is p elf))"

text \<open>
  \<open>junk\<close> is the value of \<open>SEPC_OFFSET\<close> when no section holds the entry point: the variable is not
  initialised. The file is read whole before it is stored, which is the code as long as the pages
  for it are not part of the ramdisk. Only eight bytes of the name, the size of a pointer, are kept.
\<close>

definition execve :: "nat \<Rightarrow> dirent \<Rightarrow> u64 \<Rightarrow> name \<Rightarrow> machine \<Rightarrow> machine result" where
  "execve fuel ent junk nm s =
    rbind (fat_open fuel ent nm 0 (fsys s)) (\<lambda>(r, fs1).
    case r of Some (n, Some f) \<Rightarrow>
      rbind (guard Assert_Failed (n = 0)) (\<lambda>_.
      rbind (alloc_process (s\<lparr>fsys := fs1\<rparr>)) (\<lambda>(p, s).
      rbind (guard Out_Of_Bounds (8 \<le> length nm)) (\<lambda>_.
      let s = upd_task p (\<lambda>t. t\<lparr>filename := take 8 nm @ drop 8 (filename t)\<rparr>) s in
      rbind (kalloc_m s (ucast (fsize f))) (\<lambda>(elf, s).
      rbind (fat_read f (sint (fsize f)) (fsys s)) (\<lambda>(r, fs2).
      case r of None \<Rightarrow> Inl Assert_Failed | Some (n, bytes, f') \<Rightarrow>
      rbind (guard Assert_Failed ((of_int n :: u32) = fsize f)) (\<lambda>_.
      let s = s\<lparr>fsys := fs2\<rparr>; s = set_mem (store_bytes elf bytes (mem s)) s in
      rbind (guard (Panic ''not ELF format binary code'') (elf_magic (mem s) elf = ELF_MAGIC)) (\<lambda>_.
      rbind (load_sections [0..<unat (elf_phnum (mem s) elf)] p elf (junk, s)) (\<lambda>(sepc_offset, s).
      rbind (kalloc_m s (of_nat (PGSIZE * 4))) (\<lambda>(stack, s).
      rbind (guard (Panic ''stack paddr not aligned'') (align stack)) (\<lambda>_.
      rbind (umap p (c_sp (context_of (task s ! p)) - of_nat (4 * PGSIZE)) (stack - of_nat (4 * PGSIZE))
               (of_nat (PGSIZE * 4)) s) (\<lambda>s.
      let s = upd_task p (\<lambda>t. t\<lparr>context_of := (context_of t)\<lparr>c_sepc := elf_entry (mem s) elf + sepc_offset\<rparr>\<rparr>) s;
          s = s\<lparr>current_task := p\<rparr>
      in Inr (switch_to s))))))))))))
    | _ \<Rightarrow> Inl Assert_Failed)"

end
