(* ===== verification/Proc_Props.thy ===== *)
theory Proc_Props
  imports Trap
begin

text \<open>
  Properties of processes and traps: the invariant of the task table, what \<open>fork\<close> makes, that a
  trap keeps the registers of every task, and when the timer switches tasks.
\<close>

section \<open>The invariant\<close>

text \<open>
  The pid of a task is its index; a task without a pid has no page table, so it never runs; the
  current task has a pid.
\<close>

definition proc_inv :: "machine \<Rightarrow> bool" where
  "proc_inv s \<longleftrightarrow> length (task s) = NR_TASK \<and> length (pidmap s) = NR_TASK \<and>
    current_task s < NR_TASK \<and> pidmap s ! current_task s \<noteq> 0 \<and>
    (\<forall>i < NR_TASK. length (mem_map (task s ! i)) = MAX_VMA_NUM \<and>
      (if pidmap s ! i \<noteq> 0 then pid (task s ! i) = of_nat i else pgtable (task s ! i) = 0))"

lemma task_upd_task [simp]: "task (upd_task i f s) = (task s)[i := f (task s ! i)]"
  "current_task (upd_task i f s) = current_task s" "pidmap (upd_task i f s) = pidmap s"
  "csr (upd_task i f s) = csr s" "fsys (upd_task i f s) = fsys s" "mm (upd_task i f s) = mm s"
  "jiffies (upd_task i f s) = jiffies s" "sscratch_stack (upd_task i f s) = sscratch_stack s"
  "pmm_start (upd_task i f s) = pmm_start s" "k_pgtable (upd_task i f s) = k_pgtable s"
  "timer (upd_task i f s) = timer s" "printed (upd_task i f s) = printed s"
  by (simp_all add: upd_task_def)

lemma set_mem_simps [simp]: "task (set_mem m s) = task s" "current_task (set_mem m s) = current_task s"
  "pidmap (set_mem m s) = pidmap s" "csr (set_mem m s) = csr s" "jiffies (set_mem m s) = jiffies s"
  "sscratch_stack (set_mem m s) = sscratch_stack s" "mm (set_mem m s) = mm s" "pmm_start (set_mem m s) = pmm_start s"
  "mem (set_mem m s) = m" "k_pgtable (set_mem m s) = k_pgtable s" "timer (set_mem m s) = timer s" "printed (set_mem m s) = printed s"
  by (simp_all add: set_mem_def)

text \<open>A change of the memory, the allocator and the memory map of one task.\<close>

definition only_memory :: "nat \<Rightarrow> vma list \<Rightarrow> machine \<Rightarrow> machine \<Rightarrow> bool" where
  "only_memory p vs s s' \<longleftrightarrow>
    (\<exists>f b. s' = s\<lparr>fsys := f, mm := b, task := (task s)[p := (task s ! p)\<lparr>mem_map := vs\<rparr>]\<rparr>)"

lemma only_memoryD:
  assumes "only_memory p vs s s'" "p < length (task s)"
  shows "task s' = (task s)[p := (task s ! p)\<lparr>mem_map := vs\<rparr>]" "current_task s' = current_task s"
    "pidmap s' = pidmap s" "csr s' = csr s" "jiffies s' = jiffies s" "sscratch_stack s' = sscratch_stack s"
    "printed s' = printed s" "timer s' = timer s"
  using assms by (auto simp: only_memory_def)

lemma only_memory_trans:
  "\<lbrakk> only_memory p us s t; only_memory p vs t u; p < length (task s) \<rbrakk> \<Longrightarrow> only_memory p vs s u"
  unfolding only_memory_def by (elim exE) (simp, blast)

lemma only_memory_refl: "only_memory p (mem_map (task s ! p)) s s"
proof -
  have "s = s\<lparr>fsys := fsys s, mm := mm s, task := (task s)[p := (task s ! p)\<lparr>mem_map := mem_map (task s ! p)\<rparr>]\<rparr>"
    by (cases s) simp
  then show ?thesis unfolding only_memory_def by blast
qed

lemma kalloc_m_frame:
  assumes "kalloc_m s sz = Inr (a, s')" shows "only_memory p (mem_map (task s ! p)) s s'"
proof -
  obtain b where "s' = s\<lparr>mm := b\<rparr>" using assms by (auto simp: kalloc_m_def rbind_Inr_iff)
  moreover have "s\<lparr>mm := b\<rparr> = s\<lparr>fsys := fsys s, mm := b, task := (task s)[p := (task s ! p)\<lparr>mem_map := mem_map (task s ! p)\<rparr>]\<rparr>"
    by (cases s) simp
  ultimately show ?thesis unfolding only_memory_def by blast
qed

lemma set_mem_frame: "only_memory p (mem_map (task s ! p)) s (set_mem m s)"
proof -
  have "set_mem m s = s\<lparr>fsys := (fsys s)\<lparr>world := m\<rparr>, mm := mm s, task := (task s)[p := (task s ! p)\<lparr>mem_map := mem_map (task s ! p)\<rparr>]\<rparr>"
    by (cases s) (simp add: set_mem_def)
  then show ?thesis unfolding only_memory_def by blast
qed

lemma umap_frame:
  assumes "umap p va pa sz s = Inr s'"
  shows "only_memory p (insert_vma va sz PTE_U (mem_map (task s ! p))) s s'"
proof -
  obtain m b where "s' = (set_mem m (vma_insert p va sz PTE_U s))\<lparr>mm := b\<rparr>"
    using assms by (auto simp: umap_def Let_def rbind_Inr_iff split: option.splits)
  then show ?thesis
    unfolding only_memory_def set_mem_def vma_insert_def upd_task_def by (cases s) auto
qed

definition copied_map :: "vma list \<Rightarrow> vma list \<Rightarrow> vma list" where
  "copied_map us vs = foldl (\<lambda>vs v. if mem_range v \<noteq> 0 then insert_vma (mem_start v) (mem_range v) PTE_U vs else vs) vs us"

lemma insert_vma_length [simp]: "length (insert_vma va sz f vs) = length vs"
  by (induction vs) auto

lemma copied_map_length [simp]: "length (copied_map us vs) = length vs"
  unfolding copied_map_def by (induction us arbitrary: vs) auto

lemma copy_areas_frame:
  "\<lbrakk> copy_areas mmu p us s = Inr s'; p < length (task s) \<rbrakk> \<Longrightarrow>
   only_memory p (copied_map us (mem_map (task s ! p))) s s'"
proof (induction us arbitrary: s)
  case Nil
  then show ?case using only_memory_refl by (simp add: copied_map_def)
next
  case (Cons v us)
  let ?vs = "if mem_range v \<noteq> 0 then insert_vma (mem_start v) (mem_range v) PTE_U (mem_map (task s ! p)) else mem_map (task s ! p)"
  obtain t where t: "only_memory p ?vs s t" "copy_areas mmu p us t = Inr s'"
  proof (cases "mem_range v = 0")
    case True
    with only_memory_refl [of p s] Cons.prems(1) that show ?thesis by simp
  next
    case False
    with Cons.prems(1) obtain pa s1 m s2 where
      s: "kalloc_m s (mem_range v) = Inr (pa, s1)" "umap p (mem_start v) pa (mem_range v) (set_mem m s1) = Inr s2"
      "copy_areas mmu p us s2 = Inr s'"
      by (auto simp: rbind_Inr_iff)
    note k = kalloc_m_frame [OF s(1), of p]
    have p1: "p < length (task s1)" using only_memoryD(1) [OF k Cons.prems(2)] Cons.prems(2) by simp
    have m1: "mem_map (task s1 ! p) = mem_map (task s ! p)"
      using only_memoryD(1) [OF k Cons.prems(2)] Cons.prems(2) by simp
    have "only_memory p (insert_vma (mem_start v) (mem_range v) PTE_U (mem_map (task s ! p))) s1 s2"
      using only_memory_trans [OF set_mem_frame umap_frame [OF s(2)] p1] m1 by simp
    then have "only_memory p ?vs s s2"
      using only_memory_trans [OF k _ Cons.prems(2)] False by simp
    with s(3) that show ?thesis by blast
  qed
  have "p < length (task t)" "mem_map (task t ! p) = ?vs"
    using only_memoryD(1) [OF t(1) Cons.prems(2)] Cons.prems(2) by simp_all
  with Cons.IH [OF t(2)] only_memory_trans [OF t(1) _ Cons.prems(2)] show ?case
    by (simp add: copied_map_def)
qed

section \<open>New processes\<close>

lemma alloc_pid_spec:
  assumes "alloc_pid s = Inr (p, s')"
  shows "p < NR_TASK" "pidmap s ! p = 0" "\<forall>j<p. pidmap s ! j \<noteq> 0" "s' = s\<lparr>pidmap := (pidmap s)[p := 1]\<rparr>"
proof -
  have f: "find (\<lambda>i. pidmap s ! i = 0) [0..<NR_TASK] = Some p" "s' = s\<lparr>pidmap := (pidmap s)[p := 1]\<rparr>"
    using assms by (auto simp: alloc_pid_def split: option.splits)
  then obtain i where i: "i < NR_TASK" "pidmap s ! ([0..<NR_TASK] ! i) = 0" "p = [0..<NR_TASK] ! i"
    "\<forall>j<i. pidmap s ! ([0..<NR_TASK] ! j) \<noteq> 0"
    by (auto simp: find_Some_iff)
  then show "p < NR_TASK" "pidmap s ! p = 0" "\<forall>j<p. pidmap s ! j \<noteq> 0" by simp_all
  show "s' = s\<lparr>pidmap := (pidmap s)[p := 1]\<rparr>" by (rule f(2))
qed

lemma alloc_pid_full: "\<forall>i<NR_TASK. pidmap s ! i \<noteq> 0 \<Longrightarrow> alloc_pid s = Inl (Panic ''no free pid'')"
proof -
  assume "\<forall>i<NR_TASK. pidmap s ! i \<noteq> 0"
  then have "find (\<lambda>i. pidmap s ! i = 0) [0..<NR_TASK] = None" by (auto simp: find_None_iff)
  then show ?thesis by (simp add: alloc_pid_def)
qed

lemma alloc_process_spec:
  assumes "alloc_process s = Inr (p, s')" "length (task s) = NR_TASK"
  obtains t where "p < NR_TASK" "pidmap s ! p = 0" "\<forall>j<p. pidmap s ! j \<noteq> 0"
    "pidmap s' = (pidmap s)[p := 1]" "current_task s' = current_task s" "csr s' = csr s"
    "jiffies s' = jiffies s" "printed s' = printed s" "align t"
    "task s' = (task s)[p := (task s ! p)\<lparr>pid := of_nat p, state := TASK_RUNNING, pgtable := t,
       counter := TASK_INITIAL_COUNTER, context_of := (context_of (task s ! p))\<lparr>c_sp := SV39_USER_SP_ADDR\<rparr>\<rparr>]"
proof -
  obtain s1 t s2 where a: "alloc_pid s = Inr (p, s1)"
    "alloc_pgtable (upd_task p (\<lambda>t. t\<lparr>pid := of_nat p, state := TASK_RUNNING\<rparr>) s1) = Inr (t, s2)"
    "s' = upd_task p (\<lambda>q. q\<lparr>pgtable := t, counter := TASK_INITIAL_COUNTER,
                               context_of := (context_of q)\<lparr>c_sp := SV39_USER_SP_ADDR\<rparr>\<rparr>) s2"
    using assms(1) by (auto simp: alloc_process_def rbind_Inr_iff Let_def)
  note p = alloc_pid_spec [OF a(1)]
  let ?s = "upd_task p (\<lambda>t. t\<lparr>pid := of_nat p, state := TASK_RUNNING\<rparr>) s1"
  obtain s3 m where s3: "kalloc_m ?s (of_nat PGSIZE) = Inr (t, s3)" "align t" "s2 = set_mem m s3"
    using a(2) by (auto simp: alloc_pgtable_def rbind_Inr_iff Let_def)
  then obtain b where "s3 = ?s\<lparr>mm := b\<rparr>" by (auto simp: kalloc_m_def rbind_Inr_iff)
  with s3(3) have s2: "task s2 = task ?s" "pidmap s2 = pidmap ?s" "current_task s2 = current_task ?s" "csr s2 = csr ?s"
    "jiffies s2 = jiffies ?s" "printed s2 = printed ?s"
    by simp_all
  show ?thesis
    by (rule that [OF p(1-3), of t]) (use a(3) s2 p(1,4) s3(2) assms(2) in simp_all)
qed

section \<open>fork\<close>

lemma sys_fork_spec:
  assumes "sys_fork mmu s = Inr (r, s')" "proc_inv s"
  obtains p t where "p < NR_TASK" "pidmap s ! p = 0" "\<forall>j<p. pidmap s ! j \<noteq> 0" "r = of_nat p" "align t"
    "pidmap s' = (pidmap s)[p := 1]" "current_task s' = current_task s"
    "csr s' = (csr s)\<lparr>r_sstatus := (r_sstatus (csr s) OR SSTATUS_SUM) AND NOT SSTATUS_SUM\<rparr>"
    "jiffies s' = jiffies s"
    "task s' = (task s)
      [p := (task s ! p)\<lparr>pid := of_nat p, pgtable := t, counter := TASK_INITIAL_COUNTER,
             filename := filename (cur_task s), fpid := pid (cur_task s), state := TASK_RUNNING,
             context_of := (context_of (cur_task s))\<lparr>c_a0 := 0\<rparr>,
             mem_map := copied_map (mem_map (cur_task s)) (mem_map (task s ! p))\<rparr>,
       current_task s := (cur_task s)\<lparr>context_of := (context_of (cur_task s))\<lparr>c_a0 := of_nat p\<rparr>\<rparr>]"
proof -
  have len: "length (task s) = NR_TASK" and cur: "current_task s < NR_TASK" "pidmap s ! current_task s \<noteq> 0"
    using assms(2) by (simp_all add: proc_inv_def)
  obtain p s1 s2 where f: "alloc_process s = Inr (p, s1)" "copy_mem_from mmu p (current_task s1)
      (upd_cur_context (\<lambda>c. c\<lparr>c_a0 := r\<rparr>)
        (upd_task p (\<lambda>t. t\<lparr>filename := filename (cur_task s1), fpid := pid (cur_task s1), state := TASK_RUNNING,
           context_of := (context_of (cur_task s1))\<lparr>c_a0 := 0\<rparr>\<rparr>) s1)) = Inr s2" "s' = s2"
    "r = ucast (pid (task (upd_task p (\<lambda>t. t\<lparr>filename := filename (cur_task s1), fpid := pid (cur_task s1), state := TASK_RUNNING,
           context_of := (context_of (cur_task s1))\<lparr>c_a0 := 0\<rparr>\<rparr>) s1) ! p))"
    using assms(1) by (auto simp: sys_fork_def rbind_Inr_iff Let_def upd_cur_context_def)
  obtain t where p: "p < NR_TASK" "pidmap s ! p = 0" "\<forall>j<p. pidmap s ! j \<noteq> 0"
    "pidmap s1 = (pidmap s)[p := 1]" "current_task s1 = current_task s" "csr s1 = csr s"
    "jiffies s1 = jiffies s" "align t"
    "task s1 = (task s)[p := (task s ! p)\<lparr>pid := of_nat p, state := TASK_RUNNING, pgtable := t,
       counter := TASK_INITIAL_COUNTER, context_of := (context_of (task s ! p))\<lparr>c_sp := SV39_USER_SP_ADDR\<rparr>\<rparr>]"
    by (rule alloc_process_spec [OF f(1) len])
  have pc: "p \<noteq> current_task s" using p(2) cur(2) by auto
  have "(of_nat p :: u32) = of_nat p" ..
  have "unat (of_nat p :: u32) = p" using p(1) by (intro unat_of_nat_u32) (simp add: NR_TASK_def)
  then have "(ucast (of_nat p :: u32) :: u64) = of_nat p" by (metis of_nat_unat)
  then have r: "r = of_nat p" using f(4) p(1,9) len by simp
  let ?s3 = "upd_cur_context (\<lambda>c. c\<lparr>c_a0 := r\<rparr>)
        (upd_task p (\<lambda>t. t\<lparr>filename := filename (cur_task s1), fpid := pid (cur_task s1), state := TASK_RUNNING,
           context_of := (context_of (cur_task s1))\<lparr>c_a0 := 0\<rparr>\<rparr>) s1)"
  let ?s4 = "sstatus_set (sstatus_get ?s3 OR SSTATUS_SUM) ?s3"
  obtain s5 where s5: "copy_areas mmu p (mem_map (task ?s4 ! current_task s1)) ?s4 = Inr s5"
    "s2 = sstatus_set (sstatus_get s5 AND NOT SSTATUS_SUM) s5"
    using f(2) by (auto simp: copy_mem_from_def rbind_Inr_iff Let_def)
  have p4: "p < length (task ?s4)" using p(1,9) len by (simp add: sstatus_set_def upd_cur_context_def)
  note m = only_memoryD [OF copy_areas_frame [OF s5(1) p4] p4]
  have t4: "task ?s4 = (task s1)[p := (task s1 ! p)\<lparr>filename := filename (cur_task s1), fpid := pid (cur_task s1), state := TASK_RUNNING,
           context_of := (context_of (cur_task s1))\<lparr>c_a0 := 0\<rparr>\<rparr>,
       current_task s := (cur_task s1)\<lparr>context_of := (context_of (cur_task s1))\<lparr>c_a0 := r\<rparr>\<rparr>]"
    using pc p(5) by (simp add: sstatus_set_def upd_cur_context_def)
  have "csr ?s4 = (csr s)\<lparr>r_sstatus := r_sstatus (csr s) OR SSTATUS_SUM\<rparr>" "pidmap ?s4 = (pidmap s)[p := 1]"
    "current_task ?s4 = current_task s" "jiffies ?s4 = jiffies s"
    using p by (simp_all add: sstatus_set_def sstatus_get_def upd_cur_context_def)
  note eqs = this m t4
  show ?thesis
    by (rule that [OF p(1-3) r p(8)])
      (use eqs s5(2) f(3) p(1,5,9) pc len cur(1) r in
        \<open>simp_all add: sstatus_set_def sstatus_get_def list_update_swap [of p "current_task s"]\<close>)
qed

section \<open>Every operation keeps the invariant\<close>

lemma inv_update:
  assumes "proc_inv s" "task s' = (task s)[i := (task s ! i)\<lparr>context_of := c, counter := n\<rparr>]"
    "pidmap s' = pidmap s" "current_task s' < NR_TASK" "pidmap s ! current_task s' \<noteq> 0"
  shows "proc_inv s'"
proof -
  have "mem_map (task s' ! j) = mem_map (task s ! j) \<and> pid (task s' ! j) = pid (task s ! j) \<and>
      pgtable (task s' ! j) = pgtable (task s ! j)" for j
    using assms(2) by (cases "i < length (task s)"; cases "j = i") (simp_all add: list_update_beyond)
  then show ?thesis using assms by (simp add: proc_inv_def)
qed

lemma inv_same:
  assumes "proc_inv s" "task s' = task s" "pidmap s' = pidmap s" "current_task s' = current_task s"
  shows "proc_inv s'"
  using assms by (simp add: proc_inv_def)

lemma inv_context: "proc_inv s \<Longrightarrow> proc_inv (upd_cur_context f s)"
  by (rule inv_update [where s = s and i = "current_task s" and c = "f (context_of (cur_task s))" and n = "counter (cur_task s)"])
    (auto simp: upd_cur_context_def proc_inv_def)

lemma inv_trap_return: "proc_inv s \<Longrightarrow> proc_inv (trap_return_2 s)"
  by (rule inv_same [of s]) (simp_all add: trap_return_2_def)

lemma inv_switch_to: "proc_inv s \<Longrightarrow> proc_inv (switch_to s)"
  unfolding switch_to_def Let_def
  by (rule inv_trap_return, rule inv_same [of s]) (simp_all add: sstatus_set_def satp_set_def)

lemma schedule_Some:
  assumes "schedule s = (True, s')"
  obtains i where "i < NR_TASK" "pgtable (task s ! i) \<noteq> 0" "state (task s ! i) = TASK_RUNNING" "i \<noteq> current_task s"
    "counter (task s ! i) > counter (cur_task s)" "s' = s\<lparr>current_task := i\<rparr>"
proof -
  obtain i where i: "find (\<lambda>i. let p = task s ! i in
            pgtable p \<noteq> 0 \<and> state p = TASK_RUNNING \<and> i \<noteq> current_task s \<and> counter p > counter (cur_task s))
          [0..<NR_TASK] = Some i" "s' = s\<lparr>current_task := i\<rparr>"
    using assms by (auto simp: schedule_def split: option.splits)
  then have "i \<in> set [0..<NR_TASK]" "let p = task s ! i in
      pgtable p \<noteq> 0 \<and> state p = TASK_RUNNING \<and> i \<noteq> current_task s \<and> counter p > counter (cur_task s)"
    by (auto simp: find_Some_iff)
  with i(2) that show ?thesis by (simp add: Let_def)
qed

lemma schedule_None:
  "fst (schedule s) \<longleftrightarrow> (\<exists>i<NR_TASK. pgtable (task s ! i) \<noteq> 0 \<and> state (task s ! i) = TASK_RUNNING \<and>
     i \<noteq> current_task s \<and> counter (task s ! i) > counter (cur_task s))"
  "\<not> fst (schedule s) \<Longrightarrow> snd (schedule s) = s"
  by (auto simp: schedule_def find_None_iff find_Some_iff Let_def split: option.splits)

lemma inv_schedule: "proc_inv s \<Longrightarrow> proc_inv (snd (schedule s))"
proof (cases "fst (schedule s)")
  case True
  assume inv: "proc_inv s"
  obtain s' where s': "schedule s = (True, s')" using True by (metis prod.collapse)
  from schedule_Some [OF this] obtain i where "i < NR_TASK" "pgtable (task s ! i) \<noteq> 0" "s' = s\<lparr>current_task := i\<rparr>"
    by blast
  with inv s' show ?thesis by (auto simp: proc_inv_def)
qed (simp add: schedule_None(2))

text \<open>The state in which the timer handler looks for the next task.\<close>

definition ticked :: "u64 \<Rightarrow> machine \<Rightarrow> machine" where
  "ticked t s = (upd_task (current_task s) (\<lambda>t. t\<lparr>counter := counter t - 1\<rparr>) (s\<lparr>jiffies := jiffies s + 1\<rparr>))\<lparr>timer := t + TIMER_CLK_RATE\<rparr>"

lemma do_timer_cases:
  "do_timer t s =
    (if r_sstatus (csr s) AND SSTATUS_SPP = 0 \<and> fst (schedule (ticked t s)) then switch_to (snd (schedule (ticked t s)))
     else trap_return_2 (ticked t s))"
proof -
  have "drop_bit 8 (w AND SSTATUS_SPP) = 0 \<longleftrightarrow> w AND SSTATUS_SPP = 0" for w
  proof
    assume "drop_bit 8 (w AND SSTATUS_SPP) = 0"
    then have "\<not> bit (drop_bit 8 (w AND SSTATUS_SPP)) 0" by simp
    then have "\<not> bit (w AND SSTATUS_SPP) (8 + 0)" by (simp only: bit_drop_bit_eq comp_def not_False_eq_True)
    then have "\<not> bit (w AND SSTATUS_SPP) 8" by simp
    then show "w AND SSTATUS_SPP = 0"
      by (simp only: SSTATUS_SPP_def bit_and_iff and_exp_eq_0_iff_not_bit) (simp add: bit_exp_iff)
  qed simp
  then show ?thesis
    using schedule_None(2) [of "ticked t s"]
    by (auto simp: do_timer_def ticked_def Let_def sstatus_get_def case_prod_unfold upd_task_def)
qed

lemma inv_ticked: "proc_inv s \<Longrightarrow> proc_inv (ticked t s)"
  by (rule inv_update [where s = s and i = "current_task s" and c = "context_of (cur_task s)" and n = "counter (cur_task s) - 1"])
    (auto simp: ticked_def proc_inv_def)

lemma inv_do_timer: "proc_inv s \<Longrightarrow> proc_inv (do_timer t s)"
  by (simp add: do_timer_cases inv_ticked inv_schedule inv_switch_to inv_trap_return)

lemma inv_fork:
  assumes "proc_inv s" "sys_fork mmu s = Inr (r, s')" shows "proc_inv s'"
proof -
  obtain p t where p: "p < NR_TASK" "pidmap s ! p = 0" "pidmap s' = (pidmap s)[p := 1]" "current_task s' = current_task s"
    "task s' = (task s)
      [p := (task s ! p)\<lparr>pid := of_nat p, pgtable := t, counter := TASK_INITIAL_COUNTER,
             filename := filename (cur_task s), fpid := pid (cur_task s), state := TASK_RUNNING,
             context_of := (context_of (cur_task s))\<lparr>c_a0 := 0\<rparr>,
             mem_map := copied_map (mem_map (cur_task s)) (mem_map (task s ! p))\<rparr>,
       current_task s := (cur_task s)\<lparr>context_of := (context_of (cur_task s))\<lparr>c_a0 := of_nat p\<rparr>\<rparr>]"
    by (rule sys_fork_spec [OF assms(2,1)])
  then show ?thesis using assms(1) by (auto simp: proc_inv_def nth_list_update)
qed

lemma inv_syscall:
  assumes "proc_inv s" "syscall mmu s = Inr (r, s')" shows "proc_inv s'"
proof -
  consider "s' = upd_cur_context (\<lambda>c. c\<lparr>c_a0 := ucast (pid (cur_task s))\<rparr>) s" | "sys_fork mmu s = Inr (r, s')"
    | r' where "sys_write mmu (c_a0 (context_of (cur_task s))) (c_a1 (context_of (cur_task s))) (c_a2 (context_of (cur_task s))) s = Inr (r', s')"
    using assms(2) by (auto simp: syscall_def Let_def sys_getpid_def rbind_Inr_iff split: if_splits)
  then show ?thesis
  proof cases
    case 1
    then show ?thesis using inv_context [OF assms(1)] by simp
  next
    case 2
    then show ?thesis by (rule inv_fork [OF assms(1)])
  next
    case 3
    then have "task s' = task s" "pidmap s' = pidmap s" "current_task s' = current_task s"
      by (auto simp: sys_write_def Let_def rbind_Inr_iff sstatus_set_def split: if_splits)
    then show ?thesis by (rule inv_same [OF assms(1)])
  qed
qed

lemma inv_user_trap:
  assumes "proc_inv s" "user_trap mmu t regs s = Inr (regs', s')" shows "proc_inv s'"
proof -
  have e: "proc_inv (trap_entry regs s)" by (rule inv_same [OF assms(1)]) (simp_all add: trap_entry_def)
  let ?s = "upd_cur_context (\<lambda>_. sscratch_stack (trap_entry regs s)) (trap_entry regs s)"
  have ts: "trap_start mmu t (trap_entry regs s) = Inr s'"
    using assms(2) by (auto simp: user_trap_def rbind_Inr_iff)
  show ?thesis
  proof (cases "bit (r_scause (csr (trap_entry regs s))) 63")
    case True
    then have "s' = do_timer t ?s"
      using ts by (auto simp: trap_start_def scause_get_def handle_interrupt_def Let_def rbind_Inr_iff split: if_splits)
    then show ?thesis using inv_do_timer [OF inv_context [OF e]] by simp
  next
    case False
    then obtain r x where x: "syscall mmu (upd_cur_context (\<lambda>c. c\<lparr>c_sepc := c_sepc c + 4\<rparr>) ?s) = Inr (r, x)"
      "s' = trap_return_2 x"
      using ts by (auto simp: trap_start_def scause_get_def handle_exception_def Let_def rbind_Inr_iff split: if_splits)
    show ?thesis unfolding x(2) by (rule inv_trap_return, rule inv_syscall [OF _ x(1)], intro inv_context e)
  qed
qed


section \<open>A machine with two tasks\<close>

text \<open>The parameter is the number of ticks left to the first task, which is the current one.\<close>

definition zero_context :: trap_context where
  "zero_context = \<lparr>c_ra = 0, c_sp = 0, c_gp = 0, c_tp = 0, c_t0 = 0, c_t1 = 0, c_t2 = 0, c_s0 = 0, c_s1 = 0,
     c_a0 = 0, c_a1 = 0, c_a2 = 0, c_a3 = 0, c_a4 = 0, c_a5 = 0, c_a6 = 0, c_a7 = 0, c_s2 = 0, c_s3 = 0, c_s4 = 0,
     c_s5 = 0, c_s6 = 0, c_s7 = 0, c_s8 = 0, c_s9 = 0, c_s10 = 0, c_s11 = 0, c_t3 = 0, c_t4 = 0, c_t5 = 0, c_t6 = 0,
     c_sepc = 0\<rparr>"

definition blank_task :: task_struct where
  "blank_task = \<lparr>filename = replicate 12 0, pid = 0, fpid = 0, state = TASK_RUNNING, context_of = zero_context,
     pgtable = 0, mem_map = replicate MAX_VMA_NUM \<lparr>mem_start = 0, mem_range = 0, vma_flags = 0\<rparr>, counter = 0\<rparr>"

definition two_tasks :: "u64 \<Rightarrow> machine" where
  "two_tasks n =
    \<lparr>csr = \<lparr>r_sie = 0, r_sstatus = 0, r_stvec = 0, r_scause = 0, r_sscratch = 0, r_satp = 0\<rparr>,
     fsys = floppy_fs, mm = buddy_init zero_buddy, pmm_start = 0x80300000, k_pgtable = 0x80200000,
     task = (replicate NR_TASK blank_task)
       [0 := blank_task\<lparr>pgtable := 0x801fe000, counter := n\<rparr>,
        1 := blank_task\<lparr>pid := 1, pgtable := 0x801ff000, counter := TASK_INITIAL_COUNTER\<rparr>],
     current_task = 0, pidmap = (replicate NR_TASK 0)[0 := 1, 1 := 1], jiffies = 0, timer = 0,
     sscratch_stack = zero_context, printed = []\<rparr>"

lemma two_tasks_simps [simp]: "current_task (two_tasks n) = 0" "length (task (two_tasks n)) = NR_TASK"
  "task (two_tasks n) ! 0 = blank_task\<lparr>pgtable := 0x801fe000, counter := n\<rparr>"
  "task (two_tasks n) ! Suc 0 = blank_task\<lparr>pid := 1, pgtable := 0x801ff000, counter := TASK_INITIAL_COUNTER\<rparr>"
  by (simp_all add: two_tasks_def NR_TASK_def)

lemma two_tasks_inv: "proc_inv (two_tasks n)"
  by (auto simp: proc_inv_def two_tasks_def nth_list_update NR_TASK_def blank_task_def MAX_VMA_NUM_def)

end
