(* ===== verification/Scheduling.thy ===== *)
theory Scheduling
  imports Proc_Props
begin

text \<open>
  The timer: what one timer trap of user code does, when it switches tasks, how long a task can
  wait, and the wrap of an exhausted counter, after which nothing takes the processor away.
\<close>

section \<open>One timer trap\<close>

text \<open>
  The processor at a timer interrupt of user code: the cause is in \<open>scause\<close>, and \<open>SPP\<close> tells that
  the trap comes from user mode. \<open>t\<close> is the time, \<open>regs\<close> are the registers of the user code.
\<close>

definition timer_csr :: "csrs \<Rightarrow> csrs" where
  "timer_csr c = c\<lparr>r_scause := 0x8000000000000005, r_sstatus := r_sstatus c AND NOT SSTATUS_SPP\<rparr>"

definition timer_trap :: "mmu_fun \<Rightarrow> u64 \<Rightarrow> trap_context \<Rightarrow> machine \<Rightarrow> (trap_context \<times> machine) result" where
  "timer_trap mmu t regs s = user_trap mmu t regs (s\<lparr>csr := timer_csr (csr s)\<rparr>)"

text \<open>A task that may run, and one that has more ticks left than the current task after this tick.\<close>

definition ready :: "machine \<Rightarrow> nat \<Rightarrow> bool" where
  "ready s i \<longleftrightarrow> i < NR_TASK \<and> pgtable (task s ! i) \<noteq> 0 \<and> state (task s ! i) = TASK_RUNNING"

definition overtakes :: "machine \<Rightarrow> nat \<Rightarrow> bool" where
  "overtakes s i \<longleftrightarrow> ready s i \<and> i \<noteq> current_task s \<and> counter (task s ! i) > counter (cur_task s) - 1"

definition after_tick :: "trap_context \<Rightarrow> machine \<Rightarrow> task_struct list" where
  "after_tick regs s =
    (task s)[current_task s := (cur_task s)\<lparr>context_of := regs, counter := counter (cur_task s) - 1\<rparr>]"

lemma timer_bits:
  "bit (0x8000000000000005 :: u64) 63" "(0x8000000000000005 :: u64) AND 0xff = 5"
  by (simp_all add: bit_iff_odd)

lemma spp_clear [simp]: "(w AND NOT SSTATUS_SPP) AND SSTATUS_SPP = 0"
  by (simp add: bit_eq_iff bit_simps)

lemma timer_trap_unfold:
  "timer_trap mmu t regs s =
    (let s1 = do_timer t (upd_cur_context (\<lambda>_. regs) (s\<lparr>csr := timer_csr (csr s), sscratch_stack := regs\<rparr>))
     in Inr (trap_return s1, s1))"
  by (simp add: timer_trap_def user_trap_def trap_entry_def trap_start_def handle_interrupt_def scause_get_def
      timer_csr_def timer_bits S_TIMER_INT_def Let_def)

lemma timer_trap_cases:
  assumes "current_task s < length (task s)"
  obtains (switch) i s' where "overtakes s i" "\<forall>j<i. \<not> overtakes s j" "current_task s' = i"
      "timer_trap mmu t regs s = Inr (context_of (cur_task s'), s')" "task s' = after_tick regs s"
      "jiffies s' = jiffies s + 1" "timer s' = t + TIMER_CLK_RATE" "fsys s' = fsys s" "mm s' = mm s" "pidmap s' = pidmap s"
      "r_satp (csr s') = activate_sv39 (drop_bit 12 (pgtable (cur_task s')))"
  | (stay) s' where "\<forall>i. \<not> overtakes s i" "current_task s' = current_task s"
      "timer_trap mmu t regs s = Inr (context_of (cur_task s'), s')" "task s' = after_tick regs s"
      "jiffies s' = jiffies s + 1" "timer s' = t + TIMER_CLK_RATE" "fsys s' = fsys s" "mm s' = mm s" "pidmap s' = pidmap s"
      "r_satp (csr s') = r_satp (csr s)"
proof -
  let ?s0 = "upd_cur_context (\<lambda>_. regs) (s\<lparr>csr := timer_csr (csr s), sscratch_stack := regs\<rparr>)"
  let ?s1 = "ticked t ?s0"
  have s1: "task ?s1 = after_tick regs s" "current_task ?s1 = current_task s" "pidmap ?s1 = pidmap s"
    "jiffies ?s1 = jiffies s + 1" "timer ?s1 = t + TIMER_CLK_RATE" "fsys ?s1 = fsys s" "mm ?s1 = mm s"
    "csr ?s1 = timer_csr (csr s)" "csr ?s0 = timer_csr (csr s)"
    using assms by (simp_all add: ticked_def upd_cur_context_def after_tick_def)
  have "pgtable (after_tick regs s ! i) = pgtable (task s ! i) \<and> state (after_tick regs s ! i) = state (task s ! i) \<and>
      counter (after_tick regs s ! i) = (if i = current_task s then counter (cur_task s) - 1 else counter (task s ! i))" for i
    using assms by (cases "i = current_task s") (simp_all add: after_tick_def)
  then have over: "(let p = task ?s1 ! i in pgtable p \<noteq> 0 \<and> state p = TASK_RUNNING \<and> i \<noteq> current_task ?s1 \<and>
      counter p > counter (cur_task ?s1)) \<and> i < NR_TASK \<longleftrightarrow> overtakes s i" for i
    unfolding s1 by (auto simp: overtakes_def ready_def Let_def)
  have tt: "timer_trap mmu t regs s = Inr (context_of (cur_task s'), s')" if "do_timer t ?s0 = s'" "sscratch_stack s' = context_of (cur_task s')" for s'
    using that by (simp add: timer_trap_unfold trap_return_def)
  have dt: "do_timer t ?s0 = (if fst (schedule ?s1) then switch_to (snd (schedule ?s1)) else trap_return_2 ?s1)"
    unfolding do_timer_cases s1(9) by (simp add: timer_csr_def)
  show ?thesis
  proof (cases "find (\<lambda>i. let p = task ?s1 ! i in pgtable p \<noteq> 0 \<and> state p = TASK_RUNNING \<and> i \<noteq> current_task ?s1 \<and>
      counter p > counter (cur_task ?s1)) [0..<NR_TASK]")
    case None
    then have "\<forall>i. \<not> overtakes s i" using over by (auto simp: find_None_iff)
    moreover have "\<not> fst (schedule ?s1)" using None by (simp add: schedule_def)
    ultimately show ?thesis
      by (intro stay [of "trap_return_2 ?s1"] tt) (use s1 in \<open>simp_all add: dt trap_return_2_def\<close>, simp add: timer_csr_def)
  next
    case (Some i)
    then have i: "overtakes s i" "\<forall>j<i. \<not> overtakes s j"
      using over [of i] over [THEN iffD2, THEN conjunct1] unfolding find_Some_iff by auto
    have sch: "schedule ?s1 = (True, ?s1\<lparr>current_task := i\<rparr>)" using Some by (simp add: schedule_def)
    show ?thesis
      by (rule switch [OF i, of "switch_to (?s1\<lparr>current_task := i\<rparr>)"])
        (simp_all add: tt dt sch switch_to_def trap_return_2_def sstatus_set_def satp_set_def Let_def s1 activate_sv39_def)
  qed
qed

text \<open>
  C5: a timer trap of user code saves the registers in the context of the current task and takes a
  tick from it; every other task, the memory and the allocator stay as they are. The first task
  with more ticks than are left to the current one is resumed, on its own page table, with the
  registers saved for it; without such a task the interrupted code goes on with its own registers.
\<close>

theorem timer_trap_switches:
  assumes "proc_inv s"
  shows "\<exists>s'. timer_trap mmu t regs s = Inr (context_of (cur_task s'), s') \<and>
    task s' = (task s)[current_task s := (cur_task s)\<lparr>context_of := regs, counter := counter (cur_task s) - 1\<rparr>] \<and>
    jiffies s' = jiffies s + 1 \<and> timer s' = t + TIMER_CLK_RATE \<and> fsys s' = fsys s \<and> mm s' = mm s \<and> pidmap s' = pidmap s \<and>
    (if \<exists>i. overtakes s i then
       overtakes s (current_task s') \<and> (\<forall>j<current_task s'. \<not> overtakes s j) \<and>
       r_satp (csr s') = activate_sv39 (drop_bit 12 (pgtable (cur_task s'))) \<and>
       context_of (cur_task s') = context_of (task s ! current_task s')
     else current_task s' = current_task s \<and> context_of (cur_task s') = regs \<and> r_satp (csr s') = r_satp (csr s))"
proof -
  have "current_task s < length (task s)" using assms by (simp add: proc_inv_def)
  then show ?thesis
  proof (cases rule: timer_trap_cases [where mmu = mmu and t = t and regs = regs])
    case (switch i s')
    moreover from this have "current_task s \<noteq> i" by (simp add: overtakes_def)
    ultimately show ?thesis by (intro exI [of _ s']) (auto simp: after_tick_def)
  next
    case (stay s')
    then show ?thesis using \<open>current_task s < length (task s)\<close>
      by (intro exI [of _ s']) (simp add: after_tick_def)
  qed
qed

section \<open>Runs of timer traps\<close>

fun timer_run :: "mmu_fun \<Rightarrow> (u64 \<times> trap_context) list \<Rightarrow> machine \<Rightarrow> machine result" where
  "timer_run mmu [] s = Inr s"
| "timer_run mmu ((t, regs) # xs) s = rbind (timer_trap mmu t regs s) (\<lambda>(_, s). timer_run mmu xs s)"

lemma ready_after_tick: "task s' = after_tick regs s \<Longrightarrow> ready s' i \<longleftrightarrow> ready s i"
  by (cases "i = current_task s"; cases "current_task s < length (task s)") (simp_all add: ready_def after_tick_def list_update_beyond)

lemma counters_after_tick:
  assumes "task s' = after_tick regs s" "current_task s < length (task s)"
  shows "i \<noteq> current_task s \<Longrightarrow> counter (task s' ! i) = counter (task s ! i)"
    "counter (task s' ! current_task s) = counter (cur_task s) - 1" "length (task s') = length (task s)"
    "context_of (task s' ! current_task s) = regs"
  using assms by (simp_all add: after_tick_def)

lemma unat_pred: "0 < (n :: u64) \<Longrightarrow> unat (n - 1) = unat n - 1"
  by (simp add: unat_minus_one word_gt_0)

lemma waiting_run:
  "\<lbrakk> current_task s < length (task s); ready s q; q \<noteq> current_task s; 0 < counter (task s ! q);
     0 < counter (cur_task s); length xs = unat (counter (cur_task s)) - unat (counter (task s ! q)) + 1 \<rbrakk> \<Longrightarrow>
   \<exists>ys zs s'. xs = ys @ zs \<and> ys \<noteq> [] \<and> timer_run mmu ys s = Inr s' \<and> ready s' (current_task s') \<and>
     current_task s' \<noteq> current_task s \<and> context_of (task s' ! current_task s) = snd (last ys)"
proof (induction xs arbitrary: s)
  case (Cons x xs)
  obtain t regs where x: "x = (t, regs)" by (cases x)
  from Cons.prems(1) show ?case
  proof (cases rule: timer_trap_cases [where mmu = mmu and t = t and regs = regs])
    case (switch i s')
    then have "ready s' i" "i \<noteq> current_task s" using ready_after_tick [OF switch(5)] by (auto simp: overtakes_def)
    then show ?thesis using switch x counters_after_tick [OF switch(5) Cons.prems(1)]
      by (intro exI [of _ "[x]"] exI [of _ xs] exI [of _ s']) simp
  next
    case (stay s')
    note c = counters_after_tick [OF stay(4) Cons.prems(1)]
    have "counter (task s ! q) \<le> counter (cur_task s) - 1"
      using stay(1) Cons.prems(2,3) by (auto simp: overtakes_def not_less)
    then have q: "unat (counter (task s ! q)) \<le> unat (counter (cur_task s)) - 1"
      using Cons.prems(5) by (simp add: word_le_nat_alt unat_pred)
    have "0 < unat (counter (task s ! q))" using Cons.prems(4) by (simp add: word_less_nat_alt)
    with q have "0 < counter (cur_task s')"
      using c(2) stay(2) Cons.prems(5) by (simp add: word_less_nat_alt unat_pred)
    moreover have "length xs = unat (counter (cur_task s')) - unat (counter (task s' ! q)) + 1"
      using Cons.prems(3,5,6) c(1) [of q] c(2) stay(2) q \<open>0 < unat (counter (task s ! q))\<close> by (simp add: unat_pred)
    ultimately obtain ys zs u where "xs = ys @ zs" "ys \<noteq> []" "timer_run mmu ys s' = Inr u" "ready u (current_task u)"
      "current_task u \<noteq> current_task s" "context_of (task u ! current_task s) = snd (last ys)"
      using Cons.IH [of s'] Cons.prems c stay ready_after_tick [OF stay(4)] by auto
    then show ?thesis using stay(3) x
      by (intro exI [of _ "x # ys"] exI [of _ zs] exI [of _ u]) simp
  qed
qed simp

text \<open>
  C6: while a task with ticks left waits, the current task, if it has ticks left too, loses the
  processor after at most as many timer traps as it has more ticks than the waiting one, plus one,
  with the registers of its last trap saved.
\<close>

theorem waiting_task_preempts:
  assumes "proc_inv s" and "ready s q" and "q \<noteq> current_task s" and "0 < counter (task s ! q)"
    and "0 < counter (cur_task s)"
    and "unat (counter (cur_task s)) - unat (counter (task s ! q)) < length xs"
  shows "\<exists>ys zs s'. xs = ys @ zs \<and> ys \<noteq> [] \<and> timer_run mmu ys s = Inr s' \<and> ready s' (current_task s') \<and>
    length ys \<le> unat (counter (cur_task s)) - unat (counter (task s ! q)) + 1 \<and>
    current_task s' \<noteq> current_task s \<and> context_of (task s' ! current_task s) = snd (last ys)"
proof -
  let ?n = "unat (counter (cur_task s)) - unat (counter (task s ! q)) + 1"
  have "current_task s < length (task s)" using assms(1) by (simp add: proc_inv_def)
  from waiting_run [OF this assms(2-5), of "take ?n xs" mmu] assms(6) obtain ys zs s' where
    r: "take ?n xs = ys @ zs" "ys \<noteq> []" "timer_run mmu ys s = Inr s'" "ready s' (current_task s')"
    "current_task s' \<noteq> current_task s" "context_of (task s' ! current_task s) = snd (last ys)" by auto
  have "length (ys @ zs) \<le> ?n" unfolding r(1) [symmetric] by simp
  then have "xs = ys @ zs @ drop ?n xs" "length ys \<le> ?n" using r(1) append_take_drop_id [of ?n xs] by simp_all
  then show ?thesis using r(2-) by blast
qed

lemma keeps_run:
  "\<lbrakk> current_task s < length (task s); unat (counter (cur_task s)) \<ge> n + length xs;
     \<forall>i. ready s i \<and> i \<noteq> current_task s \<longrightarrow> unat (counter (task s ! i)) \<le> n \<rbrakk> \<Longrightarrow>
   \<exists>s'. timer_run mmu xs s = Inr s' \<and> current_task s' = current_task s"
proof (induction xs arbitrary: s)
  case (Cons x xs)
  obtain t regs where x: "x = (t, regs)" by (cases x)
  have pos: "0 < counter (cur_task s)" using Cons.prems(2) by (simp add: word_less_nat_alt)
  from Cons.prems(1) show ?case
  proof (cases rule: timer_trap_cases [where mmu = mmu and t = t and regs = regs])
    case (switch i s')
    then have "unat (counter (cur_task s)) - 1 < unat (counter (task s ! i))" "unat (counter (task s ! i)) \<le> n"
      using Cons.prems(3) pos by (auto simp: overtakes_def word_less_nat_alt unat_pred)
    then show ?thesis using Cons.prems(2) by simp
  next
    case (stay s')
    note c = counters_after_tick [OF stay(4) Cons.prems(1)]
    have "\<exists>u. timer_run mmu xs s' = Inr u \<and> current_task u = current_task s'"
      by (rule Cons.IH) (use Cons.prems c stay(2) ready_after_tick [OF stay(4)] pos in \<open>auto simp: unat_pred\<close>)
    then show ?thesis using stay x by simp
  qed
qed simp

text \<open>
  C36: the counter of the current task is not checked for zero: when it has run out, the next timer
  trap wraps it to the largest number, and with the other ready tasks at \<open>TASK_INITIAL_COUNTER\<close> or
  less none of them runs for the next 2^64 - 257 traps.
\<close>

theorem exhausted_task_keeps_processor:
  assumes "proc_inv s" and "counter (cur_task s) = 0" and "length xs \<le> 2 ^ 64 - 257"
    and "\<forall>i. ready s i \<and> i \<noteq> current_task s \<longrightarrow> counter (task s ! i) \<le> TASK_INITIAL_COUNTER"
  shows "\<exists>s'. timer_run mmu xs s = Inr s' \<and> current_task s' = current_task s"
proof (cases xs)
  case (Cons x ys)
  obtain t regs where x: "x = (t, regs)" by (cases x)
  have cur: "current_task s < length (task s)" using assms(1) by (simp add: proc_inv_def)
  have others: "\<forall>i. ready s i \<and> i \<noteq> current_task s \<longrightarrow> unat (counter (task s ! i)) \<le> 256"
    using assms(4) by (simp add: TASK_INITIAL_COUNTER_def word_le_nat_alt)
  have top: "unat (counter (cur_task s) - 1) = 2 ^ 64 - 1" using assms(2) by (simp add: unsigned_minus_1_eq_mask mask_eq_exp_minus_1)
  from cur show ?thesis
  proof (cases rule: timer_trap_cases [where mmu = mmu and t = t and regs = regs])
    case (switch i s')
    then have "2 ^ 64 - 1 < unat (counter (task s ! i))" using top by (simp add: overtakes_def word_less_nat_alt)
    with switch(1) others show ?thesis by (fastforce simp: overtakes_def)
  next
    case (stay s')
    note c = counters_after_tick [OF stay(4) cur]
    have "\<exists>u. timer_run mmu ys s' = Inr u \<and> current_task u = current_task s'"
      by (rule keeps_run [where n = 256])
        (use cur c stay(2) others top assms(3) Cons ready_after_tick [OF stay(4)] in auto)
    then show ?thesis using stay x Cons by simp
  qed
qed simp

section \<open>Witnesses\<close>

lemma two_tasks_ready: "ready (two_tasks n) i \<longleftrightarrow> i = 0 \<or> i = 1"
  by (auto simp: ready_def two_tasks_def NR_TASK_def nth_list_update blank_task_def)

theorem timer_trap_switches_witness:
  "\<exists>s'. timer_trap (\<lambda>m satp va. None) 0 zero_context (two_tasks 5) = Inr (zero_context, s') \<and> current_task s' = 1"
proof -
  have over: "overtakes (two_tasks 5) 1"
    by (simp add: overtakes_def two_tasks_ready TASK_INITIAL_COUNTER_def)
  have only: "overtakes (two_tasks 5) i \<Longrightarrow> i = 1" for i by (auto simp: overtakes_def two_tasks_ready)
  have ex: "\<exists>i. overtakes (two_tasks 5) i" using over by blast
  from timer_trap_switches [OF two_tasks_inv [of 5], of "\<lambda>m satp va. None" 0 zero_context] obtain s' where
    "timer_trap (\<lambda>m satp va. None) 0 zero_context (two_tasks 5) = Inr (context_of (cur_task s'), s')"
    "overtakes (two_tasks 5) (current_task s')" "context_of (cur_task s') = context_of (task (two_tasks 5) ! current_task s')"
    by (auto simp: ex)
  with only [of "current_task s'"] show ?thesis by (auto simp: blank_task_def)
qed

theorem waiting_task_preempts_witness:
  "\<exists>ys s'. timer_run (\<lambda>m satp va. None) ys (two_tasks 300) = Inr s' \<and> length ys \<le> 45 \<and> current_task s' \<noteq> 0"
  using waiting_task_preempts [OF two_tasks_inv, of 300 1 "replicate 45 (0, zero_context)" "\<lambda>m satp va. None"]
  by (auto simp: two_tasks_ready blank_task_def TASK_INITIAL_COUNTER_def)

theorem exhausted_task_keeps_processor_witness:
  "\<exists>s'. timer_run (\<lambda>m satp va. None) (replicate 1000000 (0, zero_context)) (two_tasks 0) = Inr s' \<and> current_task s' = 0"
proof -
  have "ready (two_tasks 0) i \<and> i \<noteq> current_task (two_tasks 0) \<longrightarrow> counter (task (two_tasks 0) ! i) \<le> TASK_INITIAL_COUNTER" for i
    by (auto simp: two_tasks_ready)
  then show ?thesis
    using exhausted_task_keeps_processor [OF two_tasks_inv, of 0 "replicate 1000000 (0, zero_context)" "\<lambda>m satp va. None"]
    by (simp add: blank_task_def)
qed

end
