(* ===== verification/Syscalls.thy ===== *)
theory Syscalls
  imports Scheduling
begin

text \<open>
  System calls: the registers with which user code goes on after an \<open>ecall\<close>, the processes that
  \<open>fork\<close> leaves, and the calls that end the kernel.
\<close>

section \<open>One ecall\<close>

definition ecall_csr :: "csrs \<Rightarrow> csrs" where
  "ecall_csr c = c\<lparr>r_scause := SYSCALL_FROM_U_MODE, r_sstatus := r_sstatus c AND NOT SSTATUS_SPP\<rparr>"

definition ecall :: "mmu_fun \<Rightarrow> trap_context \<Rightarrow> machine \<Rightarrow> (trap_context \<times> machine) result" where
  "ecall mmu regs s = user_trap mmu 0 regs (s\<lparr>csr := ecall_csr (csr s)\<rparr>)"

text \<open>The state in which the system call starts: the registers are saved and the call is passed over.\<close>

definition in_call :: "trap_context \<Rightarrow> machine \<Rightarrow> machine" where
  "in_call regs s = upd_cur_context (\<lambda>_. regs\<lparr>c_sepc := c_sepc regs + 4\<rparr>) (s\<lparr>csr := ecall_csr (csr s), sscratch_stack := regs\<rparr>)"

lemma in_call_simps [simp]: "pidmap (in_call regs s) = pidmap s" "current_task (in_call regs s) = current_task s"
  "fsys (in_call regs s) = fsys s" "mm (in_call regs s) = mm s" "printed (in_call regs s) = printed s" "jiffies (in_call regs s) = jiffies s"
  "task (in_call regs s) = (task s)[current_task s := (cur_task s)\<lparr>context_of := regs\<lparr>c_sepc := c_sepc regs + 4\<rparr>\<rparr>]"
  "csr (in_call regs s) = ecall_csr (csr s)" "pmm_start (in_call regs s) = pmm_start s" "k_pgtable (in_call regs s) = k_pgtable s"
  by (simp_all add: in_call_def upd_cur_context_def)

lemma trap_start_ecall:
  assumes "r_scause (csr u) = 8"
  shows "trap_start mmu t u =
    rbind (syscall mmu (upd_cur_context (\<lambda>c. c\<lparr>c_sepc := c_sepc c + 4\<rparr>) (upd_cur_context (\<lambda>_. sscratch_stack u) u)))
      (\<lambda>(r, x). Inr (trap_return_2 x))"
proof -
  have "\<not> bit (8 :: u64) 63" "(8 :: u64) AND 0xff = 8" by (simp_all add: bit_iff_odd)
  with assms show ?thesis
    unfolding trap_start_def scause_get_def handle_exception_def SYSCALL_FROM_U_MODE_def Let_def
    by (simp only: rbind_assoc case_prod_unfold rbind_simps if_True if_False simp_thms)
qed

lemma ecall_unfold:
  assumes "current_task s < length (task s)"
  shows "ecall mmu regs s =
    rbind (syscall mmu (in_call regs s)) (\<lambda>(r, x). Inr (context_of (cur_task x), trap_return_2 x))"
proof -
  let ?u = "s\<lparr>csr := ecall_csr (csr s), sscratch_stack := regs\<rparr>"
  have u: "trap_entry regs (s\<lparr>csr := ecall_csr (csr s)\<rparr>) = ?u" "r_scause (csr ?u) = 8" "sscratch_stack ?u = regs"
    by (simp_all add: trap_entry_def ecall_csr_def SYSCALL_FROM_U_MODE_def)
  have "upd_cur_context (\<lambda>c. c\<lparr>c_sepc := c_sepc c + 4\<rparr>) (upd_cur_context (\<lambda>_. regs) ?u) = in_call regs s"
    using assms by (simp add: in_call_def upd_cur_context_def upd_task_def)
  then have "trap_start mmu 0 ?u = rbind (syscall mmu (in_call regs s)) (\<lambda>(r, x). Inr (trap_return_2 x))"
    by (simp only: trap_start_ecall [OF u(2)] u(3))
  then show ?thesis unfolding ecall_def user_trap_def u(1)
    by (simp only: rbind_assoc case_prod_unfold rbind_simps) (simp add: trap_return_def trap_return_2_def)
qed

lemma in_call_inv: "proc_inv s \<Longrightarrow> proc_inv (in_call regs s)"
  unfolding in_call_def by (rule inv_context, rule inv_same [of s]) simp_all

lemma in_call_cur: "proc_inv s \<Longrightarrow> context_of (cur_task (in_call regs s)) = regs\<lparr>c_sepc := c_sepc regs + 4\<rparr>"
  by (simp add: proc_inv_def)

lemma proc_inv_cur: "proc_inv s \<Longrightarrow> current_task s < length (task s)"
  by (simp add: proc_inv_def)

section \<open>The calls\<close>

text \<open>Every byte of a buffer of user code can be read: address \<open>buf + i\<close> is at \<open>pa i\<close>.\<close>

definition readable_user :: "mmu_fun \<Rightarrow> u64 \<Rightarrow> bytes \<Rightarrow> u64 \<Rightarrow> (nat \<Rightarrow> u64) \<Rightarrow> nat \<Rightarrow> bool" where
  "readable_user mmu satp m buf pa n \<longleftrightarrow> (\<forall>i<n. mmu m satp (buf + of_nat i) = Some (pa i))"

lemma read_user_ok:
  "readable_user mmu satp m buf pa n \<Longrightarrow> read_user mmu satp n buf m = Inr (map (\<lambda>i. m (pa i)) [0..<n])"
proof (induction n arbitrary: buf pa)
  case (Suc n)
  have "readable_user mmu satp m (buf + 1) (\<lambda>i. pa (Suc i)) n"
    using Suc.prems by (auto simp: readable_user_def algebra_simps dest: spec [of _ "Suc _"])
  moreover have "mmu m satp buf = Some (pa 0)"
    using Suc.prems [unfolded readable_user_def, rule_format, of 0] by simp
  ultimately show ?case using Suc.IH by (simp add: map_upt_Suc del: upt_Suc)
qed simp

lemma ucast_small:
  assumes "unat (w :: u64) < 2 ^ 32" shows "unat (ucast w :: u32) = unat w"
proof -
  have "(ucast w :: u32) = of_nat (unat w)" by simp
  with assms show ?thesis using unat_of_nat_u32 [of "unat w"] by simp
qed

lemma sys_write_prints:
  assumes "unat len < 256" "readable_user mmu (r_satp (csr s)) (mem s) buf pa (unat len)"
  shows "sys_write mmu 0 buf len s = Inr (ucast len, s\<lparr>csr := (csr s)\<lparr>r_sstatus := (r_sstatus (csr s) OR SSTATUS_SUM) AND NOT SSTATUS_SUM\<rparr>,
      printed := printed s @ takeWhile (\<lambda>c. c \<noteq> 0) (map (\<lambda>i. mem s (pa i)) [0..<unat len])\<rparr>)"
proof -
  have "unat (ucast len :: u32) = unat len" using assms(1) by (intro ucast_small) simp
  with assms(1) read_user_ok [OF assms(2)] show ?thesis
    by (simp add: sys_write_def Let_def sstatus_set_def sstatus_get_def satp_get_def)
qed

lemma sys_write_overrun:
  assumes "256 \<le> unat len" "unat len < 2 ^ 32" "readable_user mmu (r_satp (csr s)) (mem s) buf pa (unat len)"
  shows "sys_write mmu 0 buf len s = Inl Out_Of_Bounds"
  using assms(1) read_user_ok [OF assms(3)] ucast_small [OF assms(2)]
  by (simp add: sys_write_def Let_def sstatus_set_def satp_get_def guard_def)

lemma syscall_in_call:
  assumes "proc_inv s"
  shows "syscall mmu (in_call regs s) =
     (if c_a7 regs = SYSCALL_GETPID then Inr (sys_getpid (in_call regs s))
      else if c_a7 regs = SYSCALL_FORK then sys_fork mmu (in_call regs s)
      else if c_a7 regs = SYSCALL_WRITE then
        rbind (sys_write mmu (c_a0 regs) (c_a1 regs) (c_a2 regs) (in_call regs s)) (\<lambda>(r, s). Inr (scast r, s))
      else rbind (guard Out_Of_Bounds (c_a7 regs \<le> 64)) (\<lambda>_. Inl (Panic ''unexpected syscall number: %d'')))"
  unfolding syscall_def Let_def in_call_cur [OF assms]
  by (simp add: SYSCALL_GETPID_def SYSCALL_FORK_def SYSCALL_WRITE_def)

lemmas call_numbers = SYSCALL_GETPID_def SYSCALL_FORK_def SYSCALL_WRITE_def

text \<open>The state after a call that only changes the registers of its caller.\<close>

definition call_returns :: "trap_context \<Rightarrow> u8 list \<Rightarrow> machine \<Rightarrow> machine \<Rightarrow> bool" where
  "call_returns regs out s s' \<longleftrightarrow> task s' = (task s)[current_task s := (cur_task s)\<lparr>context_of := regs\<rparr>] \<and>
     current_task s' = current_task s \<and> pidmap s' = pidmap s \<and> fsys s' = fsys s \<and> mm s' = mm s \<and> printed s' = printed s @ out"

lemma getpid_returns:
  assumes "proc_inv s" "c_a7 regs = SYSCALL_GETPID"
  defines "regs' \<equiv> regs\<lparr>c_sepc := c_sepc regs + 4, c_a0 := of_nat (current_task s)\<rparr>"
  shows "\<exists>s'. ecall mmu regs s = Inr (regs', s') \<and> call_returns regs' [] s s'"
proof -
  note cur = proc_inv_cur [OF assms(1)]
  have i: "current_task s < 64" "pid (cur_task s) = of_nat (current_task s)" using assms(1) by (auto simp: proc_inv_def NR_TASK_def)
  have "unat (of_nat (current_task s) :: u32) = current_task s" using i(1) by (intro unat_of_nat_u32) simp
  then have "(ucast (pid (cur_task s)) :: u64) = of_nat (current_task s)" unfolding i(2) by (metis of_nat_unat)
  with cur assms(2) show ?thesis
    by (simp add: ecall_unfold [OF cur] syscall_in_call [OF assms(1)] sys_getpid_def Let_def upd_cur_context_def
        trap_return_2_def call_returns_def regs'_def)
qed

lemma write_returns:
  assumes "proc_inv s" "c_a7 regs = SYSCALL_WRITE" "sys_write mmu (c_a0 regs) (c_a1 regs) (c_a2 regs) (in_call regs s) =
      Inr (r, (in_call regs s)\<lparr>csr := c, printed := printed s @ out\<rparr>)"
  defines "regs' \<equiv> regs\<lparr>c_sepc := c_sepc regs + 4\<rparr>"
  shows "\<exists>s'. ecall mmu regs s = Inr (regs', s') \<and> call_returns regs' out s s'"
  using proc_inv_cur [OF assms(1)] assms(2,3)
  by (simp add: ecall_unfold syscall_in_call [OF assms(1)] call_numbers trap_return_2_def call_returns_def regs'_def)



section \<open>fork\<close>


end
