(* ===== verification/User_Pages.thy ===== *)
theory User_Pages
  imports Vms
begin

text \<open>
  What the page tables of a process use of the memory: the tables that \<open>map\<close> links into a tree
  come from the pool of free pages, and a block from \<open>kalloc\<close> that is mapped into a tree holds its
  bytes at the mapped addresses. Used for \<open>fork\<close> and for programs that are loaded.
\<close>

section \<open>New tables come from the pool\<close>

definition tables_from :: "u64 set \<Rightarrow> u64 \<Rightarrow> bytes \<Rightarrow> bytes \<Rightarrow> bool" where
  "tables_from P root m m' \<longleftrightarrow>
    (\<forall>qs\<in>paths. \<forall>b. tab m' root qs = Some b \<longrightarrow> tab m root qs = Some b \<or> b \<in> P)"

lemma tables_from_refl: "tables_from P root m m"
  by (simp add: tables_from_def)

lemma tables_from_trans:
  "\<lbrakk> tables_from P root m m1; tables_from Q root m1 m2; Q \<subseteq> P \<rbrakk> \<Longrightarrow> tables_from P root m m2"
  unfolding tables_from_def by blast

context page_allocator
begin

lemma map_step_from:
  assumes t: "tree m s root" and p: "is \<in> paths" "length is < 2" "tab m root is = Some a" "i < 512"
    and perm: "perm < 1024" and r: "map_step alloc perm (a + of_nat (8 * i)) m s = Inr (b, m', s')"
  shows "tables_from (pool s) root m m' \<and> pool s' \<subseteq> pool s"
proof (cases "valid (entry m a i)")
  case True
  then have "m' = m" "s' = s" using r by (auto simp: map_step_def entry_def)
  then show ?thesis by (simp add: tables_from_refl)
next
  case False
  then have al: "alloc s = Inr (b, s')" and m': "m' = store64 (a + of_nat (8 * i)) (table_pte b perm) m"
    using r by (auto simp: map_step_def entry_def rbind_Inr_iff)
  have inv: "inv s" using t by (simp add: tree_def)
  from tab_new(1) [OF t p False al perm m'] alloc_from_pool [OF inv al] alloc_takes [OF inv al]
  show ?thesis unfolding tables_from_def by (auto split: if_splits)
qed

lemma map_walk_from:
  assumes t: "tree m s root" and perm: "perm < 1024"
    and r: "map_walk alloc va pa perm 2 root m s = Inr (m', s')"
  shows "tables_from (pool s) root m m' \<and> pool s' \<subseteq> pool s"
proof -
  from r obtain a1 m1 s1 a2 m2 s2 where
    s1: "map_step alloc perm (root + of_nat (8 * px 2 va)) m s = Inr (a1, m1, s1)" and
    s2: "map_step alloc perm (a1 + of_nat (8 * px 1 va)) m1 s1 = Inr (a2, m2, s2)" and
    leaf: "m' = store64 (a2 + of_nat (8 * px 0 va)) (leaf_pte pa perm) m2" "s' = s2"
    unfolding PX_offset [symmetric]
    by (auto simp: numeral_2_eq_2 Let_def rbind_Inr_iff split: if_splits)
  have root: "tab m root [] = Some root" by simp
  note 1 = map_step_ok [OF t path2(3) _ root px_less perm s1] map_step_from [OF t path2(3) _ root px_less perm s1]
  then have t1: "tree m1 s1 root" "tab m1 root [px 2 va] = Some a1"
    by (simp_all only: append_Nil list.size)
  note 2 = map_step_ok [OF t1(1) path2(2) _ t1(2) px_less perm s2] map_step_from [OF t1(1) path2(2) _ t1(2) px_less perm s2]
  then have t2: "tree m2 s2 root" "tab m2 root [px 2 va, px 1 va] = Some a2" by (simp_all del: tab.simps)
  have ok: "tables_ok (pool s2) m2 root" using t2(1) by (simp add: tree_def)
  have "tab m' root qs = tab m2 root qs" if "qs \<in> paths" for qs
    unfolding leaf(1) by (rule tab_store_other [OF ok path2(1) t2(2) px_less that]) (use that in \<open>auto simp: paths_def\<close>)
  then have "tables_from {} root m2 m'" by (simp add: tables_from_def)
  moreover have "tables_from (pool s) root m m1" "pool s1 \<subseteq> pool s" "tables_from (pool s1) root m1 m2" "pool s2 \<subseteq> pool s1"
    using 1(2) 2(2) by simp_all
  ultimately show ?thesis using leaf(2) tables_from_trans by (metis empty_subsetI subset_trans)
qed

lemma map_loop_from:
  "\<lbrakk> tree m s root; perm < 1024; spans va n end_va;
     map_loop alloc root end_va perm va pa m s = Some (Inr (m', s')) \<rbrakk> \<Longrightarrow>
   tables_from (pool s) root m m' \<and> pool s' \<subseteq> pool s"
proof (induction n arbitrary: va pa m s)
  case 0
  then show ?case using spans_0 [of va end_va] by (simp add: map_loop.simps tables_from_refl)
next
  case (Suc n)
  note sp = spans_Suc [OF Suc.prems(3)]
  from Suc.prems(4) sp(1) obtain m1 s1 where w: "map_walk alloc va pa perm 2 root m s = Inr (m1, s1)"
    and l: "map_loop alloc root end_va perm (va + 4096) (pa + 4096) m1 s1 = Some (Inr (m', s'))"
    by (auto simp: map_loop.simps [of alloc root end_va perm va] PGSIZE_def split: sum.splits)
  from Suc.IH [OF _ Suc.prems(2) sp(2) l] map_walk_ok [OF Suc.prems(1,2) w] map_walk_from [OF Suc.prems(1,2) w]
  show ?case using tables_from_trans by blast
qed

end

section \<open>Addresses in a page\<close>

lemma align_mod: "align a \<longleftrightarrow> unat a mod 4096 = 0"
proof -
  have "(0xfff :: u64) = mask 12" by (simp add: mask_eq_exp_minus_1)
  then have "align a \<longleftrightarrow> take_bit 12 a = 0" by (simp add: align_def take_bit_eq_mask)
  then show ?thesis by (simp add: word_unat_eq_iff take_bit_eq_mod unat_mod)
qed

lemma offset_take: "OFFSET a = take_bit 12 a"
proof -
  have "(0xfff :: u64) = mask 12" by (simp add: mask_eq_exp_minus_1)
  then show ?thesis by (simp add: OFFSET_def take_bit_eq_mask)
qed

lemma in_page:
  assumes "align a" "r < 4096"
  shows "unat (a + of_nat r) = unat a + r" "drop_bit 12 (a + of_nat r) = drop_bit 12 a" "OFFSET (a + of_nat r) = of_nat r"
proof -
  have m: "unat a mod 4096 = 0" using assms(1) by (simp add: align_mod)
  then obtain q where q: "unat a = 4096 * q" by auto
  have "unat a < 2 ^ 64" using unsigned_less [of a, where 'a = nat] by simp
  then have "q < 2 ^ 52" using q by simp
  then have "unat a + r < 2 ^ 64" using q assms(2) by simp
  then have "unat (of_nat (unat a + r) :: u64) = unat a + r" by (rule unat_of_nat_u64)
  then show u: "unat (a + of_nat r) = unat a + r" by simp
  have d: "unat (drop_bit 12 (x :: u64)) = unat x div 4096" for x by (simp add: unat_drop_bit_eq drop_bit_eq_div unat_div)
  show "drop_bit 12 (a + of_nat r) = drop_bit 12 a"
    using q assms(2) by (simp only: word_unat_eq_iff d u) simp
  have "unat (of_nat r :: u64) = r" using assms(2) by (intro unat_of_nat_u64) simp
  then show "OFFSET (a + of_nat r) = of_nat r"
    using q assms(2) by (simp add: offset_take word_unat_eq_iff unsigned_take_bit_eq u) (simp add: take_bit_eq_mod)
qed

lemma key_page: "drop_bit 12 a = drop_bit 12 b \<Longrightarrow> key a = key b"
proof -
  assume "drop_bit 12 a = drop_bit 12 b"
  moreover have "PX l x = drop_bit (9 * l) (drop_bit 12 x) AND 0x1ff" for l x by (simp add: PX_def add.commute)
  ultimately have "PX l a = PX l b" for l by metis
  then show ?thesis by (simp add: key_def px_def)
qed

lemma align_add: "align a \<Longrightarrow> unat a + 4096 * q < 2 ^ 64 \<Longrightarrow> align (a + of_nat (4096 * q))"
proof -
  assume a: "align a" "unat a + 4096 * q < 2 ^ 64"
  have "unat (of_nat (unat a + 4096 * q) :: u64) = unat a + 4096 * q" by (rule unat_of_nat_u64 [OF a(2)])
  then have "unat (a + of_nat (4096 * q)) = unat a + 4096 * q" by simp
  then show ?thesis using a(1) by (simp add: align_mod del: of_nat_mult)
qed

text \<open>The physical address that a leaf entry gives to a virtual one.\<close>

definition phys :: "u64 \<Rightarrow> u64 \<Rightarrow> u64" where
  "phys e va = next_table e + OFFSET va"

lemma page_aligned_align: "page_aligned a \<Longrightarrow> align a"
  by (simp add: page_aligned_def align_mod PGSIZE_def)

lemma next_table_leaf:
  assumes "page_aligned a" "perm < 1024" shows "next_table (leaf_pte a perm) = a"
proof -
  have "unat a < 2 ^ 50" using assms(1) by (simp add: page_aligned_def)
  from leaf_ppn [OF this assms(2)] show ?thesis
    using assms(1) by (intro bit_word_eqI) (auto simp: next_table_def bit_simps dest: page_aligned_bit)
qed

section \<open>Blocks\<close>

text \<open>The bytes of the free pages, and those of the tables of a tree.\<close>

definition pool_bytes :: "u64 \<Rightarrow> buddy \<Rightarrow> u64 set" where
  "pool_bytes base b = \<Union> (page_bytes ` page_pool base b)"

definition table_bytes :: "bytes \<Rightarrow> u64 \<Rightarrow> u64 set" where
  "table_bytes m root = \<Union> {page_bytes a |a. \<exists>qs\<in>paths. tab m root qs = Some a}"

lemma table_bytesI: "\<lbrakk> qs \<in> paths; tab m root qs = Some a; x \<in> page_bytes a \<rbrakk> \<Longrightarrow> x \<in> table_bytes m root"
  by (auto simp: table_bytes_def)

lemma table_bytesE:
  assumes "x \<in> table_bytes m root"
  obtains qs a where "qs \<in> paths" "tab m root qs = Some a" "x \<in> page_bytes a"
  using assms by (auto simp: table_bytes_def)

lemma in_page_bytes: "r < 4096 \<Longrightarrow> a + of_nat r \<in> page_bytes a"
  by (auto simp: page_bytes_def zone_def PGSIZE_def)

lemma kalloc_block:
  assumes s: "page_state base b" and r: "kalloc base sz b = Inr (a, b')" and sz: "sz \<le> 2 ^ 30"
  shows "page_state base b'" "page_aligned a" "page_pool base b' \<subseteq> page_pool base b"
    "4096 * i < unat sz \<Longrightarrow> a + of_nat (4096 * i) \<in> page_pool base b - page_pool base b' \<and> page_aligned (a + of_nat (4096 * i))"
    "unat a + unat sz \<le> 2 ^ 50"
proof -
  have inv: "buddy_inv b" and b64: "unat base + mem_size \<le> 2 ^ 64"
    using s by (simp_all add: page_state_def)
  from kalloc_cases [OF inv r] obtain p k where
    k: "a = PGADDR base p" "buddy_inv b'" "used_block b' p k" "extent p k \<subseteq> free_pages b"
      "free_pages b' = free_pages b - extent p k" "k = unat (size2order (max sz (of_nat PGSIZE)))" by blast
  show "page_state base b'" using s k(2) by (simp add: page_state_def)
  show "page_pool base b' \<subseteq> page_pool base b" using k(5) by (auto simp: page_pool_def)
  have p: "p \<in> extent p k" "p + 2 ^ k \<le> npage" using used_bound [OF k(2,3)] by simp_all
  have "p \<in> free_pages b" using p(1) k(4) by blast
  then have "a \<in> page_pool base b" using k(1) by (simp add: page_pool_def)
  then show "page_aligned a" by (rule page_pool_aligned [OF s])
  have "max sz (of_nat PGSIZE) \<le> 2 ^ 30" using sz by (simp add: PGSIZE_def)
  from size2order_least [OF this] have "unat (max sz (of_nat PGSIZE)) \<le> 2 ^ (k + 12)"
    by (simp add: k(6))
  moreover have "unat sz \<le> unat (max sz (of_nat PGSIZE))" by (simp add: word_le_nat_alt [symmetric])
  ultimately have le: "unat sz \<le> 4096 * 2 ^ k" by (simp add: power_add)
  have ua: "unat a = unat base + p * 4096" "unat base + mem_size \<le> 2 ^ 50"
    using unat_PGADDR [of p base] p(2) b64 k(1) used_less [OF k(2,3)] s by (simp_all add: PGSIZE_def page_state_def)
  have "4096 * p + 4096 * 2 ^ k \<le> mem_size" using p(2) by (simp add: npage_eq mem_size_def)
  then show "unat a + unat sz \<le> 2 ^ 50" using ua le by simp
  show "a + of_nat (4096 * i) \<in> page_pool base b - page_pool base b' \<and> page_aligned (a + of_nat (4096 * i))" if i: "4096 * i < unat sz"
  proof -
    have "4096 * i < 4096 * 2 ^ k" using i le by linarith
    then have q: "p + i \<in> extent p k" by simp
    then have q2: "p + i \<in> free_pages b" "p + i < npage" using k(4) p(2) by auto
    have e: "a + of_nat (4096 * i) = PGADDR base (p + i)" by (simp add: k(1) PGADDR_def PGSIZE_def algebra_simps)
    have "PGADDR base x \<noteq> PGADDR base (p + i)" if "x \<in> free_pages b'" for x
      using PGADDR_inj [OF _ free_pages_less [OF k(2) that] q2(2) b64] that q k(5) by auto
    then have "PGADDR base (p + i) \<in> page_pool base b - page_pool base b'"
      using q2(1) unfolding page_pool_def by (metis DiffI imageE imageI)
    then show ?thesis unfolding e using page_pool_aligned [OF s] by blast
  qed
qed

lemma kalloc_block_bytes:
  assumes "page_state base b" "kalloc base sz b = Inr (a, b')" "sz \<le> 2 ^ 30"
  shows "zone a (unat sz) \<subseteq> pool_bytes base b" "zone a (unat sz) \<inter> pool_bytes base b' = {}"
    "pool_bytes base b' \<subseteq> pool_bytes base b"
proof -
  note k = kalloc_block [OF assms]
  have split: "\<exists>q r. r < 4096 \<and> 4096 * q < unat sz \<and> x = (a + of_nat (4096 * q)) + of_nat r" if z: "x \<in> zone a (unat sz)" for x
  proof -
    obtain i where i: "i < unat sz" "x = a + of_nat i" using z by (auto simp: zone_def)
    have "i = 4096 * (i div 4096) + i mod 4096" by simp
    then have "x = (a + of_nat (4096 * (i div 4096))) + of_nat (i mod 4096)" using i(2) by (metis add.assoc of_nat_add)
    then show ?thesis using i(1) by (intro exI [of _ "i div 4096"] exI [of _ "i mod 4096"]) auto
  qed
  have in1: "\<exists>c\<in>page_pool base b - page_pool base b'. x \<in> page_bytes c" if z: "x \<in> zone a (unat sz)" for x
  proof -
    from split [OF z] obtain q r where q: "r < 4096" "4096 * q < unat sz" "x = (a + of_nat (4096 * q)) + of_nat r" by blast
    show ?thesis using k(4) [OF q(2)] in_page_bytes [OF q(1)] unfolding q(3) by blast
  qed
  then show "zone a (unat sz) \<subseteq> pool_bytes base b" by (auto simp: pool_bytes_def)
  show "zone a (unat sz) \<inter> pool_bytes base b' = {}"
  proof (rule ccontr)
    assume "zone a (unat sz) \<inter> pool_bytes base b' \<noteq> {}"
    then obtain x d where x: "x \<in> zone a (unat sz)" "d \<in> page_pool base b'" "x \<in> page_bytes d" by (auto simp: pool_bytes_def)
    from in1 [OF x(1)] obtain c where c: "c \<in> page_pool base b - page_pool base b'" "x \<in> page_bytes c" by blast
    have "page_aligned c" "page_aligned d" using c(1) x(2) page_pool_aligned [OF assms(1)] page_pool_aligned [OF k(1)] by auto
    from pages_disjoint [OF this] c x(2,3) show False by blast
  qed
  show "pool_bytes base b' \<subseteq> pool_bytes base b" using k(3) by (auto simp: pool_bytes_def)
qed

section \<open>One mapped block\<close>

text \<open>
  A block from \<open>kalloc\<close> is filled and mapped at \<open>va\<close>: the addresses of the range translate into the
  block, whose bytes stay as they were filled, and everything else that was mapped or in use stays.
\<close>

definition copied_to :: "bytes \<Rightarrow> u64 \<Rightarrow> u64 \<Rightarrow> u8 \<Rightarrow> u64 set \<Rightarrow> bool" where
  "copied_to m root va c S \<longleftrightarrow> (\<exists>e. lookup m root va = Some e \<and> bit e 4 \<and> phys e va \<in> S \<and> m (phys e va) = c)"

lemma user_leaf: "bit (leaf_pte pa PTE_U) 4"
  by (simp add: leaf_pte_def PTE_U_def bit_simps)

lemma user_perm: "PTE_U < 1024"
  by (simp add: PTE_U_def)

text \<open>Filling a block that was free changes no table.\<close>

lemma block_fill:
  assumes tree: "kernel_tree base m b root" and al: "kalloc base sz b = Inr (pa, b1)" and sz: "sz \<le> 2 ^ 30"
    and m1: "\<forall>x. x \<notin> zone pa (unat sz) \<longrightarrow> m1 x = m x"
  shows "kernel_tree base m1 b1 root" "lookup m1 root va = lookup m root va"
    "qs \<in> paths \<Longrightarrow> tab m1 root qs = tab m root qs"
    "\<lbrakk> c \<in> page_pool base b1 \<or> page_aligned c \<and> c \<notin> page_pool base b; x \<in> page_bytes c \<rbrakk> \<Longrightarrow> x \<notin> zone pa (unat sz)"
proof -
  have st: "page_state base b" using tree by (simp add: kernel_tree_def)
  note k = kalloc_block [OF st al sz] and kb = kalloc_block_bytes [OF st al sz]
  have off: "x \<notin> zone pa (unat sz)" if "a \<in> page_pool base b1 \<or> page_aligned a \<and> a \<notin> page_pool base b" "x \<in> page_bytes a" for a x
  proof
    assume "x \<in> zone pa (unat sz)"
    then have "x \<in> pool_bytes base b" "x \<notin> pool_bytes base b1" using kb by blast+
    then obtain c where c: "c \<in> page_pool base b" "x \<in> page_bytes c" by (auto simp: pool_bytes_def)
    have "a \<notin> page_pool base b1" using \<open>x \<notin> pool_bytes base b1\<close> that(2) by (auto simp: pool_bytes_def)
    with that(1) have a: "page_aligned a" "a \<noteq> c" using c(1) by auto
    from pages_disjoint [OF a(1) page_pool_aligned [OF st c(1)] a(2)] c(2) that(2) show False by blast
  qed
  have ok: "tables_ok (page_pool base b) m root" and z: "zeroed (page_pool base b) m" using tree by (simp_all add: kernel_tree_def)
  have same: "entry m1 a i = entry m a i" if "page_aligned a" "a \<notin> page_pool base b" "i < 512" for a i
    unfolding entry_def
  proof (rule load64_cong)
    fix j :: nat assume "j < 8"
    then have "a + of_nat (8 * i) + of_nat j \<in> page_bytes a" by (rule entry_in_page [OF that(3)])
    then show "m1 (a + of_nat (8 * i) + of_nat j) = m (a + of_nat (8 * i) + of_nat j)"
      using m1 off that(1,2) by blast
  qed
  have tabs: "tab m1 root qs = tab m root qs" if "qs \<in> paths" for qs
    using that
  proof (induction qs rule: rev_induct)
    case (snoc i qs)
    then have q: "qs \<in> paths" "i < 512" by (auto simp: paths_snoc)
    show ?case
    proof (cases "tab m root qs")
      case (Some a)
      then have "page_aligned a" "a \<notin> page_pool base b" using ok q(1) by (auto simp: tables_ok_def)
      with snoc.IH [OF q(1)] Some same [OF _ _ q(2)] show ?thesis by (simp add: tab_snoc)
    qed (use snoc.IH [OF q(1)] in \<open>simp add: tab_snoc\<close>)
  qed simp
  have look: "lookup m1 root va' = lookup m root va'" for va'
  proof (cases "tab m root [px 2 va', px 1 va']")
    case (Some a)
    then have "page_aligned a" "a \<notin> page_pool base b" using ok path2(1) [of va'] unfolding tables_ok_def by blast+
    with same [OF _ _ px_less] tabs [OF path2(1)] Some show ?thesis by (simp add: lookup_def del: tab.simps)
  qed (use tabs [OF path2(1)] in \<open>simp add: lookup_def del: tab.simps\<close>)
  have "zeroed (page_pool base b1) m1"
    unfolding zeroed_def
  proof (intro ballI)
    fix a x assume a: "a \<in> page_pool base b1" "x \<in> page_bytes a"
    then have "m1 x = m x" using off [of a x] m1 by simp
    then show "m1 x = 0" using a z k(3) by (auto simp: zeroed_def)
  qed
  moreover have "tables_ok (page_pool base b1) m1 root"
    using ok k(3) unfolding tables_ok_def by (simp add: tabs) blast
  ultimately have t1: "pmm.tree base m1 b1 root" using k(1) by (simp add: pmm.tree_def)
  then show "kernel_tree base m1 b1 root" by (simp add: kernel_tree)
  show "lookup m1 root va = lookup m root va" by (rule look)
  show "qs \<in> paths \<Longrightarrow> tab m1 root qs = tab m root qs" by (rule tabs)
  show "\<lbrakk> c \<in> page_pool base b1 \<or> page_aligned c \<and> c \<notin> page_pool base b; x \<in> page_bytes c \<rbrakk> \<Longrightarrow> x \<notin> zone pa (unat sz)"
    by (rule off)
qed

lemma block_step:
  assumes tree: "kernel_tree base m b root" and al: "kalloc base sz b = Inr (pa, b1)" and sz: "sz \<le> 2 ^ 30"
    and va: "align va" "unat va + unat sz + 4096 \<le> 2 ^ 64"
    and m1: "\<forall>x. x \<notin> zone pa (unat sz) \<longrightarrow> m1 x = m x"
    and map: "map_range (page_alloc base) root va pa sz PTE_U m1 b1 = Some (Inr (m2, b2))"
  shows "kernel_tree base m2 b2 root" "pool_bytes base b2 \<subseteq> pool_bytes base b"
    "zone pa (unat sz) \<subseteq> pool_bytes base b" "zone pa (unat sz) \<inter> (pool_bytes base b2 \<union> table_bytes m2 root) = {}"
    "table_bytes m2 root \<subseteq> table_bytes m root \<union> pool_bytes base b"
    "\<forall>x. x \<notin> zone pa (unat sz) \<union> table_bytes m2 root \<longrightarrow> m2 x = m x"
    "\<forall>x\<in>zone pa (unat sz). m2 x = m1 x"
    "\<forall>va' e. lookup m root va' = Some e \<longrightarrow> lookup m2 root va' = Some e"
    "\<forall>i<unat sz. \<exists>e. lookup m2 root (va + of_nat i) = Some e \<and> bit e 4 \<and> phys e (va + of_nat i) = pa + of_nat i"
    "sz \<le> 4096 \<Longrightarrow> key va' \<noteq> key va \<Longrightarrow> lookup m2 root va' = lookup m root va'"
proof -
  have st: "page_state base b" and ok: "tables_ok (page_pool base b) m root" using tree by (simp_all add: kernel_tree_def)
  note k = kalloc_block [OF st al sz] and kb = kalloc_block_bytes [OF st al sz]
  note fill = block_fill [OF tree al sz m1]
  have t1: "pmm.tree base m1 b1 root" using fill(1) by (simp add: kernel_tree)
  note look = fill(2) and tabs = fill(3) and off = fill(4)
  note mp = pmm.map_loop_ok [OF t1 user_perm spans_size [OF va(2)] map [unfolded map_range_def]]
    and fr = pmm.map_loop_from [OF t1 user_perm spans_size [OF va(2)] map [unfolded map_range_def]]
  from mp show "kernel_tree base m2 b2 root" by (simp add: kernel_tree)
  have p21: "pool_bytes base b2 \<subseteq> pool_bytes base b1" using fr by (auto simp: pool_bytes_def)
  with kb(3) show "pool_bytes base b2 \<subseteq> pool_bytes base b" by blast
  show "zone pa (unat sz) \<subseteq> pool_bytes base b" by (rule kb(1))
  have tb: "(\<exists>qs\<in>paths. tab m root qs = Some a) \<or> a \<in> page_pool base b1" if "\<exists>qs\<in>paths. tab m2 root qs = Some a" for a
    using that fr tabs unfolding tables_from_def by metis
  have "x \<notin> zone pa (unat sz)" if x: "x \<in> table_bytes m2 root" for x
  proof -
    obtain a where a: "\<exists>qs\<in>paths. tab m2 root qs = Some a" "x \<in> page_bytes a" using x by (auto simp: table_bytes_def)
    from tb [OF a(1)] ok have "a \<in> page_pool base b1 \<or> page_aligned a \<and> a \<notin> page_pool base b" by (auto simp: tables_ok_def)
    from off [OF this a(2)] show ?thesis .
  qed
  with kb(2) p21 show dis: "zone pa (unat sz) \<inter> (pool_bytes base b2 \<union> table_bytes m2 root) = {}" by blast
  show "table_bytes m2 root \<subseteq> table_bytes m root \<union> pool_bytes base b"
  proof
    fix x assume "x \<in> table_bytes m2 root"
    then obtain a where a: "\<exists>qs\<in>paths. tab m2 root qs = Some a" "x \<in> page_bytes a" by (auto simp: table_bytes_def)
    from tb [OF a(1)] show "x \<in> table_bytes m root \<union> pool_bytes base b"
    proof
      assume "a \<in> page_pool base b1"
      with k(3) a(2) show ?thesis unfolding pool_bytes_def by blast
    qed (use a(2) in \<open>auto simp: table_bytes_def\<close>)
  qed
  have out: "m2 x = m1 x" if "x \<notin> table_bytes m2 root" for x
    using mp that unfolding grows_def table_bytes_def by blast
  then show "\<forall>x. x \<notin> zone pa (unat sz) \<union> table_bytes m2 root \<longrightarrow> m2 x = m x" using m1 by simp
  show "\<forall>x\<in>zone pa (unat sz). m2 x = m1 x" using out dis by blast
  show "\<forall>va' e. lookup m root va' = Some e \<longrightarrow> lookup m2 root va' = Some e"
  proof (intro allI impI)
    fix va' e assume "lookup m root va' = Some e"
    then have l: "lookup m1 root va' = Some e" by (simp add: look)
    have "key va' \<noteq> key (va + of_nat (4096 * i))" if "i < (unat sz + 4095) div 4096" for i
      using mp that l lookup_key [of va' "va + of_nat (4096 * i)" m1 root] by auto
    with mp l show "lookup m2 root va' = Some e" by simp
  qed
  show "lookup m2 root va' = lookup m root va'" if "sz \<le> 4096" "key va' \<noteq> key va"
  proof -
    have one: "i = 0" if "i < (unat sz + 4095) div 4096" for i
      using that \<open>sz \<le> 4096\<close> unfolding page_index by (simp add: word_le_nat_alt)
    have "key va' \<noteq> key (va + of_nat (4096 * i))" if i: "i < (unat sz + 4095) div 4096" for i
      unfolding one [OF i] using \<open>key va' \<noteq> key va\<close> by simp
    then have "lookup m2 root va' = lookup m1 root va'" using mp by blast
    then show ?thesis by (simp only: look)
  qed
  show "\<forall>i<unat sz. \<exists>e. lookup m2 root (va + of_nat i) = Some e \<and> bit e 4 \<and> phys e (va + of_nat i) = pa + of_nat i"
  proof (intro allI impI)
    fix i assume i: "i < unat sz"
    define q r where "q = i div 4096" and "r = i mod 4096"
    have iq: "i = 4096 * q + r" "r < 4096" by (simp_all add: q_def r_def)
    have q: "4096 * q < unat sz" using i iq by linarith
    have al: "align (va + of_nat (4096 * q))" using va q by (intro align_add) simp_all
    have e: "v + of_nat i = v + of_nat (4096 * q) + of_nat r" for v :: u64 by (simp add: iq(1))
    have l: "lookup m2 root (va + of_nat i) = lookup m2 root (va + of_nat (4096 * q))"
      unfolding e by (rule lookup_key, rule key_page, rule in_page(2) [OF al iq(2)])
    have "lookup m2 root (va + of_nat (4096 * q)) = Some (leaf_pte (pa + of_nat (4096 * q)) PTE_U)"
      using mp q unfolding page_index by blast
    moreover have "phys (leaf_pte (pa + of_nat (4096 * q)) PTE_U) (va + of_nat i) = pa + of_nat i"
      unfolding phys_def e in_page(3) [OF al iq(2)] using k(4) [OF q] next_table_leaf [OF _ user_perm] by simp
    ultimately show "\<exists>e. lookup m2 root (va + of_nat i) = Some e \<and> bit e 4 \<and> phys e (va + of_nat i) = pa + of_nat i"
      unfolding l using user_leaf by blast
  qed
qed

end
