(* ===== verification/Fork_Memory.thy ===== *)
theory Fork_Memory
  imports Syscalls User_Pages
begin

text \<open>
  The memory of a child: its page table, made from that of the kernel, maps every area of the
  parent to a copy of the parent's bytes in pages that were free, and no byte in use changes but
  in the tables of the kernel that all processes share.
\<close>

section \<open>A root table copied from the kernel's\<close>

lemma load64_shift: "load64 (\<lambda>x. m (x + d)) p = load64 m (p + d)" for p :: u64
  by (simp add: load64_def get_le32_def get_le16_def algebra_simps)

lemma zone_page: "zone a 4096 = page_bytes a"
  by (simp add: page_bytes_def PGSIZE_def)

lemma copied_entry:
  assumes "\<forall>j<4096. m1 (t + of_nat j) = m (k + of_nat j)" "i < 512"
  shows "entry m1 t i = entry m k i"
proof -
  have "entry m1 t i = load64 (\<lambda>x. m1 (x + (t - k))) (k + of_nat (8 * i))"
    unfolding load64_shift entry_def by (simp add: algebra_simps)
  also have "\<dots> = load64 m (k + of_nat (8 * i))"
  proof (rule load64_cong)
    fix j :: nat assume "j < 8"
    with assms(2) have "8 * i + j < 4096" by simp
    from assms(1) [rule_format, OF this]
    show "m1 (k + of_nat (8 * i) + of_nat j + (t - k)) = m (k + of_nat (8 * i) + of_nat j)" by (simp add: algebra_simps)
  qed
  finally show ?thesis by (simp add: entry_def)
qed

lemma copied_root:
  assumes tree: "kernel_tree base m b k" and al: "page_alloc base b = Inr (t, b1)"
    and copy: "\<forall>j<4096. m1 (t + of_nat j) = m (k + of_nat j)" and frame: "\<forall>x. x \<notin> page_bytes t \<longrightarrow> m1 x = m x"
  shows "kernel_tree base m1 b1 t" "table_bytes m1 t \<subseteq> page_bytes t \<union> table_bytes m k"
    "page_bytes t \<subseteq> pool_bytes base b" "pool_bytes base b1 \<subseteq> pool_bytes base b"
    "lookup m1 t va = lookup m k va"
proof -
  have st: "page_state base b" and ok: "tables_ok (page_pool base b) m k" and z: "zeroed (page_pool base b) m"
    using tree by (simp_all add: kernel_tree_def)
  have t: "t \<in> page_pool base b" "page_pool base b1 \<subseteq> page_pool base b - {t}" "page_state base b1"
    using kalloc_page [OF st al] by auto
  have other: "m1 x = m x" if "page_aligned a" "a \<noteq> t" "x \<in> page_bytes a" for a x
    using frame pages_disjoint [OF that(1) page_pool_aligned [OF st t(1)] that(2)] that(3) by blast
  have entries: "entry m1 a i = entry m a i" if "qs \<in> paths" "i < 512" "tab m k qs = Some a" for qs a i
  proof -
    have a: "page_aligned a" "a \<noteq> t" using ok that(1,3) t(1) by (auto simp: tables_ok_def)
    show ?thesis unfolding entry_def by (rule load64_cong) (rule other [OF a], rule entry_in_page [OF that(2)])
  qed
  have tabs: "tab m1 t qs = (if qs = [] then Some t else tab m k qs)" if "qs \<in> paths" for qs
    using that
  proof (induction qs rule: rev_induct)
    case (snoc i qs)
    then have q: "qs \<in> paths" "i < 512" by (auto simp: paths_snoc)
    show ?case
    proof (cases "qs = []")
      case True
      then show ?thesis using copied_entry [OF copy q(2)] by simp
    next
      case False
      show ?thesis using entries [OF q] snoc.IH [OF q(1)] False by (simp add: tab_snoc split: option.splits)
    qed
  qed simp
  have not_t: "tab m k qs \<noteq> Some t" if "qs \<in> paths" for qs using ok t(1) that by (auto simp: tables_ok_def)
  have "tables_ok (page_pool base b1) m1 t"
    unfolding tables_ok_def
  proof (intro conjI ballI allI impI)
    fix qs a assume "qs \<in> paths" "tab m1 t qs = Some a"
    then show "page_aligned a" "a \<notin> page_pool base b1"
      using tabs [of qs] ok t(1,2) page_pool_aligned [OF st t(1)] by (auto simp: tables_ok_def split: if_splits)
  next
    fix qs rs a assume "qs \<in> paths" "rs \<in> paths" "tab m1 t qs = Some a" "tab m1 t rs = Some a"
    then show "qs = rs"
      using tabs [of qs] tabs [of rs] not_t ok by (auto simp: tables_ok_def split: if_splits)
  qed
  moreover have "zeroed (page_pool base b1) m1"
    unfolding zeroed_def
  proof (intro ballI)
    fix a x assume a: "a \<in> page_pool base b1" "x \<in> page_bytes a"
    then have "page_aligned a" "a \<noteq> t" using t(2) page_pool_aligned [OF st] by auto
    from other [OF this a(2)] show "m1 x = 0" using z t(2) a by (auto simp: zeroed_def)
  qed
  ultimately show "kernel_tree base m1 b1 t" using t(3) by (simp add: kernel_tree_def)
  show "table_bytes m1 t \<subseteq> page_bytes t \<union> table_bytes m k"
  proof
    fix x assume "x \<in> table_bytes m1 t"
    then obtain qs a where "qs \<in> paths" "tab m1 t qs = Some a" "x \<in> page_bytes a" by (rule table_bytesE)
    then show "x \<in> page_bytes t \<union> table_bytes m k"
      using tabs [of qs] table_bytesI [of qs m k a x] by (cases "qs = []") simp_all
  qed
  show "lookup m1 t va = lookup m k va"
    using tabs [OF path2(1)] entries [OF path2(1) px_less] by (simp add: lookup_def del: tab.simps split: option.splits)
  show "page_bytes t \<subseteq> pool_bytes base b" using t(1) by (auto simp: pool_bytes_def)
  show "pool_bytes base b1 \<subseteq> pool_bytes base b" using t(2) by (auto simp: pool_bytes_def)
qed

section \<open>Copying an area\<close>

text \<open>
  The address \<open>va\<close> is at \<open>pa\<close> whatever the bytes of \<open>S\<close> are, and \<open>pa\<close> is not in \<open>S\<close>: the page
  tables of a process and its pages lie outside the memory that may change.
\<close>

definition settled :: "mmu_fun \<Rightarrow> u64 \<Rightarrow> u64 set \<Rightarrow> bytes \<Rightarrow> u64 \<Rightarrow> u64 \<Rightarrow> bool" where
  "settled mmu satp S m va pa \<longleftrightarrow> pa \<notin> S \<and> (\<forall>m'. (\<forall>x. x \<notin> S \<longrightarrow> m' x = m x) \<longrightarrow> mmu m' satp va = Some pa)"

lemma copy_from_user_ok:
  "\<lbrakk> copy_from_user mmu satp n dst va m = Inr m'; \<forall>i<n. settled mmu satp S m0 (va + of_nat i) (pa i);
     zone dst n \<subseteq> S; \<forall>x. x \<notin> S \<longrightarrow> m x = m0 x; n < 2 ^ 64 \<rbrakk> \<Longrightarrow>
   (\<forall>x. x \<notin> zone dst n \<longrightarrow> m' x = m x) \<and> (\<forall>i<n. m' (dst + of_nat i) = m0 (pa i))"
proof (induction n arbitrary: dst va m pa)
  case (Suc n)
  have 0: "settled mmu satp S m0 va (pa 0)" using Suc.prems(2) [rule_format, of 0] by simp
  then have "mmu m satp va = Some (pa 0)" "m (pa 0) = m0 (pa 0)" using Suc.prems(4) by (auto simp: settled_def)
  then have c: "copy_from_user mmu satp n (dst + 1) (va + 1) (m(dst := m0 (pa 0))) = Inr m'" using Suc.prems(1) by simp
  have z: "zone dst (Suc n) = insert dst (zone (dst + 1) n)" by (rule zone_Suc)
  have "\<forall>i<n. settled mmu satp S m0 (va + 1 + of_nat i) (pa (Suc i))"
    using Suc.prems(2) by (auto simp: algebra_simps dest: spec [of _ "Suc _"])
  from Suc.IH [OF c this] Suc.prems(3-5) z have
    IH: "\<forall>x. x \<notin> zone (dst + 1) n \<longrightarrow> m' x = (m(dst := m0 (pa 0))) x" "\<forall>i<n. m' (dst + 1 + of_nat i) = m0 (pa (Suc i))"
    by auto
  have "n < 2 ^ 64" using Suc.prems(5) by simp
  from zone_fresh [OF this] IH(1) have "m' dst = m0 (pa 0)" by simp
  with IH z show ?case by (auto simp: less_Suc_eq_0_disj algebra_simps)
qed (simp add: zone_def)

text \<open>The child \<open>p\<close> while its memory is made; \<open>P\<close> are the bytes that were free when it began.\<close>

definition growing :: "u64 set \<Rightarrow> u64 set \<Rightarrow> bytes \<Rightarrow> u64 \<Rightarrow> machine \<Rightarrow> bool" where
  "growing P S m0 root s \<longleftrightarrow> kernel_tree (pmm_start s) (mem s) (mm s) root \<and>
     pool_bytes (pmm_start s) (mm s) \<subseteq> P \<and> table_bytes (mem s) root \<subseteq> S \<and> (\<forall>x. x \<notin> S \<longrightarrow> mem s x = m0 x)"

definition copied :: "u64 set \<Rightarrow> u64 \<Rightarrow> u64 \<Rightarrow> u8 \<Rightarrow> machine \<Rightarrow> bool" where
  "copied P root va c s \<longleftrightarrow>
     copied_to (mem s) root va c (P - pool_bytes (pmm_start s) (mm s) - table_bytes (mem s) root)"

definition good_area :: "vma \<Rightarrow> bool" where
  "good_area v \<longleftrightarrow> align (mem_start v) \<and> mem_range v \<le> 2 ^ 30 \<and> unat (mem_start v) + unat (mem_range v) + 4096 \<le> 2 ^ 64"

lemma area_copied:
  assumes g: "growing P S m0 (pgtable (task s ! p)) s" and PS: "P \<subseteq> S" and v: "good_area v" "mem_range v \<noteq> 0"
    and src: "\<forall>i<unat (mem_range v). settled mmu (r_satp (csr s)) S m0 (mem_start v + of_nat i) (tr (mem_start v + of_nat i))"
    and k: "kalloc_m s (mem_range v) = Inr (pa, s1)"
    and c: "copy_from_user mmu (satp_get s1) (unat (ucast (mem_range v) :: u32)) pa (mem_start v) (mem s1) = Inr m"
    and u: "umap p (mem_start v) pa (mem_range v) (set_mem m s1) = Inr s2"
    and p: "p < length (task s)" and root: "root = pgtable (task s ! p)"
  shows "growing P S m0 root s2" "pmm_start s2 = pmm_start s" "pgtable (task s2 ! p) = root" "csr s2 = csr s" "length (task s2) = length (task s)"
    "\<forall>i<unat (mem_range v). copied P root (mem_start v + of_nat i) (m0 (tr (mem_start v + of_nat i))) s2"
    "copied P root va c0 s \<Longrightarrow> copied P root va c0 s2"
proof -
  let ?sz = "mem_range v" and ?base = "pmm_start s"
  obtain b1 where b1: "kalloc ?base ?sz (mm s) = Inr (pa, b1)" "s1 = s\<lparr>mm := b1\<rparr>"
    using k by (auto simp: kalloc_m_def rbind_Inr_iff)
  have tree: "kernel_tree ?base (mem s) (mm s) root" and PP: "pool_bytes ?base (mm s) \<subseteq> P"
    and TS: "table_bytes (mem s) root \<subseteq> S" and out: "\<forall>x. x \<notin> S \<longrightarrow> mem s x = m0 x"
    using g root by (simp_all add: growing_def)
  have sz: "?sz \<le> 2 ^ 30" "align (mem_start v)" "unat (mem_start v) + unat ?sz + 4096 \<le> 2 ^ 64" using v(1) by (simp_all add: good_area_def)
  then have "unat ?sz < 2 ^ 32" by (simp add: word_le_nat_alt)
  note n = ucast_small [OF this]
  have st: "page_state ?base (mm s)" using tree by (simp add: kernel_tree_def)
  have "zone pa (unat ?sz) \<subseteq> S" using kalloc_block_bytes(1) [OF st b1(1) sz(1)] PP PS by blast
  from copy_from_user_ok [OF c [unfolded n] _ this, of m0] src out
  have m: "\<forall>x. x \<notin> zone pa (unat ?sz) \<longrightarrow> m x = mem s x" "\<forall>i<unat ?sz. m (pa + of_nat i) = m0 (tr (mem_start v + of_nat i))"
    using \<open>unat ?sz < 2 ^ 32\<close> b1(2) by (simp_all add: satp_get_def)
  obtain m2 b2 where r: "map_range (page_alloc ?base) root (mem_start v) pa ?sz PTE_U m b1 = Some (Inr (m2, b2))"
    "s2 = (set_mem m2 (vma_insert p (mem_start v) ?sz PTE_U (set_mem m s1)))\<lparr>mm := b2\<rparr>"
    using u p unfolding b1(2) root
    by (auto simp: umap_def Let_def rbind_Inr_iff vma_insert_def set_mem_def split: option.splits)
  note st = block_step [OF tree b1(1) sz m(1) r(1)]
  have s2: "mem s2 = m2" "mm s2 = b2" "pmm_start s2 = ?base" "csr s2 = csr s"
    using r(2) b1(2) by (simp_all add: vma_insert_def set_mem_def)
  then show "pmm_start s2 = pmm_start s" "csr s2 = csr s" by simp_all
  show "pgtable (task s2 ! p) = root" "length (task s2) = length (task s)" using r(2) b1(2) p root by (simp_all add: vma_insert_def)
  have T2: "table_bytes m2 root \<subseteq> S" using st(5) TS PP PS by blast
  have "m2 x = m0 x" if "x \<notin> S" for x
  proof -
    have "x \<notin> zone pa (unat ?sz) \<union> table_bytes m2 root" using that st(3) T2 PP PS by blast
    with st(6) out that show ?thesis by simp
  qed
  then show "growing P S m0 root s2" using st(1,2) T2 PP unfolding growing_def s2 by blast
  show "\<forall>i<unat ?sz. copied P root (mem_start v + of_nat i) (m0 (tr (mem_start v + of_nat i))) s2"
  proof (intro allI impI)
    fix i assume i: "i < unat ?sz"
    then have z: "pa + of_nat i \<in> zone pa (unat ?sz)" by (auto simp: zone_def)
    obtain e where e: "lookup m2 root (mem_start v + of_nat i) = Some e" "bit e 4" "phys e (mem_start v + of_nat i) = pa + of_nat i"
      using st(9) i by blast
    have "m2 (pa + of_nat i) = m0 (tr (mem_start v + of_nat i))" using st(7) z m(2) i by metis
    moreover have "pa + of_nat i \<in> P - pool_bytes ?base b2 - table_bytes m2 root" using z st(3,4) PP by blast
    ultimately show "copied P root (mem_start v + of_nat i) (m0 (tr (mem_start v + of_nat i))) s2"
      unfolding copied_def copied_to_def s2 using e by auto
  qed
  show "copied P root va c0 s2" if "copied P root va c0 s"
  proof -
    from that obtain e where e: "lookup (mem s) root va = Some e" "bit e 4" "mem s (phys e va) = c0"
      "phys e va \<in> P - pool_bytes ?base (mm s) - table_bytes (mem s) root"
      by (auto simp: copied_def copied_to_def)
    then have "phys e va \<in> P - pool_bytes ?base b2 - table_bytes m2 root" using st(2,5) by blast
    moreover have "m2 (phys e va) = mem s (phys e va)" using e(4) st(3,5,6) by blast
    ultimately show ?thesis unfolding copied_def copied_to_def s2 using e st(8) by auto
  qed
qed

lemma areas_copied:
  "\<lbrakk> copy_areas mmu p us s = Inr s'; growing P S m0 root s; P \<subseteq> S; root = pgtable (task s ! p);
     \<forall>v\<in>set us. good_area v;
     \<forall>v\<in>set us. \<forall>i<unat (mem_range v). settled mmu (r_satp (csr s)) S m0 (mem_start v + of_nat i) (tr (mem_start v + of_nat i));
     p < length (task s) \<rbrakk> \<Longrightarrow>
   growing P S m0 root s' \<and> pmm_start s' = pmm_start s \<and> pgtable (task s' ! p) = root \<and>
   (\<forall>v\<in>set us. \<forall>i<unat (mem_range v). copied P root (mem_start v + of_nat i) (m0 (tr (mem_start v + of_nat i))) s') \<and>
   (\<forall>va c. copied P root va c s \<longrightarrow> copied P root va c s')"
proof (induction us arbitrary: s)
  case (Cons v us)
  show ?case
  proof (cases "mem_range v = 0")
    case True
    with Cons show ?thesis by simp
  next
    case False
    from Cons.prems(1) False obtain pa s1 m s2 where
      k: "kalloc_m s (mem_range v) = Inr (pa, s1)" and
      c: "copy_from_user mmu (satp_get s1) (unat (ucast (mem_range v) :: u32)) pa (mem_start v) (mem s1) = Inr m" and
      u: "umap p (mem_start v) pa (mem_range v) (set_mem m s1) = Inr s2" and r: "copy_areas mmu p us s2 = Inr s'"
      by (auto simp: rbind_Inr_iff)
    have v: "good_area v"
      "\<forall>i<unat (mem_range v). settled mmu (r_satp (csr s)) S m0 (mem_start v + of_nat i) (tr (mem_start v + of_nat i))"
      using Cons.prems(5,6) by simp_all
    note step = area_copied [OF Cons.prems(2) [unfolded Cons.prems(4)] Cons.prems(3) v(1) False v(2) k c u Cons.prems(7,4)]
    have "growing P S m0 root s' \<and> pmm_start s' = pmm_start s2 \<and> pgtable (task s' ! p) = root \<and>
      (\<forall>v\<in>set us. \<forall>i<unat (mem_range v). copied P root (mem_start v + of_nat i) (m0 (tr (mem_start v + of_nat i))) s') \<and>
      (\<forall>va c. copied P root va c s2 \<longrightarrow> copied P root va c s')"
      by (rule Cons.IH [OF r step(1) Cons.prems(3)]) (use Cons.prems(5-7) step(3-5) in simp_all)
    then show ?thesis using step(2,6,7) by simp
  qed
qed simp

section \<open>fork\<close>

lemma memset_page: "memset t 0 (of_nat PGSIZE) m x = (if x \<in> page_bytes t then 0 else m x)"
  by (simp add: memset_zone page_bytes_def PGSIZE_def)

lemma alloc_pgtable_root:
  assumes "alloc_pgtable s = Inr (t, s')" "kernel_tree (pmm_start s) (mem s) (mm s) (k_pgtable s)"
  shows "growing (pool_bytes (pmm_start s) (mm s)) (pool_bytes (pmm_start s) (mm s) \<union> table_bytes (mem s) (k_pgtable s)) (mem s) t s'"
    "\<exists>m b. s' = set_mem m (s\<lparr>mm := b\<rparr>)" "lookup (mem s') t va = lookup (mem s) (k_pgtable s) va"
proof -
  let ?base = "pmm_start s" and ?k = "k_pgtable s"
  obtain s1 where s1: "kalloc_m s (of_nat PGSIZE) = Inr (t, s1)"
    "s' = set_mem (memcpy t ?k (of_nat PGSIZE) (memset t 0 (of_nat PGSIZE) (mem s1))) s1"
    using assms(1) by (auto simp: alloc_pgtable_def rbind_Inr_iff Let_def kalloc_m_def)
  obtain b1 where b1: "page_alloc ?base (mm s) = Inr (t, b1)" "s1 = s\<lparr>mm := b1\<rparr>"
    using s1(1) by (auto simp: kalloc_m_def rbind_Inr_iff)
  let ?m1 = "memcpy t ?k (of_nat PGSIZE) (memset t 0 (of_nat PGSIZE) (mem s))"
  have s': "mem s' = ?m1" "mm s' = b1" "pmm_start s' = ?base" using s1(2) b1(2) by (simp_all add: set_mem_def)
  have st: "page_state ?base (mm s)" using assms(2) by (simp add: kernel_tree_def)
  have t: "t \<in> page_pool ?base (mm s)" using kalloc_page [OF st b1(1)] by blast
  have k: "page_aligned ?k" "?k \<noteq> t" using assms(2) t path2(3) unfolding kernel_tree_def tables_ok_def by fastforce+
  have ap: "page_bytes t \<inter> page_bytes ?k = {}"
    using pages_disjoint [OF page_pool_aligned [OF st t] k(1)] k(2) by blast
  have n: "unat (of_nat PGSIZE :: u32) = 4096" by (simp add: PGSIZE_def)
  have disj: "zone t (unat (of_nat PGSIZE :: u32)) \<inter> zone ?k (unat (of_nat PGSIZE :: u32)) = {}"
    unfolding n zone_page by (rule ap)
  have frame: "\<forall>x. x \<notin> page_bytes t \<longrightarrow> ?m1 x = mem s x"
    using memcpy_zone(2) [OF disj] by (simp add: n zone_page memset_page)
  have rd: "read_bytes ?m1 t 4096 = read_bytes (memset t 0 (of_nat PGSIZE) (mem s)) ?k 4096"
    using memcpy_zone(1) [OF disj] unfolding n .
  have "?m1 (t + of_nat j) = mem s (?k + of_nat j)" if "j < 4096" for j
  proof -
    have "?m1 (t + of_nat j) = memset t 0 (of_nat PGSIZE) (mem s) (?k + of_nat j)"
      using arg_cong [OF rd, of "\<lambda>xs. xs ! j"] that by (simp add: read_bytes_def)
    moreover have "?k + of_nat j \<notin> page_bytes t" using in_page_bytes [OF that, of ?k] ap by blast
    ultimately show ?thesis by (simp add: memset_page)
  qed
  then have "\<forall>j<4096. ?m1 (t + of_nat j) = mem s (?k + of_nat j)" by blast
  note cr = copied_root [OF assms(2) b1(1) this frame]
  show "growing (pool_bytes ?base (mm s)) (pool_bytes ?base (mm s) \<union> table_bytes (mem s) ?k) (mem s) t s'"
    unfolding growing_def s' using cr frame by blast
  show "lookup (mem s') t va = lookup (mem s) ?k va" unfolding s' by (rule cr(5))
  show "\<exists>m b. s' = set_mem m (s\<lparr>mm := b\<rparr>)" using s1(2) b1(2) by blast
qed

lemma growing_cong:
  "\<lbrakk> pmm_start s' = pmm_start s; mem s' = mem s; mm s' = mm s \<rbrakk> \<Longrightarrow> growing P S m0 root s' = growing P S m0 root s"
  by (simp add: growing_def)

text \<open>The memory that a call of \<open>fork\<close> may write: the free pages and the kernel's own tables.\<close>

abbreviation free_bytes :: "machine \<Rightarrow> u64 set" where
  "free_bytes s \<equiv> pool_bytes (pmm_start s) (mm s)"

abbreviation fork_writes :: "machine \<Rightarrow> u64 set" where
  "fork_writes s \<equiv> free_bytes s \<union> table_bytes (mem s) (k_pgtable s)"

lemma sys_fork_copies:
  assumes f: "sys_fork mmu s = Inr (r, s')" and inv: "proc_inv s"
    and tree: "kernel_tree (pmm_start s) (mem s) (mm s) (k_pgtable s)"
    and areas: "\<forall>v\<in>set (mem_map (cur_task s)). good_area v"
    and src: "\<forall>v\<in>set (mem_map (cur_task s)). \<forall>i<unat (mem_range v).
      settled mmu (r_satp (csr s)) (fork_writes s) (mem s) (mem_start v + of_nat i) (tr (mem_start v + of_nat i))"
  shows "\<exists>p<NR_TASK. r = of_nat p \<and> pidmap s ! p = 0 \<and> pmm_start s' = pmm_start s \<and>
    growing (free_bytes s) (fork_writes s) (mem s) (pgtable (task s' ! p)) s' \<and>
    (\<forall>v\<in>set (mem_map (cur_task s)). \<forall>i<unat (mem_range v).
      copied (free_bytes s) (pgtable (task s' ! p)) (mem_start v + of_nat i) (mem s (tr (mem_start v + of_nat i))) s')"
proof -
  have len: "length (task s) = NR_TASK" "current_task s < NR_TASK" "pidmap s ! current_task s \<noteq> 0" using inv by (simp_all add: proc_inv_def)
  obtain p s1 where f1: "alloc_process s = Inr (p, s1)" "copy_mem_from mmu p (current_task s1)
      (upd_cur_context (\<lambda>c. c\<lparr>c_a0 := r\<rparr>)
        (upd_task p (\<lambda>t. t\<lparr>filename := filename (cur_task s1), fpid := pid (cur_task s1), state := TASK_RUNNING,
           context_of := (context_of (cur_task s1))\<lparr>c_a0 := 0\<rparr>\<rparr>) s1)) = Inr s'"
    "r = ucast (pid (task (upd_task p (\<lambda>t. t\<lparr>filename := filename (cur_task s1), fpid := pid (cur_task s1), state := TASK_RUNNING,
           context_of := (context_of (cur_task s1))\<lparr>c_a0 := 0\<rparr>\<rparr>) s1) ! p))"
    using f by (auto simp: sys_fork_def rbind_Inr_iff Let_def upd_cur_context_def)
  obtain u1 t u3 where a: "alloc_pid s = Inr (p, u1)"
    "alloc_pgtable (upd_task p (\<lambda>t. t\<lparr>pid := of_nat p, state := TASK_RUNNING\<rparr>) u1) = Inr (t, u3)"
    "s1 = upd_task p (\<lambda>q. q\<lparr>pgtable := t, counter := TASK_INITIAL_COUNTER,
                               context_of := (context_of q)\<lparr>c_sp := SV39_USER_SP_ADDR\<rparr>\<rparr>) u3"
    using f1(1) by (auto simp: alloc_process_def rbind_Inr_iff Let_def)
  note p = alloc_pid_spec [OF a(1)]
  let ?u2 = "upd_task p (\<lambda>t. t\<lparr>pid := of_nat p, state := TASK_RUNNING\<rparr>) u1"
  have u2: "pmm_start ?u2 = pmm_start s" "fsys ?u2 = fsys s" "mm ?u2 = mm s" "k_pgtable ?u2 = k_pgtable s"
    "current_task ?u2 = current_task s" "csr ?u2 = csr s"
    "task ?u2 = (task s)[p := (task s ! p)\<lparr>pid := of_nat p, state := TASK_RUNNING\<rparr>]" using p(4) by simp_all
  note root = alloc_pgtable_root [OF a(2), unfolded u2, OF tree]
  then obtain m b where u3: "u3 = set_mem m (?u2\<lparr>mm := b\<rparr>)" by blast
  have pc: "p \<noteq> current_task s" using p(2) len(3) by auto
  let ?s3 = "upd_cur_context (\<lambda>c. c\<lparr>c_a0 := r\<rparr>)
        (upd_task p (\<lambda>t. t\<lparr>filename := filename (cur_task s1), fpid := pid (cur_task s1), state := TASK_RUNNING,
           context_of := (context_of (cur_task s1))\<lparr>c_a0 := 0\<rparr>\<rparr>) s1)"
  let ?s4 = "sstatus_set (sstatus_get ?s3 OR SSTATUS_SUM) ?s3"
  obtain s5 where s5: "copy_areas mmu p (mem_map (task ?s4 ! current_task s1)) ?s4 = Inr s5"
    "s' = sstatus_set (sstatus_get s5 AND NOT SSTATUS_SUM) s5"
    using f1(2) by (auto simp: copy_mem_from_def rbind_Inr_iff Let_def)
  have s4: "fsys ?s4 = fsys u3" "mm ?s4 = mm u3" "pmm_start ?s4 = pmm_start s" "r_satp (csr ?s4) = r_satp (csr s)"
    "p < length (task ?s4)" "pgtable (task ?s4 ! p) = t" "mem_map (task ?s4 ! current_task s1) = mem_map (cur_task s)"
    using p(1) len pc u2 by (simp_all add: sstatus_set_def upd_cur_context_def a(3) u3)
  have g: "growing (free_bytes s) (fork_writes s) (mem s) t ?s4"
    using root(1) growing_cong [of ?s4 u3 "free_bytes s" "fork_writes s" "mem s" t] s4(1,2,3) u2(1) u3 by simp
  have main: "growing (free_bytes s) (fork_writes s) (mem s) t s5 \<and> pmm_start s5 = pmm_start ?s4 \<and> pgtable (task s5 ! p) = t \<and>
    (\<forall>v\<in>set (mem_map (cur_task s)). \<forall>i<unat (mem_range v).
      copied (free_bytes s) t (mem_start v + of_nat i) (mem s (tr (mem_start v + of_nat i))) s5) \<and>
    (\<forall>va c. copied (free_bytes s) t va c ?s4 \<longrightarrow> copied (free_bytes s) t va c s5)"
    by (rule areas_copied [OF s5(1) [unfolded s4(7)] g Un_upper1 s4(6) [symmetric] areas _ s4(5)]) (use src s4(4) in simp)
  note main [unfolded s4(3)]
  moreover have "r = of_nat p"
  proof -
    have t1: "pid (task s1 ! p) = of_nat p" "p < length (task s1)" using p(1,4) len(1) by (simp_all add: a(3) u3)
    have "unat (of_nat p :: u32) = p" using p(1) by (intro unat_of_nat_u32) (simp add: NR_TASK_def)
    then have "(ucast (of_nat p :: u32) :: u64) = of_nat p" by (metis of_nat_unat)
    then show ?thesis using f1(3) t1 by simp
  qed
  moreover have s': "mem s' = mem s5" "mm s' = mm s5" "pmm_start s' = pmm_start s5" "task s' = task s5"
    by (simp_all add: s5(2) sstatus_set_def)
  moreover have "growing P S m0 root s' = growing P S m0 root s5" "copied P root va c s' = copied P root va c s5" for P S m0 root va c
    by (rule growing_cong [OF s'(3,1,2)]) (simp add: copied_def s')
  ultimately show ?thesis
    using p(1,2) by (intro exI [of _ p]) simp
qed

lemma sys_fork_result:
  assumes "sys_fork mmu s = Inr (r, s')" "proc_inv s" shows "c_a0 (context_of (cur_task s')) = r"
proof -
  obtain p t where "r = of_nat p" "current_task s' = current_task s"
    "task s' = (task s)
      [p := (task s ! p)\<lparr>pid := of_nat p, pgtable := t, counter := TASK_INITIAL_COUNTER,
             filename := filename (cur_task s), fpid := pid (cur_task s), state := TASK_RUNNING,
             context_of := (context_of (cur_task s))\<lparr>c_a0 := 0\<rparr>,
             mem_map := copied_map (mem_map (cur_task s)) (mem_map (task s ! p))\<rparr>,
       current_task s := (cur_task s)\<lparr>context_of := (context_of (cur_task s))\<lparr>c_a0 := of_nat p\<rparr>\<rparr>]"
    by (rule sys_fork_spec [OF assms])
  then show ?thesis using proc_inv_cur [OF assms(2)] by simp
qed


end
