(* ===== verification/Fork_Returns.thy ===== *)
theory Fork_Returns
  imports Fork_Memory
begin

text \<open>
  When \<open>fork\<close> returns: with a free pid, enough free pages, and areas of at most one page that the
  kernel's own mapping does not cover.
\<close>

section \<open>Pages that are left\<close>

definition pages_left :: "buddy \<Rightarrow> nat" where
  "pages_left b = card (free_pages b)"

lemma page_alloc_left:
  assumes "page_state base b" "page_alloc base b = Inr (a, b')" shows "pages_left b = Suc (pages_left b')"
proof -
  have inv: "buddy_inv b" using assms(1) by (simp add: page_state_def)
  have fin: "finite (free_pages b)" 
    by (rule finite_subset [of _ "{..<npage}"]) (use free_pages_less [OF inv] in auto)
  from inv assms(2) show ?thesis
  proof (cases rule: kalloc_cases)
    case (1 p k)
    have "k = 0" using 1(7) by (simp add: PGSIZE_def test_orders)
    then have e: "extent p k = {p}" by auto
    have p: "p \<in> free_pages b" "free_pages b' = free_pages b - {p}" using 1(4,5) unfolding e by simp_all
    show ?thesis using card.remove [OF fin p(1)] by (simp add: pages_left_def p(2))
  qed
qed

lemma page_alloc_returns:
  assumes "page_state base b" "0 < pages_left b" shows "\<exists>a b'. page_alloc base b = Inr (a, b')"
proof -
  have inv: "buddy_inv b" using assms(1) by (simp add: page_state_def)
  have k: "unat (size2order (of_nat PGSIZE)) = 0" "unat (size2order (of_nat PGSIZE)) < BUDDY_MAX_ORDER"
    by (simp_all add: PGSIZE_def test_orders BUDDY_MAX_ORDER_def)
  from inv k(2) show ?thesis
  proof (cases rule: allocate_cases)
    case fail
    then have "free_pages b = {}" using k(1) by (auto simp: free_pages_def)
    with assms(2) show ?thesis by (simp add: pages_left_def)
  qed (simp add: kalloc_def)
qed

lemma kalloc_small: "sz \<le> 4096 \<Longrightarrow> kalloc base sz b = page_alloc base b"
  by (cases "sz = 4096") (auto simp: kalloc_def PGSIZE_def)

text \<open>One walk of \<open>map\<close> takes at most two pages for tables.\<close>

lemma map_step_left:
  assumes "page_state base b" "map_step (page_alloc base) perm p m b = Inr (a, m', b')"
  shows "page_state base b'" "pages_left b \<le> Suc (pages_left b')"
  using assms page_alloc_left [OF assms(1)] kalloc_page [OF assms(1)]
  by (auto simp: map_step_def rbind_Inr_iff split: if_splits)

lemma map_walk_left:
  assumes "page_state base b" "map_walk (page_alloc base) va pa perm 2 root m b = Inr (m', b')"
  shows "pages_left b \<le> pages_left b' + 2"
proof -
  obtain a1 m1 b1 a2 m2 b2 where
    1: "map_step (page_alloc base) perm (root + 8 * PX 2 va) m b = Inr (a1, m1, b1)" and
    2: "map_step (page_alloc base) perm (a1 + 8 * PX 1 va) m1 b1 = Inr (a2, m2, b2)" and "b' = b2"
    using assms(2) by (auto simp: numeral_2_eq_2 Let_def rbind_Inr_iff split: if_splits)
  then show ?thesis using map_step_left [OF assms(1) 1] map_step_left(2) [OF _ 2] by fastforce
qed

lemma map_page_returns:
  assumes tree: "kernel_tree base m b root" and perm: "perm < 1024" and free: "lookup m root va = None"
    and left: "2 \<le> pages_left b" and sz: "0 < sz" "sz \<le> 4096" "unat va + 8192 \<le> 2 ^ 64"
  shows "\<exists>m' b'. map_range (page_alloc base) root va pa sz perm m b = Some (Inr (m', b')) \<and> pages_left b \<le> pages_left b' + 2"
proof -
  have st: "page_state base b" using tree by (simp add: kernel_tree_def)
  obtain a b1 where a: "page_alloc base b = Inr (a, b1)" using page_alloc_returns [OF st] left by auto
  then have st1: "page_state base b1" "0 < pages_left b1" using kalloc_page [OF st a] page_alloc_left [OF st a] left by auto
  obtain c b2 where c: "page_alloc base b1 = Inr (c, b2)" using page_alloc_returns [OF st1] by blast
  from pmm.map_walk_returns [OF tree [unfolded kernel_tree] perm free a c] obtain m' b' where
    w: "map_walk (page_alloc base) va pa perm 2 root m b = Inr (m', b')" by blast
  have u: "unat sz \<le> 4096" "0 < unat sz" using sz(1,2) by (simp_all add: word_le_nat_alt word_less_nat_alt)
  then have "unat (va + sz) = unat va + unat sz" using sz(3) unat_of_nat_u64 [of "unat va + unat sz"] by simp
  moreover have "unat (va + 4096) = unat va + 4096" using sz(3) unat_of_nat_u64 [of "unat va + 4096"] by simp
  ultimately have "va < va + sz" "\<not> va + 4096 < va + sz" using u by (simp_all add: word_less_nat_alt)
  with w have "map_range (page_alloc base) root va pa sz perm m b = Some (Inr (m', b'))"
    by (simp add: map_range_def map_loop.simps PGSIZE_def)
  with map_walk_left [OF st w] show ?thesis by blast
qed

lemma copy_from_user_returns:
  "\<lbrakk> \<forall>i<n. settled mmu satp S m0 (va + of_nat i) (pa i); zone dst n \<subseteq> S; \<forall>x. x \<notin> S \<longrightarrow> m x = m0 x \<rbrakk> \<Longrightarrow>
   \<exists>m'. copy_from_user mmu satp n dst va m = Inr m'"
proof (induction n arbitrary: dst va m pa)
  case (Suc n)
  have "settled mmu satp S m0 va (pa 0)" using Suc.prems(1) [rule_format, of 0] by simp
  then have "mmu m satp va = Some (pa 0)" using Suc.prems(3) by (auto simp: settled_def)
  moreover have "\<exists>m'. copy_from_user mmu satp n (dst + 1) (va + 1) (m(dst := m (pa 0))) = Inr m'"
  proof (rule Suc.IH)
    show "\<forall>i<n. settled mmu satp S m0 (va + 1 + of_nat i) (pa (Suc i))"
      using Suc.prems(1) by (auto simp: algebra_simps dest: spec [of _ "Suc _"])
  qed (use Suc.prems(2,3) zone_Suc [of dst n] in auto)
  ultimately show ?case by simp
qed simp

section \<open>Copying the areas returns\<close>

text \<open>Areas of at most a page, on different pages, none of which the tree maps yet.\<close>

definition page_areas :: "vma list \<Rightarrow> bytes \<Rightarrow> u64 \<Rightarrow> bool" where
  "page_areas us m root \<longleftrightarrow>
     (\<forall>v\<in>set us. good_area v \<and> mem_range v \<le> 4096 \<and> unat (mem_start v) + 8192 \<le> 2 ^ 64) \<and>
     (\<forall>v\<in>set us. mem_range v \<noteq> 0 \<longrightarrow> lookup m root (mem_start v) = None) \<and>
     distinct (map (key \<circ> mem_start) (filter (\<lambda>v. mem_range v \<noteq> 0) us))"

lemma areas_return:
  "\<lbrakk> growing P S m0 root s; P \<subseteq> S; root = pgtable (task s ! p); page_areas us (mem s) root;
     \<forall>v\<in>set us. \<forall>i<unat (mem_range v). settled mmu (r_satp (csr s)) S m0 (mem_start v + of_nat i) (tr (mem_start v + of_nat i));
     p < length (task s); 3 * length us \<le> pages_left (mm s) \<rbrakk> \<Longrightarrow> \<exists>s'. copy_areas mmu p us s = Inr s'"
proof (induction us arbitrary: s)
  case (Cons v us)
  show ?case
  proof (cases "mem_range v = 0")
    case True
    with Cons.prems Cons.IH [OF Cons.prems(1-3)] show ?thesis by (simp add: page_areas_def)
  next
    case False
    let ?base = "pmm_start s" and ?sz = "mem_range v" and ?va = "mem_start v"
    have tree: "kernel_tree ?base (mem s) (mm s) root" and PP: "pool_bytes ?base (mm s) \<subseteq> P"
      and out: "\<forall>x. x \<notin> S \<longrightarrow> mem s x = m0 x"
      using Cons.prems(1) by (simp_all add: growing_def)
    have st: "page_state ?base (mm s)" using tree by (simp add: kernel_tree_def)
    have v: "good_area v" "?sz \<le> 4096" "unat ?va + 8192 \<le> 2 ^ 64" "lookup (mem s) root ?va = None"
      and us: "page_areas us (mem s) root" "key ?va \<notin> (key \<circ> mem_start) ` {u \<in> set us. mem_range u \<noteq> 0}"
      using Cons.prems(4) False by (simp_all add: page_areas_def)
    have sz: "?sz \<le> 2 ^ 30" "unat ?sz \<le> 4096" using v(2) by (simp_all add: word_le_nat_alt)
    obtain pa b1 where b1: "page_alloc ?base (mm s) = Inr (pa, b1)"
      using page_alloc_returns [OF st] Cons.prems(7) by fastforce
    then have kb: "kalloc ?base ?sz (mm s) = Inr (pa, b1)" by (simp add: kalloc_small [OF v(2)])
    then have k: "kalloc_m s ?sz = Inr (pa, s\<lparr>mm := b1\<rparr>)" by (simp add: kalloc_m_def)
    have zS: "zone pa (unat ?sz) \<subseteq> S" using kalloc_block_bytes(1) [OF st kb sz(1)] PP Cons.prems(2) by blast
    have src: "\<forall>i<unat ?sz. settled mmu (r_satp (csr s)) S m0 (?va + of_nat i) (tr (?va + of_nat i))" using Cons.prems(5) by simp
    have n: "unat (ucast ?sz :: u32) = unat ?sz" using sz(2) by (intro ucast_small) simp
    obtain m where m: "copy_from_user mmu (r_satp (csr s)) (unat ?sz) pa ?va (mem s) = Inr m"
      using copy_from_user_returns [OF src zS out] by blast
    have "unat ?sz < 2 ^ 64" using sz(2) by simp
    with copy_from_user_ok [OF m src zS out] have m1: "\<forall>x. x \<notin> zone pa (unat ?sz) \<longrightarrow> m x = mem s x" by blast
    note fill = block_fill [OF tree kb sz(1) m1]
    have left: "2 \<le> pages_left b1" "pages_left (mm s) = Suc (pages_left b1)"
      using page_alloc_left [OF st b1] Cons.prems(7) by simp_all
    have "0 < ?sz" using False by (simp add: word_neq_0_conv)
    from map_page_returns [OF fill(1) user_perm fill(2) [of ?va, unfolded v(4)] left(1) this v(2,3), of pa]
    obtain m2 b2 where r: "map_range (page_alloc ?base) root ?va pa ?sz PTE_U m b1 = Some (Inr (m2, b2))"
      "pages_left b1 \<le> pages_left b2 + 2" by blast
    define s2 where "s2 = (set_mem m2 (vma_insert p ?va ?sz PTE_U (set_mem m (s\<lparr>mm := b1\<rparr>))))\<lparr>mm := b2\<rparr>"
    have u: "umap p ?va pa ?sz (set_mem m (s\<lparr>mm := b1\<rparr>)) = Inr s2"
      using r(1) Cons.prems(3,6) by (simp add: umap_def Let_def vma_insert_def set_mem_def s2_def)
    have s2: "mem s2 = m2" "mm s2 = b2" by (simp_all add: s2_def vma_insert_def set_mem_def)
    have "copy_from_user mmu (satp_get (s\<lparr>mm := b1\<rparr>)) (unat (ucast ?sz :: u32)) pa ?va (mem (s\<lparr>mm := b1\<rparr>)) = Inr m"
      using m n by (simp add: satp_get_def)
    note step = area_copied [OF Cons.prems(1) [unfolded Cons.prems(3)] Cons.prems(2) v(1) False src k this u Cons.prems(6,3)]
    have "align ?va" "unat ?va + unat ?sz + 4096 \<le> 2 ^ 64" using v(1) by (simp_all add: good_area_def)
    note other = block_step(10) [OF tree kb sz(1) this m1 r(1) v(2)]
    have "key (mem_start u) \<noteq> key ?va" if "u \<in> set us" "mem_range u \<noteq> 0" for u
      using us(2) that by (metis (mono_tags, lifting) comp_apply image_eqI mem_Collect_eq)
    then have "page_areas us (mem s2) root"
      using us(1) other unfolding page_areas_def s2 by simp
    then obtain s' where "copy_areas mmu p us s2 = Inr s'"
      using Cons.IH [OF step(1) Cons.prems(2)] Cons.prems(5-7) step(3-5) left r(2) s2(2) by fastforce
    with False k u m n show ?thesis by (simp add: satp_get_def)
  qed
qed simp

section \<open>fork returns\<close>

lemma alloc_pid_returns:
  assumes "i < NR_TASK" "pidmap s ! i = 0" shows "\<exists>p s'. alloc_pid s = Inr (p, s')"
proof (cases "find (\<lambda>i. pidmap s ! i = 0) [0..<NR_TASK]")
  case None
  with assms show ?thesis by (auto simp: find_None_iff)
qed (simp add: alloc_pid_def)

lemma alloc_pgtable_returns:
  assumes "page_state (pmm_start s) (mm s)" "0 < pages_left (mm s)"
  shows "\<exists>t s'. alloc_pgtable s = Inr (t, s') \<and> pages_left (mm s) = Suc (pages_left (mm s'))"
proof -
  obtain t b where a: "page_alloc (pmm_start s) (mm s) = Inr (t, b)" using page_alloc_returns [OF assms] by blast
  have "align t" using kalloc_page [OF assms(1) a] page_pool_aligned [OF assms(1)] page_aligned_align by blast
  with a page_alloc_left [OF assms(1) a] show ?thesis
    by (simp add: alloc_pgtable_def kalloc_m_def Let_def set_mem_def)
qed

lemma sys_fork_returns:
  assumes inv: "proc_inv s" and pid: "i < NR_TASK" "pidmap s ! i = 0"
    and tree: "kernel_tree (pmm_start s) (mem s) (mm s) (k_pgtable s)"
    and areas: "page_areas (mem_map (cur_task s)) (mem s) (k_pgtable s)" and left: "3 * MAX_VMA_NUM < pages_left (mm s)"
    and src: "\<forall>v\<in>set (mem_map (cur_task s)). \<forall>i<unat (mem_range v).
      settled mmu (r_satp (csr s)) (fork_writes s) (mem s) (mem_start v + of_nat i) (tr (mem_start v + of_nat i))"
  shows "\<exists>r s'. sys_fork mmu s = Inr (r, s')"
proof -
  have len: "length (task s) = NR_TASK" "current_task s < NR_TASK" "pidmap s ! current_task s \<noteq> 0"
    "length (mem_map (cur_task s)) = MAX_VMA_NUM" using inv by (simp_all add: proc_inv_def)
  obtain p u1 where a: "alloc_pid s = Inr (p, u1)" using alloc_pid_returns [OF pid] by blast
  note p = alloc_pid_spec [OF a]
  let ?u2 = "upd_task p (\<lambda>t. t\<lparr>pid := of_nat p, state := TASK_RUNNING\<rparr>) u1"
  have u2: "pmm_start ?u2 = pmm_start s" "fsys ?u2 = fsys s" "mm ?u2 = mm s" "k_pgtable ?u2 = k_pgtable s"
    "current_task ?u2 = current_task s" "csr ?u2 = csr s" using p(4) by simp_all
  have "page_state (pmm_start ?u2) (mm ?u2)" "0 < pages_left (mm ?u2)" using tree left u2 by (simp_all add: kernel_tree_def)
  from alloc_pgtable_returns [OF this] obtain t u3 where
    t: "alloc_pgtable ?u2 = Inr (t, u3)" "pages_left (mm s) = Suc (pages_left (mm u3))" unfolding u2 by blast
  note root = alloc_pgtable_root [OF t(1), unfolded u2, OF tree]
  then obtain m b where u3: "u3 = set_mem m (?u2\<lparr>mm := b\<rparr>)" by blast
  define s1 where "s1 = upd_task p (\<lambda>q. q\<lparr>pgtable := t, counter := TASK_INITIAL_COUNTER,
                               context_of := (context_of q)\<lparr>c_sp := SV39_USER_SP_ADDR\<rparr>\<rparr>) u3"
  have ap: "alloc_process s = Inr (p, s1)" using a t(1) by (simp add: alloc_process_def s1_def)
  have pc: "p \<noteq> current_task s" using p(2) len(3) by auto
  define s2 where "s2 = upd_task p (\<lambda>t. t\<lparr>filename := filename (cur_task s1), fpid := pid (cur_task s1), state := TASK_RUNNING,
           context_of := (context_of (cur_task s1))\<lparr>c_a0 := 0\<rparr>\<rparr>) s1"
  define s3 where "s3 = upd_cur_context (\<lambda>c. c\<lparr>c_a0 := ucast (pid (task s2 ! p))\<rparr>) s2"
  define s4 where "s4 = sstatus_set (sstatus_get s3 OR SSTATUS_SUM) s3"
  note defs = s4_def s3_def s2_def s1_def
  have s4: "fsys s4 = fsys u3" "mm s4 = mm u3" "pmm_start s4 = pmm_start s" "r_satp (csr s4) = r_satp (csr s)"
    "p < length (task s4)" "pgtable (task s4 ! p) = t" "mem_map (task s4 ! current_task s3) = mem_map (cur_task s)"
    using p(1,4) len pc by (simp_all add: sstatus_set_def upd_cur_context_def defs u3)
  have g: "growing (free_bytes s) (fork_writes s) (mem s) t s4"
    using root(1) growing_cong [of s4 u3 "free_bytes s" "fork_writes s" "mem s" t] s4(1,2,3) u2(1) u3 by simp
  have "page_areas (mem_map (cur_task s)) (mem s4) t"
    using areas root(3) unfolding page_areas_def s4(1) by simp
  then obtain s5 where "copy_areas mmu p (mem_map (cur_task s)) s4 = Inr s5"
    using areas_return [OF g Un_upper1 s4(6) [symmetric] _ _ s4(5)] src s4(2,4) left t(2) len(4) by fastforce
  then have "\<exists>s6. copy_mem_from mmu p (current_task s3) s3 = Inr s6"
    unfolding copy_mem_from_def Let_def s4_def [symmetric] s4(7) by simp
  moreover have "current_task s2 = current_task s3" by (simp add: s3_def upd_cur_context_def)
  ultimately show ?thesis
    unfolding sys_fork_def ap rbind_simps prod.case Let_def s2_def [symmetric] s3_def [symmetric]
    by (elim exE) (simp only: rbind_simps, blast)
qed

lemma ecall_fork_returns:
  assumes "proc_inv s" and "c_a7 regs = SYSCALL_FORK" and "i < NR_TASK" and "pidmap s ! i = 0"
    and "kernel_tree (pmm_start s) (mem s) (mm s) (k_pgtable s)"
    and "page_areas (mem_map (cur_task s)) (mem s) (k_pgtable s)" and "3 * MAX_VMA_NUM < pages_left (mm s)"
    and "\<forall>v\<in>set (mem_map (cur_task s)). \<forall>i<unat (mem_range v).
      settled mmu (r_satp (csr s)) (fork_writes s) (mem s) (mem_start v + of_nat i) (tr (mem_start v + of_nat i))"
  shows "\<exists>regs' s'. ecall mmu regs s = Inr (regs', s')"
proof -
  note cur = proc_inv_cur [OF assms(1)]
  have c: "mem_map (cur_task (in_call regs s)) = mem_map (cur_task s)" "r_satp (csr (in_call regs s)) = r_satp (csr s)"
    using cur by (simp_all add: ecall_csr_def)
  have "\<exists>r x. sys_fork mmu (in_call regs s) = Inr (r, x)"
    by (rule sys_fork_returns [OF in_call_inv [OF assms(1)] assms(3)]) (unfold c, use assms(4-) in simp_all)
  then show ?thesis
    using assms(2) by (auto simp: ecall_unfold [OF cur] syscall_in_call [OF assms(1)] call_numbers)
qed


section \<open>A fork on the machine with two tasks\<close>

text \<open>The first task has an area of two bytes, whose second byte is 7; translation is the identity.\<close>

definition forking :: machine where
  "forking = upd_task 0 (\<lambda>t. t\<lparr>mem_map := \<lparr>mem_start = 0x10000, mem_range = 2, vma_flags = 16\<rparr> #
      replicate 4 \<lparr>mem_start = 0, mem_range = 0, vma_flags = 0\<rparr>\<rparr>) (set_mem ((\<lambda>_. 0)(0x10001 := 7)) (two_tasks 5))"

definition fork_regs :: trap_context where
  "fork_regs = zero_context\<lparr>c_a7 := SYSCALL_FORK\<rparr>"

lemma pool_bytes_high: "\<lbrakk> page_state base b; x \<in> pool_bytes base b \<rbrakk> \<Longrightarrow> unat base \<le> unat x"
proof -
  assume s: "page_state base b" and "x \<in> pool_bytes base b"
  then obtain p r where p: "p \<in> free_pages b" "r < 4096" "x = PGADDR base p + of_nat r"
    by (auto simp: pool_bytes_def page_pool_def page_bytes_def zone_def PGSIZE_def)
  then have "PGADDR base p \<in> page_pool base b" by (simp add: page_pool_def)
  then have al: "align (PGADDR base p)" using page_pool_aligned [OF s] page_aligned_align by blast
  have "p < npage" using s p(1) by (auto simp: page_state_def intro: free_pages_less)
  then have "unat (PGADDR base p) = unat base + p * PGSIZE" using s by (intro unat_PGADDR) (simp_all add: page_state_def)
  with in_page(1) [OF al p(2)] p(3) show ?thesis by simp
qed

lemma forking_simps [simp]: "current_task forking = 0" "mm forking = buddy_init zero_buddy" "pmm_start forking = 0x80300000"
  "mem forking = (\<lambda>_. 0)(0x10001 := 7)" "k_pgtable forking = 0x80200000" "pidmap forking = (replicate NR_TASK 0)[0 := 1, 1 := 1]"
  "mem_map (task forking ! 0) = \<lparr>mem_start = 0x10000, mem_range = 2, vma_flags = 16\<rparr> #
      replicate 4 \<lparr>mem_start = 0, mem_range = 0, vma_flags = 0\<rparr>"
  by (simp_all add: forking_def set_mem_def) (simp_all add: two_tasks_def NR_TASK_def)

lemma forking_inv: "proc_inv forking"
  using two_tasks_inv [of 5]
  by (auto simp: proc_inv_def forking_def set_mem_def nth_list_update MAX_VMA_NUM_def)

lemma root_bytes: "x \<in> page_bytes 0x80200000 \<Longrightarrow> 0x80200000 \<le> unat x"
proof -
  assume "x \<in> page_bytes 0x80200000"
  then obtain r where r: "r < 4096" "x = 0x80200000 + of_nat r" by (auto simp: page_bytes_def zone_def PGSIZE_def)
  have "align 0x80200000" by (simp add: align_def)
  from in_page(1) [OF this r(1)] r(2) show ?thesis by simp
qed

lemma forking_entry: "i < 512 \<Longrightarrow> entry (mem forking) 0x80200000 i = 0"
  by (rule entry_zero) (use root_bytes in \<open>fastforce\<close>)

lemma forking_tab: "qs \<in> paths \<Longrightarrow> tab (mem forking) 0x80200000 qs = (if qs = [] then Some 0x80200000 else None)"
  using forking_entry by (cases qs) (auto simp: paths_def simp del: forking_simps)

lemma forking_tree: "kernel_tree (pmm_start forking) (mem forking) (mm forking) (k_pgtable forking)"
proof -
  have out: "x \<in> pool_bytes 0x80300000 (buddy_init zero_buddy) \<Longrightarrow> 0x80300000 \<le> unat x" for x
    using pool_bytes_high [OF zero_page_state] by fastforce
  have r: "page_aligned 0x80200000" by (simp add: page_aligned_def PGSIZE_def)
  have "(0x80200000 :: u64) \<in> page_bytes 0x80200000" using in_page_bytes [of 0 "0x80200000"] by simp
  then have "0x80200000 \<notin> page_pool 0x80300000 (buddy_init zero_buddy)" using out [of "0x80200000"] by (auto simp: pool_bytes_def)
  with r have "tables_ok (page_pool 0x80300000 (buddy_init zero_buddy)) (mem forking) 0x80200000"
    unfolding tables_ok_def using forking_tab by (auto split: if_splits simp del: forking_simps)
  moreover have "zeroed (page_pool 0x80300000 (buddy_init zero_buddy)) (mem forking)"
    unfolding zeroed_def
  proof (intro ballI)
    fix a x assume "a \<in> page_pool 0x80300000 (buddy_init zero_buddy)" "x \<in> page_bytes a"
    then have "0x80300000 \<le> unat x" by (intro out) (auto simp: pool_bytes_def)
    then show "mem forking x = 0" by auto
  qed
  ultimately show ?thesis using zero_page_state by (simp add: kernel_tree_def)
qed

lemma forking_areas: "page_areas (mem_map (cur_task forking)) (mem forking) (k_pgtable forking)"
proof -
  have "lookup (mem forking) 0x80200000 va = None" for va
    using forking_tab [OF path2(1)] by (simp add: lookup_def del: forking_simps tab.simps)
  then show ?thesis by (simp add: page_areas_def good_area_def align_def)
qed

lemma forking_settled:
  "\<forall>v\<in>set (mem_map (cur_task forking)). \<forall>i<unat (mem_range v).
      settled (\<lambda>m satp va. Some va) (r_satp (csr forking)) (fork_writes forking) (mem forking) (mem_start v + of_nat i) (mem_start v + of_nat i)"
proof -
  have low: "x \<notin> fork_writes forking" if "unat x < 0x80200000" for x
  proof
    assume "x \<in> fork_writes forking"
    moreover have "x \<notin> free_bytes forking" using pool_bytes_high [OF zero_page_state, of x] that by auto
    ultimately obtain qs a where "qs \<in> paths" "tab (mem forking) 0x80200000 qs = Some a" "x \<in> page_bytes a"
      by (auto elim: table_bytesE simp del: forking_simps(4))
    then show False using forking_tab [of qs] root_bytes [of x] that by (auto split: if_splits simp del: forking_simps)
  qed
  have "0x10000 + of_nat i \<notin> fork_writes forking" if "i < 2" for i :: nat
    by (rule low) (use that in \<open>auto simp: less_2_cases_iff\<close>)
  then show ?thesis by (simp add: settled_def)
qed

lemma forking_pages: "3 * MAX_VMA_NUM < pages_left (mm forking)"
proof -
  have "free_pages (buddy_init zero_buddy) = {..<npage}"
    using rel_free_pages [OF zero_rel spec_ok_init] init_avail by simp
  then show ?thesis by (simp add: pages_left_def MAX_VMA_NUM_def npage_eq)
qed

lemmas forking_ok = forking_inv forking_tree forking_areas forking_settled forking_pages

lemma forking_pid: "2 < NR_TASK" "pidmap forking ! 2 = 0" "c_a7 fork_regs = SYSCALL_FORK"
  by (simp_all add: NR_TASK_def fork_regs_def)




end
