(* ===== verification/Proc_Runs.thy ===== *)
theory Proc_Runs
  imports Syscalls User_Pages Scheduling
begin

text \<open>
  Runs of the kernel from the start of the first program on: every trap keeps the task table well
  formed, and the page tables of any two processes are different pages that the allocator holds
  as used.
\<close>

section \<open>What an operation keeps of the memory manager\<close>

definition mm_ext :: "u64 \<Rightarrow> buddy \<Rightarrow> buddy \<Rightarrow> bool" where
  "mm_ext base b b' \<longleftrightarrow>
     (page_state base b \<longrightarrow> page_state base b' \<and> (\<forall>p k. used_block b p k \<longrightarrow> used_block b' p k))"

lemma mm_ext_refl: "mm_ext base b b"
  by (simp add: mm_ext_def)

lemma mm_ext_trans: "\<lbrakk> mm_ext base a b; mm_ext base b c \<rbrakk> \<Longrightarrow> mm_ext base a c"
  by (simp add: mm_ext_def)

lemma kalloc_fresh:
  assumes "page_state base b" "kalloc base sz b = Inr (a, b')"
  shows "\<exists>p k. a = PGADDR base p \<and> used_block b' p k \<and> (\<forall>q l. used_block b q l \<longrightarrow> q \<noteq> p)" "mm_ext base b b'"
proof -
  have inv: "buddy_inv b" using assms(1) by (simp add: page_state_def)
  have "(\<exists>p k. a = PGADDR base p \<and> used_block b' p k \<and> (\<forall>q l. used_block b q l \<longrightarrow> q \<noteq> p)) \<and> mm_ext base b b'"
    using inv assms(2)
  proof (cases rule: kalloc_cases)
    case (1 p k)
    have "p \<in> free_pages b" using 1(4) by (simp add: subset_iff)
    have "q \<noteq> p" if "used_block b q l" for q l
    proof
      assume "q = p"
      then have "p \<in> extent q l" by simp
      with used_not_free [OF inv that] \<open>p \<in> free_pages b\<close> show False by blast
    qed
    moreover have "page_state base b'" using assms(1) 1(2) by (simp add: page_state_def)
    ultimately show ?thesis using 1(1,3,6) unfolding mm_ext_def by blast
  qed
  then show "\<exists>p k. a = PGADDR base p \<and> used_block b' p k \<and> (\<forall>q l. used_block b q l \<longrightarrow> q \<noteq> p)" "mm_ext base b b'"
    by blast+
qed

lemma kalloc_ext: "kalloc base sz b = Inr (a, b') \<Longrightarrow> mm_ext base b b'"
  using kalloc_fresh(2) unfolding mm_ext_def by blast

lemma map_step_ext: "map_step (page_alloc base) perm p m b = Inr (a, m', b') \<Longrightarrow> mm_ext base b b'"
  by (auto simp: map_step_def rbind_Inr_iff mm_ext_refl split: if_splits intro: kalloc_ext)

lemma map_walk_ext: "map_walk (page_alloc base) va pa perm l a m b = Inr (m', b') \<Longrightarrow> mm_ext base b b'"
proof (induction l arbitrary: a m b)
  case (Suc l)
  then show ?case by (auto simp: Let_def rbind_Inr_iff intro: mm_ext_trans map_step_ext)
qed (auto simp: Let_def mm_ext_refl split: if_splits)

lemma map_loop_ext:
  assumes "map_loop alloc pg end_va perm va pa m b = Some r"
  shows "alloc = page_alloc base \<longrightarrow> (\<forall>m' b'. r = Inr (m', b') \<longrightarrow> mm_ext base b b')"
proof (rule map_loop.raw_induct [of "\<lambda>alloc pg end_va perm va pa m b r.
      alloc = page_alloc base \<longrightarrow> (\<forall>m' b'. r = Inr (m', b') \<longrightarrow> mm_ext base b b')", OF _ assms])
  fix f alloc pg end_va perm va pa m b r
  assume IH: "\<And>alloc pg end_va perm va pa m b r. f alloc pg end_va perm va pa m b = Some r \<Longrightarrow>
      alloc = page_alloc base \<longrightarrow> (\<forall>m' b'. r = Inr (m', b') \<longrightarrow> mm_ext base b b')"
    and r: "(if va < end_va then
       (case map_walk alloc va pa perm 2 pg m b of
          Inl f \<Rightarrow> Some (Inl f)
        | Inr (m', s') \<Rightarrow> f alloc pg end_va perm (va + of_nat PGSIZE) (pa + of_nat PGSIZE) m' s')
     else Some (Inr (m, b))) = Some r"
  show "alloc = page_alloc base \<longrightarrow> (\<forall>m' b'. r = Inr (m', b') \<longrightarrow> mm_ext base b b')"
  proof (intro impI allI)
    fix m' b' assume a: "alloc = page_alloc base" "r = Inr (m', b')"
    show "mm_ext base b b'"
    proof (cases "va < end_va")
      case True
      then obtain m1 b1 where w: "map_walk alloc va pa perm 2 pg m b = Inr (m1, b1)"
        "f alloc pg end_va perm (va + of_nat PGSIZE) (pa + of_nat PGSIZE) m1 b1 = Some r"
        using r a by (auto split: sum.splits)
      from mm_ext_trans [OF map_walk_ext [OF w(1) [unfolded a(1)]]] IH [OF w(2)] a show ?thesis by blast
    qed (use r a mm_ext_refl in simp)
  qed
qed

lemma map_range_ext: "map_range (page_alloc base) pg va pa sz perm m b = Some (Inr (m', b')) \<Longrightarrow> mm_ext base b b'"
  using map_loop_ext unfolding map_range_def by blast

section \<open>What an operation keeps of the tasks\<close>

text \<open>Pids, page tables and the length of the memory maps stay; the memory manager only grows.\<close>

definition keeps :: "machine \<Rightarrow> machine \<Rightarrow> bool" where
  "keeps s s' \<longleftrightarrow> pmm_start s' = pmm_start s \<and> pidmap s' = pidmap s \<and> length (task s') = length (task s) \<and>
     (\<forall>i. pgtable (task s' ! i) = pgtable (task s ! i) \<and> pid (task s' ! i) = pid (task s ! i) \<and>
          length (mem_map (task s' ! i)) = length (mem_map (task s ! i))) \<and>
     mm_ext (pmm_start s) (mm s) (mm s')"

lemma keeps_refl: "keeps s s"
  by (simp add: keeps_def mm_ext_refl)

lemma keeps_trans: "\<lbrakk> keeps s t; keeps t u \<rbrakk> \<Longrightarrow> keeps s u"
  unfolding keeps_def using mm_ext_trans by fastforce

lemma keeps_simple:
  "\<lbrakk> pmm_start s' = pmm_start s; pidmap s' = pidmap s; task s' = task s; mm s' = mm s \<rbrakk> \<Longrightarrow> keeps s s'"
  by (simp add: keeps_def mm_ext_refl)

lemma keeps_set_mem: "keeps s (set_mem m s)"
  by (rule keeps_simple) simp_all

lemma keeps_upd_task:
  assumes "\<And>t. pgtable (f t) = pgtable t \<and> pid (f t) = pid t \<and> length (mem_map (f t)) = length (mem_map t)"
  shows "keeps s (upd_task i f s)"
  using assms by (cases "i < length (task s)") (auto simp: keeps_def mm_ext_refl nth_list_update list_update_beyond)

lemma keeps_context: "keeps s (upd_cur_context f s)"
  unfolding upd_cur_context_def by (rule keeps_upd_task) simp

lemma keeps_kalloc: "kalloc_m s sz = Inr (a, s') \<Longrightarrow> keeps s s'"
  by (auto simp: kalloc_m_def rbind_Inr_iff keeps_def intro: kalloc_ext)

lemma keeps_umap: "umap p va pa sz s = Inr s' \<Longrightarrow> keeps s s'"
proof -
  assume u: "umap p va pa sz s = Inr s'"
  let ?s = "vma_insert p va sz PTE_U s"
  obtain m b where r: "map_range (page_alloc (pmm_start ?s)) (pgtable (task ?s ! p)) va pa sz PTE_U (mem ?s) (mm ?s) = Some (Inr (m, b))"
    "s' = (set_mem m ?s)\<lparr>mm := b\<rparr>"
    using u by (auto simp: umap_def Let_def rbind_Inr_iff split: option.splits)
  have "keeps s ?s" unfolding vma_insert_def by (rule keeps_upd_task) simp
  moreover have "keeps ?s s'" using map_range_ext [OF r(1)] by (simp add: r(2) keeps_def)
  ultimately show ?thesis by (rule keeps_trans)
qed

lemma keeps_copy_areas: "copy_areas mmu p us s = Inr s' \<Longrightarrow> keeps s s'"
proof (induction us arbitrary: s)
  case (Cons v us)
  show ?case
  proof (cases "mem_range v = 0")
    case False
    with Cons.prems obtain pa s1 m t where t: "kalloc_m s (mem_range v) = Inr (pa, s1)"
      "umap p (mem_start v) pa (mem_range v) (set_mem m s1) = Inr t" "copy_areas mmu p us t = Inr s'"
      by (auto simp: rbind_Inr_iff)
    note keeps_trans [OF keeps_kalloc [OF t(1)] keeps_trans [OF keeps_set_mem keeps_umap [OF t(2)]]]
    from keeps_trans [OF this Cons.IH [OF t(3)]] show ?thesis .
  qed (use Cons in simp)
qed (simp add: keeps_refl)

lemma keeps_load_section:
  assumes "load_section p elf ph (o1, s) = Inr (o2, s')" shows "keeps s s'"
proof (cases "ph_type (mem s) ph = ELF_PROG_LOAD")
  case True
  with assms obtain tmp s1 m where t: "kalloc_m s (ph_memsz (mem s) ph) = Inr (tmp, s1)"
    "umap p (ph_vaddr (mem s) ph) tmp (ph_memsz (mem s) ph) (set_mem m s1) = Inr s'"
    by (auto simp: load_section_def Let_def rbind_Inr_iff)
  show ?thesis by (rule keeps_trans [OF keeps_kalloc [OF t(1)] keeps_trans [OF keeps_set_mem keeps_umap [OF t(2)]]])
qed (use assms in \<open>simp add: load_section_def keeps_refl\<close>)

lemma keeps_load_sections: "load_sections ns p elf (o1, s) = Inr (o2, s') \<Longrightarrow> keeps s s'"
proof (induction ns arbitrary: o1 s)
  case (Cons n ns)
  then obtain o3 t where "load_section p elf (elf + ucast (ucast (elf_phoff (mem s) elf) + of_nat n * 56 :: u32)) (o1, s) = Inr (o3, t)"
    "load_sections ns p elf (o3, t) = Inr (o2, s')" by (auto simp: Let_def rbind_Inr_iff)
  then show ?case using keeps_trans [OF keeps_load_section Cons.IH] by blast
qed (simp add: keeps_refl)

section \<open>Well-formed task tables\<close>

text \<open>\<open>proc_inv\<close> without its part on the current task, which is not set before the first program runs.\<close>

definition tasks_ok :: "machine \<Rightarrow> bool" where
  "tasks_ok s \<longleftrightarrow> length (task s) = NR_TASK \<and> length (pidmap s) = NR_TASK \<and>
    (\<forall>i < NR_TASK. length (mem_map (task s ! i)) = MAX_VMA_NUM \<and>
      (if pidmap s ! i \<noteq> 0 then pid (task s ! i) = of_nat i else pgtable (task s ! i) = 0))"

text \<open>The root tables of the processes: pages in use, a different one for each.\<close>

definition roots_ok :: "machine \<Rightarrow> bool" where
  "roots_ok s \<longleftrightarrow> page_state (pmm_start s) (mm s) \<and>
    (\<forall>i < NR_TASK. pidmap s ! i \<noteq> 0 \<longrightarrow>
      (\<exists>p k. pgtable (task s ! i) = PGADDR (pmm_start s) p \<and> used_block (mm s) p k)) \<and>
    (\<forall>i < NR_TASK. \<forall>j < NR_TASK. pidmap s ! i \<noteq> 0 \<and> pidmap s ! j \<noteq> 0 \<and> i \<noteq> j \<longrightarrow>
      pgtable (task s ! i) \<noteq> pgtable (task s ! j))"

definition well_formed :: "machine \<Rightarrow> bool" where
  "well_formed s \<longleftrightarrow> tasks_ok s \<and> roots_ok s"

lemma well_formed_keeps: "\<lbrakk> well_formed s; keeps s s' \<rbrakk> \<Longrightarrow> well_formed s'"
  unfolding well_formed_def tasks_ok_def roots_ok_def keeps_def mm_ext_def by (elim conjE) (intro conjI; simp; blast?)

lemma proc_inv_split: "proc_inv s \<longleftrightarrow> tasks_ok s \<and> current_task s < NR_TASK \<and> pidmap s ! current_task s \<noteq> 0"
  by (auto simp: proc_inv_def tasks_ok_def)

lemma alloc_process_well_formed:
  assumes "alloc_process s = Inr (p, s')" "well_formed s"
  shows "well_formed s'" "p < NR_TASK" "pidmap s' ! p \<noteq> 0" "\<forall>i. pidmap s ! i \<noteq> 0 \<longrightarrow> pidmap s' ! i \<noteq> 0" "current_task s' = current_task s"
proof -
  have wf: "tasks_ok s" "roots_ok s" using assms(2) by (simp_all add: well_formed_def)
  obtain s1 t s2 where a: "alloc_pid s = Inr (p, s1)"
    "alloc_pgtable (upd_task p (\<lambda>t. t\<lparr>pid := of_nat p, state := TASK_RUNNING\<rparr>) s1) = Inr (t, s2)"
    "s' = upd_task p (\<lambda>q. q\<lparr>pgtable := t, counter := TASK_INITIAL_COUNTER,
                               context_of := (context_of q)\<lparr>c_sp := SV39_USER_SP_ADDR\<rparr>\<rparr>) s2"
    using assms(1) by (auto simp: alloc_process_def rbind_Inr_iff Let_def)
  note p = alloc_pid_spec [OF a(1)]
  let ?u = "upd_task p (\<lambda>t. t\<lparr>pid := of_nat p, state := TASK_RUNNING\<rparr>) s1"
  obtain b m where b: "page_alloc (pmm_start s) (mm s) = Inr (t, b)" "s2 = set_mem m (?u\<lparr>mm := b\<rparr>)"
    using a(2) p(4) by (auto simp: alloc_pgtable_def rbind_Inr_iff Let_def kalloc_m_def)
  have len: "length (task s) = NR_TASK" "length (pidmap s) = NR_TASK" using wf(1) by (simp_all add: tasks_ok_def)
  have st: "page_state (pmm_start s) (mm s)" using wf(2) by (simp add: roots_ok_def)
  obtain q l where q: "t = PGADDR (pmm_start s) q" "used_block b q l" "\<forall>r n. used_block (mm s) r n \<longrightarrow> r \<noteq> q"
    using kalloc_fresh(1) [OF st b(1)] by blast
  have ext: "page_state (pmm_start s) b" "\<forall>r n. used_block (mm s) r n \<longrightarrow> used_block b r n"
    using kalloc_fresh(2) [OF st b(1)] st by (simp_all add: mm_ext_def)
  have s': "pmm_start s' = pmm_start s" "mm s' = b" "pidmap s' = (pidmap s)[p := 1]" "current_task s' = current_task s"
    "task s' = (task s)[p := (task s ! p)\<lparr>pid := of_nat p, state := TASK_RUNNING, pgtable := t,
       counter := TASK_INITIAL_COUNTER, context_of := (context_of (task s ! p))\<lparr>c_sp := SV39_USER_SP_ADDR\<rparr>\<rparr>]"
    using a(3) b(2) p(1,4) len by simp_all
  have "tasks_ok s'" using wf(1) p(1) len unfolding tasks_ok_def s' by (auto simp: nth_list_update)
  moreover have "roots_ok s'"
    unfolding roots_ok_def s'
  proof (intro conjI allI impI)
    have other: "pgtable (task s ! i) \<noteq> t" if i: "i < NR_TASK" "pidmap s ! i \<noteq> 0" for i
    proof
      assume e: "pgtable (task s ! i) = t"
      obtain r n where r: "pgtable (task s ! i) = PGADDR (pmm_start s) r" "used_block (mm s) r n"
        using wf(2) i by (auto simp: roots_ok_def)
      have inv: "buddy_inv (mm s)" "buddy_inv b" "unat (pmm_start s) + mem_size \<le> 2 ^ 64" using st ext(1) by (simp_all add: page_state_def)
      have "r = q" using PGADDR_inj [OF _ used_less [OF inv(1) r(2)] used_less [OF inv(2) q(2)] inv(3)] e r(1) q(1) by simp
      with q(3) r(2) show False by blast
    qed
    show "page_state (pmm_start s) b" by (rule ext(1))
    show "\<exists>r n. pgtable ((task s)[p := (task s ! p)\<lparr>pid := of_nat p, state := TASK_RUNNING, pgtable := t,
       counter := TASK_INITIAL_COUNTER, context_of := (context_of (task s ! p))\<lparr>c_sp := SV39_USER_SP_ADDR\<rparr>\<rparr>] ! i) = PGADDR (pmm_start s) r \<and> used_block b r n"
      if i: "i < NR_TASK" "(pidmap s)[p := 1] ! i \<noteq> 0" for i
    proof (cases "i = p")
      case False
      then have "pidmap s ! i \<noteq> 0" using i(2) by simp
      then obtain r n where "pgtable (task s ! i) = PGADDR (pmm_start s) r" "used_block (mm s) r n"
        using wf(2) i(1) unfolding roots_ok_def by blast
      then show ?thesis using False ext(2) by auto
    qed (use q(1,2) len i(1) in auto)
    show "pgtable ((task s)[p := (task s ! p)\<lparr>pid := of_nat p, state := TASK_RUNNING, pgtable := t,
       counter := TASK_INITIAL_COUNTER, context_of := (context_of (task s ! p))\<lparr>c_sp := SV39_USER_SP_ADDR\<rparr>\<rparr>] ! i) \<noteq>
       pgtable ((task s)[p := (task s ! p)\<lparr>pid := of_nat p, state := TASK_RUNNING, pgtable := t,
       counter := TASK_INITIAL_COUNTER, context_of := (context_of (task s ! p))\<lparr>c_sp := SV39_USER_SP_ADDR\<rparr>\<rparr>] ! j)"
      if "i < NR_TASK" "j < NR_TASK" "(pidmap s)[p := 1] ! i \<noteq> 0 \<and> (pidmap s)[p := 1] ! j \<noteq> 0 \<and> i \<noteq> j" for i j
      using that wf(2) len other [of i] other [of j] by (cases "i = p"; cases "j = p") (auto simp: roots_ok_def)
  qed
  ultimately show "well_formed s'" by (simp add: well_formed_def)
  show "p < NR_TASK" by (rule p(1))
  show "pidmap s' ! p \<noteq> 0" "\<forall>i. pidmap s ! i \<noteq> 0 \<longrightarrow> pidmap s' ! i \<noteq> 0" "current_task s' = current_task s"
    using p(1) len s' by (auto simp: nth_list_update)
qed

section \<open>Traps and programs\<close>

definition running :: "machine \<Rightarrow> bool" where
  "running s \<longleftrightarrow> well_formed s \<and> current_task s < NR_TASK \<and> pidmap s ! current_task s \<noteq> 0"

lemma running_inv: "running s \<Longrightarrow> proc_inv s"
  by (simp add: running_def well_formed_def proc_inv_split)

lemma running_intro: "\<lbrakk> well_formed s; proc_inv s \<rbrakk> \<Longrightarrow> running s"
  by (simp add: running_def proc_inv_split)

lemma keeps_trap_return: "keeps s (trap_return_2 s)"
  by (rule keeps_simple) (simp_all add: trap_return_2_def)

lemma keeps_switch_to: "keeps s (switch_to s)"
  unfolding switch_to_def Let_def
  by (rule keeps_trans [OF _ keeps_trap_return], rule keeps_simple) (simp_all add: sstatus_set_def satp_set_def)

lemma keeps_do_timer: "keeps s (do_timer t s)"
proof -
  have t: "keeps s (ticked t s)"
    by (cases "current_task s < length (task s)")
      (auto simp: ticked_def keeps_def mm_ext_refl nth_list_update list_update_beyond)
  have "keeps (ticked t s) (snd (schedule (ticked t s)))"
    by (rule keeps_simple) (simp_all add: schedule_def split: option.split)
  then have n: "keeps s (snd (schedule (ticked t s)))" by (rule keeps_trans [OF t])
  have "keeps s (switch_to (snd (schedule (ticked t s))))" by (rule keeps_trans [OF n keeps_switch_to])
  moreover have "keeps s (trap_return_2 (ticked t s))" by (rule keeps_trans [OF t keeps_trap_return])
  ultimately show ?thesis by (simp only: do_timer_cases split: if_split) simp
qed

lemma fork_well_formed:
  assumes "sys_fork mmu s = Inr (r, s')" "well_formed s" shows "well_formed s'"
proof -
  obtain p s1 where f: "alloc_process s = Inr (p, s1)" "copy_mem_from mmu p (current_task s1)
      (upd_cur_context (\<lambda>c. c\<lparr>c_a0 := r\<rparr>)
        (upd_task p (\<lambda>t. t\<lparr>filename := filename (cur_task s1), fpid := pid (cur_task s1), state := TASK_RUNNING,
           context_of := (context_of (cur_task s1))\<lparr>c_a0 := 0\<rparr>\<rparr>) s1)) = Inr s'"
    using assms(1) by (auto simp: sys_fork_def rbind_Inr_iff Let_def upd_cur_context_def)
  let ?s2 = "upd_task p (\<lambda>t. t\<lparr>filename := filename (cur_task s1), fpid := pid (cur_task s1), state := TASK_RUNNING,
           context_of := (context_of (cur_task s1))\<lparr>c_a0 := 0\<rparr>\<rparr>) s1"
  let ?s3 = "upd_cur_context (\<lambda>c. c\<lparr>c_a0 := r\<rparr>) ?s2"
  let ?s4 = "sstatus_set (sstatus_get ?s3 OR SSTATUS_SUM) ?s3"
  obtain s5 where s5: "copy_areas mmu p (mem_map (task ?s4 ! current_task s1)) ?s4 = Inr s5"
    "s' = sstatus_set (sstatus_get s5 AND NOT SSTATUS_SUM) s5"
    using f(2) by (auto simp: copy_mem_from_def rbind_Inr_iff Let_def)
  have "keeps s1 ?s2" by (rule keeps_upd_task) simp
  moreover have "keeps ?s2 ?s3" by (rule keeps_context)
  moreover have "keeps ?s3 ?s4" by (rule keeps_simple) (simp_all add: sstatus_set_def)
  moreover have "keeps ?s4 s5" by (rule keeps_copy_areas [OF s5(1)])
  moreover have "keeps s5 s'" by (rule keeps_simple) (simp_all add: s5(2) sstatus_set_def)
  ultimately have "keeps s1 s'" using keeps_trans by blast
  with alloc_process_well_formed(1) [OF f(1) assms(2)] show ?thesis by (rule well_formed_keeps)
qed

lemma syscall_well_formed:
  assumes "syscall mmu s = Inr (r, s')" "well_formed s" shows "well_formed s'"
proof -
  consider "s' = upd_cur_context (\<lambda>c. c\<lparr>c_a0 := ucast (pid (cur_task s))\<rparr>) s" | "sys_fork mmu s = Inr (r, s')"
    | r' where "sys_write mmu (c_a0 (context_of (cur_task s))) (c_a1 (context_of (cur_task s))) (c_a2 (context_of (cur_task s))) s = Inr (r', s')"
    using assms(1) by (auto simp: syscall_def Let_def sys_getpid_def rbind_Inr_iff split: if_splits)
  then show ?thesis
  proof cases
    case 1
    then show ?thesis using well_formed_keeps [OF assms(2) keeps_context] by simp
  next
    case 2
    then show ?thesis using fork_well_formed assms(2) by blast
  next
    case 3
    then have "keeps s s'"
      by (intro keeps_simple) (auto simp: sys_write_def Let_def rbind_Inr_iff sstatus_set_def split: if_splits)
    then show ?thesis by (rule well_formed_keeps [OF assms(2)])
  qed
qed

lemma user_trap_cases:
  assumes "user_trap mmu t regs s = Inr (regs', s')"
  defines "u \<equiv> upd_cur_context (\<lambda>_. regs) (trap_entry regs s)"
  obtains (timer) "s' = do_timer t u" | (call) r x where
    "syscall mmu (upd_cur_context (\<lambda>c. c\<lparr>c_sepc := c_sepc c + 4\<rparr>) u) = Inr (r, x)" "s' = trap_return_2 x"
proof -
  have ts: "trap_start mmu t (trap_entry regs s) = Inr s'" "sscratch_stack (trap_entry regs s) = regs"
    using assms(1) by (auto simp: user_trap_def rbind_Inr_iff trap_entry_def)
  show thesis
  proof (cases "bit (r_scause (csr (trap_entry regs s))) 63")
    case True
    then have "s' = do_timer t u"
      using ts by (auto simp: trap_start_def scause_get_def handle_interrupt_def Let_def rbind_Inr_iff u_def split: if_splits)
    then show thesis by (rule timer)
  next
    case False
    then obtain r x where "syscall mmu (upd_cur_context (\<lambda>c. c\<lparr>c_sepc := c_sepc c + 4\<rparr>) u) = Inr (r, x)" "s' = trap_return_2 x"
      using ts by (auto simp: trap_start_def scause_get_def handle_exception_def Let_def rbind_Inr_iff u_def split: if_splits)
    then show thesis by (rule call)
  qed
qed

lemma do_timer_resumes: "sscratch_stack (do_timer t s) = context_of (cur_task (do_timer t s))"
  by (auto simp: do_timer_cases switch_to_def trap_return_2_def sstatus_set_def satp_set_def Let_def)

lemma user_trap_running:
  assumes "user_trap mmu t regs s = Inr (regs', s')" "running s"
  shows "running s' \<and> regs' = context_of (cur_task s')"
proof -
  let ?u = "upd_cur_context (\<lambda>_. regs) (trap_entry regs s)"
  have "keeps s (trap_entry regs s)" by (rule keeps_simple) (simp_all add: trap_entry_def)
  then have u: "well_formed ?u" using assms(2) keeps_trans [OF _ keeps_context] well_formed_keeps by (simp add: running_def) blast
  have "proc_inv s'" using inv_user_trap [OF running_inv [OF assms(2)] assms(1)] .
  moreover have "well_formed s' \<and> sscratch_stack s' = context_of (cur_task s')"
    using assms(1)
  proof (cases rule: user_trap_cases)
    case timer
    then show ?thesis using well_formed_keeps [OF u keeps_do_timer] do_timer_resumes by simp
  next
    case (call r x)
    have "well_formed x" using syscall_well_formed [OF call(1) well_formed_keeps [OF u keeps_context]] .
    then show ?thesis using well_formed_keeps [OF _ keeps_trap_return] call(2) by (simp add: trap_return_2_def)
  qed
  moreover have "regs' = sscratch_stack s'" using assms(1) by (auto simp: user_trap_def rbind_Inr_iff trap_return_def)
  ultimately show ?thesis using running_intro by simp
qed

text \<open>What \<open>execve\<close> does to the tasks and to the memory manager.\<close>

lemma execve_steps:
  assumes "execve fuel ent junk nm s = Inr s'"
  obtains fs1 p s1 sz elf s2 fs2 ns s3 o1 o2 stack s4 va pa s5 c where
    "alloc_process (s\<lparr>fsys := fs1\<rparr>) = Inr (p, s1)"
    "kalloc_m (upd_task p (\<lambda>t. t\<lparr>filename := take 8 nm @ drop 8 (filename t)\<rparr>) s1) sz = Inr (elf, s2)"
    "load_sections ns p elf (o1, s2\<lparr>fsys := fs2\<rparr>) = Inr (o2, s3)"
    "kalloc_m s3 (of_nat (PGSIZE * 4)) = Inr (stack, s4)"
    "umap p va pa (of_nat (PGSIZE * 4)) s4 = Inr s5"
    "s' = switch_to ((upd_task p (\<lambda>t. t\<lparr>context_of := (context_of t)\<lparr>c_sepc := c\<rparr>\<rparr>) s5)\<lparr>current_task := p\<rparr>)"
proof -
  obtain r fs1 where r: "fat_open fuel ent nm 0 (fsys s) = Inr (r, fs1)"
    using assms by (auto simp: execve_def rbind_Inr_iff)
  then obtain n f where f: "r = Some (n, Some f)"
    using assms by (auto simp: execve_def split: option.splits)
  obtain p s1 where a: "alloc_process (s\<lparr>fsys := fs1\<rparr>) = Inr (p, s1)"
    using assms r f by (auto simp: execve_def rbind_Inr_iff)
  let ?s1 = "upd_task p (\<lambda>t. t\<lparr>filename := take 8 nm @ drop 8 (filename t)\<rparr>) s1"
  obtain elf s2 where k: "kalloc_m ?s1 (ucast (fsize f)) = Inr (elf, s2)"
    using assms r f a by (auto simp: execve_def rbind_Inr_iff Let_def)
  obtain r2 fs2 where rd: "fat_read f (sint (fsize f)) (fsys s2) = Inr (r2, fs2)"
    using assms r f a k by (auto simp: execve_def rbind_Inr_iff Let_def)
  then obtain n2 bytes f2 where r2: "r2 = Some (n2, bytes, f2)"
    using assms r f a k by (cases r2) (auto simp: execve_def rbind_Inr_iff Let_def)
  let ?s2 = "set_mem (store_bytes elf bytes (world fs2)) (s2\<lparr>fsys := fs2\<rparr>)"
  have s2: "?s2 = s2\<lparr>fsys := fs2\<lparr>world := store_bytes elf bytes (world fs2)\<rparr>\<rparr>" by (simp add: set_mem_def)
  let ?ns = "[0..<unat (elf_phnum (mem ?s2) elf)]"
  note facts = r f a k rd r2
  obtain o2 s3 where l: "load_sections ?ns p elf (junk, ?s2) = Inr (o2, s3)"
    using assms facts by (auto simp: execve_def rbind_Inr_iff Let_def)
  obtain stack s4 where st: "kalloc_m s3 (of_nat (PGSIZE * 4)) = Inr (stack, s4)"
    using assms facts l by (auto simp: execve_def rbind_Inr_iff Let_def)
  let ?va = "c_sp (context_of (task s4 ! p)) - of_nat (4 * PGSIZE)" and ?pa = "stack - of_nat (4 * PGSIZE)"
  obtain s5 where u: "umap p ?va ?pa (of_nat (PGSIZE * 4)) s4 = Inr s5"
    using assms facts l st by (auto simp: execve_def rbind_Inr_iff Let_def)
  have "s' = switch_to ((upd_task p (\<lambda>t. t\<lparr>context_of := (context_of t)\<lparr>c_sepc := elf_entry (mem s5) elf + o2\<rparr>\<rparr>) s5)\<lparr>current_task := p\<rparr>)"
    using assms facts l st u by (auto simp: execve_def rbind_Inr_iff Let_def)
  from that [OF a k l [unfolded s2] st u this] show thesis .
qed

lemma execve_running:
  assumes "execve fuel ent junk nm s = Inr s'" "well_formed s" shows "running s'"
  using assms(1)
proof (cases rule: execve_steps)
  case (1 fs1 p s1 sz elf s2 fs2 ns s3 o1 o2 stack s4 va pa s5 c)
  have "keeps s (s\<lparr>fsys := fs1\<rparr>)" by (rule keeps_simple) simp_all
  note a = alloc_process_well_formed [OF 1(1) well_formed_keeps [OF assms(2) this]]
  let ?s1 = "upd_task p (\<lambda>t. t\<lparr>filename := take 8 nm @ drop 8 (filename t)\<rparr>) s1"
  let ?s6 = "upd_task p (\<lambda>t. t\<lparr>context_of := (context_of t)\<lparr>c_sepc := c\<rparr>\<rparr>) s5"
  have "keeps s1 ?s1" by (rule keeps_upd_task) simp
  moreover have "keeps ?s1 s2" by (rule keeps_kalloc [OF 1(2)])
  moreover have "keeps s2 (s2\<lparr>fsys := fs2\<rparr>)" by (rule keeps_simple) simp_all
  moreover have "keeps (s2\<lparr>fsys := fs2\<rparr>) s3" by (rule keeps_load_sections [OF 1(3)])
  moreover have "keeps s3 s4" by (rule keeps_kalloc [OF 1(4)])
  moreover have "keeps s4 s5" by (rule keeps_umap [OF 1(5)])
  moreover have "keeps s5 ?s6" by (rule keeps_upd_task) simp
  moreover have "keeps ?s6 (?s6\<lparr>current_task := p\<rparr>)" by (rule keeps_simple) simp_all
  moreover have "keeps (?s6\<lparr>current_task := p\<rparr>) s'" unfolding 1(6) by (rule keeps_switch_to)
  ultimately have k: "keeps s1 s'" by (meson keeps_trans)
  have "current_task s' = p" by (simp add: 1(6) switch_to_def trap_return_2_def sstatus_set_def satp_set_def Let_def)
  then show ?thesis using well_formed_keeps [OF a(1) k] a(2,3) k by (simp add: running_def keeps_def)
qed

section \<open>Runs\<close>

text \<open>
  Between two traps user code runs: it may change the memory, and the processor sets the control
  registers. The registers at a trap are arbitrary.
\<close>

inductive trap_run :: "mmu_fun \<Rightarrow> machine \<Rightarrow> machine \<Rightarrow> bool" for mmu :: mmu_fun where
  start: "trap_run mmu s s"
| trap: "\<lbrakk> trap_run mmu s u; user_trap mmu t regs (u\<lparr>csr := c, fsys := f\<rparr>) = Inr (regs', s') \<rbrakk> \<Longrightarrow> trap_run mmu s s'"

lemma run_running: "\<lbrakk> trap_run mmu s s'; running s \<rbrakk> \<Longrightarrow> running s'"
proof (induction rule: trap_run.induct)
  case (trap s u t regs f c regs' s')
  have "keeps u (u\<lparr>csr := c, fsys := f\<rparr>)" by (rule keeps_simple) simp_all
  then have "running (u\<lparr>csr := c, fsys := f\<rparr>)"
    using trap.IH [OF trap.prems] well_formed_keeps by (auto simp: running_def)
  from user_trap_running [OF trap.hyps(2) this] show ?case by simp
qed

text \<open>
  C4: in every run of traps, whatever user code does to the registers and to the memory between
  them, the process table stays well formed: both tables keep their length and every memory map its
  slots, the current task is live, the pid of every live task is its index, a slot without a pid
  has no page table, so that the scheduler never takes it, and the root tables of any two live
  tasks are different aligned pages inside the managed memory, in use for the allocator.
\<close>

theorem runs_keep_tables_apart:
  assumes "well_formed s" and "current_task s < NR_TASK" and "pidmap s ! current_task s \<noteq> 0" and "trap_run mmu s s'"
  shows "length (task s') = NR_TASK \<and> length (pidmap s') = NR_TASK \<and>
    current_task s' < NR_TASK \<and> pidmap s' ! current_task s' \<noteq> 0 \<and>
    (\<forall>i<NR_TASK. length (mem_map (task s' ! i)) = MAX_VMA_NUM \<and> (pidmap s' ! i = 0 \<longrightarrow> pgtable (task s' ! i) = 0)) \<and>
    (\<forall>i<NR_TASK. pidmap s' ! i \<noteq> 0 \<longrightarrow> pid (task s' ! i) = of_nat i \<and>
      (\<exists>p k. pgtable (task s' ! i) = PGADDR (pmm_start s') p \<and> used_block (mm s') p k)) \<and>
    (\<forall>i<NR_TASK. \<forall>j<NR_TASK. pidmap s' ! i \<noteq> 0 \<and> pidmap s' ! j \<noteq> 0 \<and> i \<noteq> j \<longrightarrow>
      page_bytes (pgtable (task s' ! i)) \<inter> page_bytes (pgtable (task s' ! j)) = {})"
proof -
  have "running s" using assms(1-3) by (simp add: running_def)
  then have r: "running s'" by (rule run_running [OF assms(4)])
  then have t: "tasks_ok s'" "roots_ok s'" by (simp_all add: running_def well_formed_def)
  have root: "\<exists>p k. pgtable (task s' ! i) = PGADDR (pmm_start s') p \<and> used_block (mm s') p k"
    if i: "i < NR_TASK" "pidmap s' ! i \<noteq> 0" for i using t(2) i unfolding roots_ok_def by blast
  have al: "page_aligned (pgtable (task s' ! i))" if i: "i < NR_TASK" "pidmap s' ! i \<noteq> 0" for i
  proof -
    have st: "page_state (pmm_start s') (mm s')" using t(2) by (simp add: roots_ok_def)
    then have inv: "buddy_inv (mm s')" "unat (pmm_start s') + mem_size \<le> 2 ^ 64" "unat (pmm_start s') + mem_size \<le> 2 ^ 50"
      "unat (pmm_start s') mod PGSIZE = 0" by (simp_all add: page_state_def)
    obtain p k where p: "pgtable (task s' ! i) = PGADDR (pmm_start s') p" "used_block (mm s') p k" using root [OF i] by blast
    have l: "p < npage" by (rule used_less [OF inv(1) p(2)])
    then have "p * PGSIZE < mem_size" by (simp add: npage_eq PGSIZE_def mem_size_def)
    then show ?thesis
      using unat_PGADDR [OF l inv(2)] inv(3,4) p(1) by (simp add: page_aligned_def mod_add_left_eq [symmetric])
  qed
  have "\<forall>i<NR_TASK. \<forall>j<NR_TASK. pidmap s' ! i \<noteq> 0 \<and> pidmap s' ! j \<noteq> 0 \<and> i \<noteq> j \<longrightarrow>
      page_bytes (pgtable (task s' ! i)) \<inter> page_bytes (pgtable (task s' ! j)) = {}"
  proof (intro allI impI)
    fix i j assume i: "i < NR_TASK" and j: "j < NR_TASK" and l: "pidmap s' ! i \<noteq> 0 \<and> pidmap s' ! j \<noteq> 0 \<and> i \<noteq> j"
    then have "pgtable (task s' ! i) \<noteq> pgtable (task s' ! j)" using t(2) by (simp add: roots_ok_def)
    then show "page_bytes (pgtable (task s' ! i)) \<inter> page_bytes (pgtable (task s' ! j)) = {}"
      using pages_disjoint [OF al al] i j l by simp
  qed
  moreover have "length (task s') = NR_TASK \<and> length (pidmap s') = NR_TASK \<and> current_task s' < NR_TASK \<and>
      pidmap s' ! current_task s' \<noteq> 0"
    using r t(1) by (simp add: running_def tasks_ok_def)
  moreover have "\<forall>i<NR_TASK. length (mem_map (task s' ! i)) = MAX_VMA_NUM \<and> (pidmap s' ! i = 0 \<longrightarrow> pgtable (task s' ! i) = 0)"
    "\<forall>i<NR_TASK. pidmap s' ! i \<noteq> 0 \<longrightarrow> pid (task s' ! i) = of_nat i"
    using t(1) by (simp_all add: tasks_ok_def split: if_splits)
  ultimately show ?thesis using root by blast
qed

section \<open>Witness\<close>

text \<open>The two tasks with root tables on the first two pages of the allocator.\<close>

lemma paged_tasks:
  obtains b where "well_formed ((two_tasks 5)\<lparr>mm := b,
      task := (task (two_tasks 5))[0 := (task (two_tasks 5) ! 0)\<lparr>pgtable := 0x80300000\<rparr>,
        1 := (task (two_tasks 5) ! 1)\<lparr>pgtable := 0x80301000\<rparr>]\<rparr>)"
proof -
  obtain s1 s2 where r: "buddy_inv s2" "used_block s2 0 0" "used_block s2 1 0"
    by (rule one_page)
  have "page_state 0x80300000 s2" using r(1) by (simp add: page_state_def mem_size_def PGSIZE_def)
  moreover have "PGADDR 0x80300000 0 = 0x80300000" "PGADDR 0x80300000 1 = 0x80301000"
    by (simp_all add: PGADDR_def PGSIZE_def)
  ultimately show thesis
    by (intro that [of s2])
      (use r(2,3) in \<open>auto simp: well_formed_def tasks_ok_def roots_ok_def two_tasks_def NR_TASK_def MAX_VMA_NUM_def
         blank_task_def nth_list_update intro: exI [of _ "0 :: nat"] exI [of _ "1 :: nat"]\<close>)
qed

theorem runs_keep_tables_apart_witness: "\<exists>s s'. trap_run (\<lambda>m satp va. None) s s' \<and> current_task s = 0 \<and> current_task s' = 1 \<and>
    page_bytes (pgtable (task s' ! 0)) \<inter> page_bytes (pgtable (task s' ! 1)) = {}"
proof -
  obtain b where wf: "well_formed ((two_tasks 5)\<lparr>mm := b,
      task := (task (two_tasks 5))[0 := (task (two_tasks 5) ! 0)\<lparr>pgtable := 0x80300000\<rparr>,
        1 := (task (two_tasks 5) ! 1)\<lparr>pgtable := 0x80301000\<rparr>]\<rparr>)" (is "well_formed ?s")
    by (rule paged_tasks)
  have tk: "task ?s ! 0 = blank_task\<lparr>pgtable := 0x80300000, counter := 5\<rparr>"
    "task ?s ! 1 = blank_task\<lparr>pid := 1, pgtable := 0x80301000, counter := TASK_INITIAL_COUNTER\<rparr>"
    "length (task ?s) = NR_TASK" "current_task ?s = 0" "pidmap ?s ! 0 = 1" "pidmap ?s ! 1 = 1"
    by (simp_all add: two_tasks_def NR_TASK_def)
  have others: "\<not> ready ?s i" if i: "i \<noteq> 0" "i \<noteq> 1" for i
    using i by (auto simp: ready_def two_tasks_def NR_TASK_def nth_list_update blank_task_def)
  have over: "overtakes ?s i \<longleftrightarrow> i = 1" for i
    using tk others [of i] by (cases "i = 0"; cases "i = 1") (auto simp: overtakes_def ready_def blank_task_def TASK_INITIAL_COUNTER_def NR_TASK_def)
  have "current_task ?s < length (task ?s)" by (simp add: tk(3,4) NR_TASK_def)
  then obtain s' where s': "timer_trap (\<lambda>m satp va. None) 0 zero_context ?s = Inr (context_of (cur_task s'), s')"
    "current_task s' = 1" "pidmap s' = pidmap ?s"
    by (cases rule: timer_trap_cases [where mmu = "\<lambda>m satp va. None" and t = 0 and regs = zero_context]) (use over in auto)
  have "trap_run (\<lambda>m satp va. None) ?s s'"
    using trap_run.trap [OF trap_run.start, where f = "fsys ?s" and c = "timer_csr (csr ?s)"] s'(1)
    by (simp add: timer_trap_def)
  moreover from runs_keep_tables_apart [OF wf _ _ this] have
    "page_bytes (pgtable (task s' ! 0)) \<inter> page_bytes (pgtable (task s' ! 1)) = {}"
    using tk s'(3) by (simp add: NR_TASK_def)
  ultimately show ?thesis using tk(4) s'(2) by blast
qed

end
