(* ===== verification/Fat_Read.thy ===== *)
theory Fat_Read
  imports Fat_View
begin

text \<open>
  Reading files: a file is a chain of clusters (or the root area of a FAT12 or FAT16 volume), its
  bytes are those of the sectors of the chain one after the other, and \<open>fat_read\<close> returns the bytes
  from the position of the handle on. \<open>fat_lseek\<close> moves the handle along the chain.
\<close>

section \<open>The bytes of a file\<close>

text \<open>\<open>cs\<close> are the clusters of a chain, from the first to the one before the end mark.\<close>

definition chain :: "'w fat_vol_handle \<Rightarrow> (nat \<Rightarrow> u8) \<Rightarrow> u32 list \<Rightarrow> bool" where
  "chain v F cs \<longleftrightarrow> (\<forall>i < length cs. valid_cluster v (cs ! i) \<and> cs ! i \<noteq> fat_eoc v \<and>
     entry_get (vtype v) F (unat (cs ! i)) = (cs @ [fat_eoc v]) ! Suc i)"

definition csize :: "'w fat_vol_handle \<Rightarrow> nat" where
  "csize v = unat (sectors_per_cluster v) * 512"

definition file_room :: "'w fat_vol_handle \<Rightarrow> fat_file_handle \<Rightarrow> u32 list \<Rightarrow> nat" where
  "file_room v h cs = (if root_flag h then unat (fsize h) else length cs * csize v)"

definition file_sector :: "'w fat_vol_handle \<Rightarrow> fat_file_handle \<Rightarrow> u32 list \<Rightarrow> nat \<Rightarrow> u32" where
  "file_sector v h cs k =
    (if root_flag h then first_cluster h + of_nat k
     else fat_first_sector_of_cluster v (cs ! (k div unat (sectors_per_cluster v))) +
       of_nat (k mod unat (sectors_per_cluster v)))"

definition file_byte :: "'w fat_vol_handle \<Rightarrow> fat_file_handle \<Rightarrow> u32 list \<Rightarrow> (u32 \<Rightarrow> sector) \<Rightarrow> nat \<Rightarrow> u8" where
  "file_byte v h cs V p = V (file_sector v h cs (p div 512)) (p mod 512)"

text \<open>The cluster of a position; at the end of the chain the end mark.\<close>

definition cluster_at :: "'w fat_vol_handle \<Rightarrow> fat_file_handle \<Rightarrow> u32 list \<Rightarrow> nat \<Rightarrow> u32" where
  "cluster_at v h cs p = (if root_flag h then first_cluster h else (cs @ [fat_eoc v]) ! (p div csize v))"

text \<open>The sectors of the file lie in the volume.\<close>

definition placed :: "nat \<Rightarrow> 'w fat_vol_handle \<Rightarrow> fat_file_handle \<Rightarrow> u32 list \<Rightarrow> bool" where
  "placed nsec v h cs \<longleftrightarrow> file_room v h cs < 2 ^ 32 \<and>
    (if root_flag h then unat (first_cluster h) + (unat (fsize h) + 511) div 512 \<le> nsec
     else sectors_per_cluster v \<noteq> 0 \<and> cs \<noteq> [] \<and> first_cluster h = cs ! 0 \<and>
       (\<forall>c\<in>set cs. 2 \<le> unat c \<and> unat (first_data_sector v) + (unat c - 1) * unat (sectors_per_cluster v) \<le> nsec))"

lemma place_arith:
  fixes k s :: nat assumes "p < l * (s * 512)" "0 < s"
  shows "p div 512 div s < l" "p div (s * 512) = p div 512 div s"
proof -
  show "p div (s * 512) = p div 512 div s" unfolding mult.commute [of s] by (rule div_mult2_eq)
  then show "p div 512 div s < l"
    using assms by (metis less_mult_imp_div_less)
qed

lemma first_sector_nat:
  assumes "2 \<le> unat c" "unat (first_data_sector v) + (unat c - 1) * unat (sectors_per_cluster v) \<le> nsec" "nsec \<le> 2 ^ 32"
    "sectors_per_cluster v \<noteq> 0"
  shows "unat (fat_first_sector_of_cluster v c) = unat (first_data_sector v) + (unat c - 2) * unat (sectors_per_cluster v)"
    "unat (fat_first_sector_of_cluster v c) + unat (sectors_per_cluster v) \<le> nsec"
proof -
  have s: "0 < unat (sectors_per_cluster v)" using assms(4) by (simp add: unat_gt_0)
  have c: "unat (c - 2) = unat c - 2" using assms(1) by (simp add: unat_sub word_le_nat_alt)
  have m: "(unat c - 1) * unat (sectors_per_cluster v) = (unat c - 2) * unat (sectors_per_cluster v) + unat (sectors_per_cluster v)"
    using assms(1) by (metis Suc_1 Suc_diff_le add.commute diff_Suc_Suc mult_Suc numeral_2_eq_2 One_nat_def)
  have "unat ((c - 2) * ucast (sectors_per_cluster v)) = (unat c - 2) * unat (sectors_per_cluster v)"
    using assms(2,3) s m by (simp add: unat_word_ariths c)
  then show e: "unat (fat_first_sector_of_cluster v c) = unat (first_data_sector v) + (unat c - 2) * unat (sectors_per_cluster v)"
    using assms(2,3) s m unfolding fat_first_sector_of_cluster_def by (subst unat_word_ariths(1)) simp
  show "unat (fat_first_sector_of_cluster v c) + unat (sectors_per_cluster v) \<le> nsec"
    unfolding e using assms(2) m by simp
qed

lemma file_sector_nat:
  assumes "placed nsec v h cs" "nsec \<le> 2 ^ 32" "p < file_room v h cs"
  shows "unat (file_sector v h cs (p div 512)) < nsec"
    "\<not> root_flag h \<Longrightarrow> unat (file_sector v h cs (p div 512)) = unat (first_data_sector v) +
       (unat (cs ! (p div csize v)) - 2) * unat (sectors_per_cluster v) + p div 512 mod unat (sectors_per_cluster v)"
proof -
  let ?s = "unat (sectors_per_cluster v)" and ?f = "fat_first_sector_of_cluster v (cs ! (p div csize v))"
  have nr: "unat (file_sector v h cs (p div 512)) < nsec \<and> unat (file_sector v h cs (p div 512)) = unat (first_data_sector v) +
       (unat (cs ! (p div csize v)) - 2) * ?s + p div 512 mod ?s" if r: "\<not> root_flag h"
  proof -
    have s: "sectors_per_cluster v \<noteq> 0" "0 < ?s" using assms(1) r by (auto simp: placed_def unat_gt_0)
    have k: "p div csize v < length cs" "p div csize v = p div 512 div ?s"
      using place_arith [of p "length cs" ?s] assms(3) r s by (simp_all add: file_room_def csize_def)
    then have "cs ! (p div csize v) \<in> set cs" by simp
    then have f: "unat ?f = unat (first_data_sector v) + (unat (cs ! (p div csize v)) - 2) * ?s" "unat ?f + ?s \<le> nsec"
      using first_sector_nat [of "cs ! (p div csize v)" v nsec] assms(1,2) r s by (auto simp: placed_def)
    have l: "p div 512 mod ?s < ?s" using s by simp
    have "file_sector v h cs (p div 512) = ?f + of_nat (p div 512 mod ?s)" using r k by (simp add: file_sector_def)
    moreover have "unat (?f + of_nat (p div 512 mod ?s)) = unat ?f + p div 512 mod ?s"
      using f(2) l assms(2) by (subst unat_word_ariths(1)) (simp add: unat_of_nat)
    ultimately show ?thesis using f l by simp
  qed
  show "\<not> root_flag h \<Longrightarrow> unat (file_sector v h cs (p div 512)) = unat (first_data_sector v) +
       (unat (cs ! (p div csize v)) - 2) * ?s + p div 512 mod ?s" using nr by blast
  show "unat (file_sector v h cs (p div 512)) < nsec"
  proof (cases "root_flag h")
    case True
    have "p < unat (fsize h)" using assms(3) True by (simp add: file_room_def)
    then have "p div 512 < (unat (fsize h) + 511) div 512" by linarith
    then have l: "unat (first_cluster h) + p div 512 < nsec" using assms(1) True by (simp add: placed_def)
    then have "unat (first_cluster h + of_nat (p div 512)) = unat (first_cluster h) + p div 512"
      using assms(2) by (subst unat_word_ariths(1)) (simp add: unat_of_nat)
    with l True show ?thesis by (simp add: file_sector_def)
  qed (use nr in blast)
qed

text \<open>Where the sectors of a file go from one to the next.\<close>

lemma next_sector:
  assumes "placed nsec v h cs" "nsec < 2 ^ 32" "\<not> root_flag h" "Suc q * 512 \<le> file_room v h cs"
  shows "(file_sector v h cs q + 1) mod ucast (sectors_per_cluster v) - first_data_sector v mod ucast (sectors_per_cluster v) = (0 :: u32)
      \<longleftrightarrow> Suc q mod unat (sectors_per_cluster v) = 0"
    "Suc q mod unat (sectors_per_cluster v) \<noteq> 0 \<Longrightarrow> file_sector v h cs q + 1 = file_sector v h cs (Suc q)"
    "Suc q mod unat (sectors_per_cluster v) = 0 \<Longrightarrow> Suc q div unat (sectors_per_cluster v) < length cs \<Longrightarrow>
      file_sector v h cs (Suc q) = fat_first_sector_of_cluster v (cs ! (Suc q div unat (sectors_per_cluster v)))"
proof -
  let ?s = "unat (sectors_per_cluster v)" and ?d = "first_data_sector v" and ?x = "file_sector v h cs q"
  have s: "0 < ?s" using assms(1,3) by (simp add: placed_def unat_gt_0)
  have q: "q * 512 < file_room v h cs" "q * 512 div 512 = q" "q * 512 div csize v = q div ?s"
    using assms(4) by (simp_all add: csize_def div_mult2_eq [symmetric] mult.commute)
  note n = file_sector_nat [OF assms(1) less_imp_le [OF assms(2)] q(1), unfolded q(2,3)]
  have x: "unat ?x = unat ?d + (unat (cs ! (q div ?s)) - 2) * ?s + q mod ?s" by (rule n(2) [OF assms(3)])
  have x1: "unat (?x + 1) = Suc (unat ?x)" using n(1) assms(2) by (subst unat_word_ariths(1)) simp
  show "file_sector v h cs q + 1 = file_sector v h cs (Suc q)" if z: "Suc q mod ?s \<noteq> 0"
    using z s by (simp add: file_sector_def assms(3) mod_Suc div_Suc ac_simps split: if_splits)
  show "file_sector v h cs (Suc q) = fat_first_sector_of_cluster v (cs ! (Suc q div ?s))" if "Suc q mod ?s = 0"
    using that by (simp add: file_sector_def assms(3))
  show "(?x + 1) mod ucast (sectors_per_cluster v) - ?d mod ucast (sectors_per_cluster v) = 0 \<longleftrightarrow> Suc q mod ?s = 0"
  proof -
    have "(?x + 1) mod ucast (sectors_per_cluster v) - ?d mod ucast (sectors_per_cluster v) = 0 \<longleftrightarrow>
        Suc (unat ?x) mod ?s = unat ?d mod ?s"
      unfolding right_minus_eq unfolding word_unat_eq_iff unat_mod x1 by simp
    also have "\<dots> \<longleftrightarrow> ?s dvd (unat (cs ! (q div ?s)) - 2) * ?s + Suc (q mod ?s)"
      unfolding x by (subst mod_eq_dvd_iff_nat) simp_all
    also have "\<dots> \<longleftrightarrow> Suc q mod ?s = 0"
      by (simp add: dvd_add_right_iff mod_eq_0_iff_dvd [symmetric] mod_Suc)
    finally show ?thesis .
  qed
qed

lemma static_simps [simp]:
  "file_sector v (h\<lparr>position := a\<rparr>) = file_sector v h" "file_sector v (h\<lparr>cur_cluster := b\<rparr>) = file_sector v h"
  "file_room v (h\<lparr>position := a\<rparr>) = file_room v h" "file_room v (h\<lparr>cur_cluster := b\<rparr>) = file_room v h"
  "cluster_at v (h\<lparr>position := a\<rparr>) = cluster_at v h" "cluster_at v (h\<lparr>cur_cluster := b\<rparr>) = cluster_at v h"
  "file_byte v (h\<lparr>position := a\<rparr>) = file_byte v h" "file_byte v (h\<lparr>cur_cluster := b\<rparr>) = file_byte v h"
  "placed nsec v (h\<lparr>position := a\<rparr>) = placed nsec v h" "placed nsec v (h\<lparr>cur_cluster := b\<rparr>) = placed nsec v h"
  by (auto simp: file_sector_def file_room_def cluster_at_def file_byte_def placed_def fun_eq_iff)

lemma in_sector: "p mod 512 + j < 512 \<Longrightarrow> (p + j) div 512 = p div 512 \<and> (p + j) mod 512 = p mod 512 + (j :: nat)"
proof -
  assume a: "p mod 512 + j < 512"
  have "p + j = p div 512 * 512 + (p mod 512 + j)" by (simp add: div_mult_mod_eq [symmetric])
  then show ?thesis using a by (metis add.commute add.right_neutral div_less div_mult_self1 mod_less mod_mult_self1 zero_neq_numeral)
qed

text \<open>How many bytes a read of \<open>sz\<close> bytes returns: up to the size of the file, when it has one.\<close>

definition bytes_left :: "fat_file_handle \<Rightarrow> int \<Rightarrow> nat" where
  "bytes_left h sz = (if fsize h \<noteq> 0 then min (nat sz) (unat (fsize h) - unat (position h)) else nat sz)"

text \<open>Where \<open>fat_lseek\<close> goes.\<close>

definition seek_target :: "fat_file_handle \<Rightarrow> u32 \<Rightarrow> int \<Rightarrow> u32" where
  "seek_target h offset whence =
    (let q = (if whence = SEEK_CUR then offset + position h else if whence = SEEK_END then offset + fsize h else offset)
     in if fsize h \<noteq> 0 \<and> q > fsize h then fsize h else q)"

section \<open>Reading\<close>

lemma ftry_Some: "p s = Inr (Some x, s') \<Longrightarrow> fbind (ftry p) f s = f (Some x) s'"
  by (simp add: fbind_def ftry_def)

context block_dev
begin

lemma chain_view:
  assumes "chain (vol s) (table_byte (vol s) 0 (view s)) cs" "table_ok nsec (vol s)" "same_view s' s"
  shows "chain (vol s) (table_byte (vol s) 0 (view s')) cs"
proof -
  have "table_byte (vol s) 0 (view s') x = table_byte (vol s) 0 (view s) x" if x: "x < 512 * unat (fat_size (vol s))" for x
  proof -
    have "unat (table_sector (vol s) 0 (x div 512)) < nsec"
      by (rule table_sector_unat(2) [OF assms(2)]) (use assms(2) x in \<open>auto simp: table_ok_def word_less_nat_alt\<close>)
    then show ?thesis using assms(3) by (simp add: same_view_def same_sector_def table_byte_def)
  qed
  then have "valid_cluster (vol s) c \<Longrightarrow> entry_get (vtype (vol s)) (table_byte (vol s) 0 (view s')) (unat c) =
      entry_get (vtype (vol s)) (table_byte (vol s) 0 (view s)) (unat c)" for c
    by (rule entry_get_cong) (auto simp: valid_cluster_def)
  then show ?thesis using assms(1) by (simp add: chain_def)
qed

lemma file_byte_view:
  "\<lbrakk> placed nsec v h cs; nsec < 2 ^ 32; p < file_room v h cs; same_view s' s \<rbrakk> \<Longrightarrow>
   file_byte v h cs (view s') p = file_byte v h cs (view s) p"
  using file_sector_nat(1) [of nsec v h cs p] by (simp add: same_view_def same_sector_def file_byte_def)

text \<open>One round of the loop, up to the end of the sector or of the bytes asked for.\<close>

lemma read_chunk:
  assumes "cache_ok s" "placed nsec (vol s) h cs" "nsec < 2 ^ 32" "p + ch \<le> file_room (vol s) h cs" "p mod 512 + ch \<le> 512"
    "0 < ch" "sector = file_sector (vol s) h cs (p div 512)"
  obtains s' where "FAT_GET_SECTOR sector s = Inr (Some (), s')" "cache_ok s'" "same_view s' s" "vol s' = vol s"
    "map (sector_buf s') [p mod 512..<p mod 512 + ch] = map (file_byte (vol s) h cs (view s)) [p..<p + ch]"
proof -
  have n: "unat sector < nsec" using file_sector_nat(1) [OF assms(2) less_imp_le [OF assms(3)], of p] assms(4,6,7) by simp
  obtain s' where s': "FAT_GET_SECTOR sector s = Inr (Some (), s')" "cache_ok s'" "same_view s' s" "c_bldev s' = Some dev"
    "c_sector s' = sector" "vol s' = vol s"
    by (rule get_ok [OF assms(1) n])
  have "sector_buf s' (p mod 512 + j) = file_byte (vol s) h cs (view s) (p + j)" if j: "j < ch" for j
  proof -
    have d: "(p + j) div 512 = p div 512" "(p + j) mod 512 = p mod 512 + j"
      using in_sector [of p j] j assms(5) by simp_all
    have "sector_buf s' (p mod 512 + j) = view s' sector (p mod 512 + j)" using s'(4,5) by (simp add: view_def)
    also have "\<dots> = view s sector (p mod 512 + j)"
      using s'(3) n j assms(5) by (simp add: same_view_def same_sector_def)
    finally show ?thesis by (simp add: file_byte_def d assms(7))
  qed
  then have "map (sector_buf s') [p mod 512..<p mod 512 + ch] = map (file_byte (vol s) h cs (view s)) [p..<p + ch]"
    by (intro nth_equalityI) simp_all
  with that s' show thesis by blast
qed

text \<open>What the loop leaves: all the bytes asked for, and the handle at their end.\<close>

definition read_end :: "'w fs \<Rightarrow> u32 list \<Rightarrow> fat_file_handle \<Rightarrow> nat \<Rightarrow> fat_file_handle" where
  "read_end s cs h p = h\<lparr>position := of_nat p, cur_cluster := cluster_at (vol s) h cs p\<rparr>"

definition reads_to :: "'w fs \<Rightarrow> u32 list \<Rightarrow> fat_file_handle \<Rightarrow> nat \<Rightarrow> nat \<Rightarrow> int \<Rightarrow> u8 list \<Rightarrow>
    ((int \<times> u8 list \<times> fat_file_handle) option \<times> 'w fs) result \<Rightarrow> bool" where
  "reads_to s cs h p q sz data r \<longleftrightarrow> (\<exists>s'. r = Inr (Some (sz, data @ map (file_byte (vol s) h cs (view s)) [p..<q], read_end s cs h q), s') \<and>
     cache_ok s' \<and> same_view s' s \<and> vol s' = vol s)"

lemma reads_to_step:
  assumes "reads_to s' cs (h\<lparr>position := a, cur_cluster := b\<rparr>) p' q sz (data @ map (file_byte (vol s) h cs (view s)) [p..<p']) r"
    "same_view s' s" "vol s' = vol s" "p \<le> p'" "p' \<le> q" "q \<le> file_room (vol s) h cs" "placed nsec (vol s) h cs" "nsec < 2 ^ 32"
  shows "reads_to s cs h p q sz data r"
proof -
  have "map (file_byte (vol s) h cs (view s')) [p'..<q] = map (file_byte (vol s) h cs (view s)) [p'..<q]"
    using file_byte_view [OF assms(7,8) _ assms(2)] assms(6) by simp
  moreover have "[p..<q] = [p..<p'] @ [p'..<q]" using assms(4,5) by (metis le_add_diff_inverse upt_add_eq_append)
  ultimately show ?thesis using assms(1,2,3) same_view_trans unfolding reads_to_def read_end_def by fastforce
qed

declare fat_read_loop.simps [simp del]

text \<open>The rest of a round after the bytes of a sector, at position \<open>p\<close>.\<close>

definition read_on :: "nat \<Rightarrow> int \<Rightarrow> int \<Rightarrow> u32 \<Rightarrow> u8 list \<Rightarrow> fat_file_handle \<Rightarrow> 'w fat_vol_handle \<Rightarrow> nat \<Rightarrow>
    ('w, int \<times> u8 list \<times> fat_file_handle) io" where
  "read_on fuel i sz sector d h v p =
    (if p mod 512 \<noteq> 0 then fret (i, d, h)
     else if root_flag h then fat_read_loop fuel i sz (sector + 1) 0 d h
     else fbind (fguard Div_By_Zero (sectors_per_cluster v \<noteq> 0)) (\<lambda>_.
       if (sector + 1) mod ucast (sectors_per_cluster v) - first_data_sector v mod ucast (sectors_per_cluster v) = 0
       then fbind (fat_get_next_cluster (cur_cluster h)) (\<lambda>c.
         if c = fat_eoc v then fret (i, d, h\<lparr>cur_cluster := c\<rparr>)
         else fat_read_loop fuel i sz (fat_first_sector_of_cluster v c) 0 d (h\<lparr>cur_cluster := c\<rparr>))
       else fat_read_loop fuel i sz (sector + 1) 0 d h))"

lemma read_step:
  assumes "i < sz" "cache_ok s" "table_ok nsec (vol s)" "nsec < 2 ^ 32" "placed nsec (vol s) h cs" "unat (position h) = p"
    "p + nat (sz - i) \<le> file_room (vol s) h cs" "sector = file_sector (vol s) h cs (p div 512)" "unat offset = p mod 512"
    "ch = nat (min (512 - int (p mod 512)) (sz - i))" "d = data @ map (file_byte (vol s) h cs (view s)) [p..<p + ch]"
    "h1 = h\<lparr>position := of_nat (p + ch)\<rparr>"
  obtains s' where "cache_ok s'" "same_view s' s" "vol s' = vol s" "0 < ch" "p mod 512 + ch \<le> 512" "ch \<le> nat (sz - i)"
    "fat_read_loop (Suc fuel) i sz sector offset data h s = read_on fuel (i + int ch) sz sector d h1 (vol s) (p + ch) s'"
proof -
  have ch: "0 < ch" "p mod 512 + ch \<le> 512" "ch \<le> nat (sz - i)" using assms(1,10) by auto
  then have le: "p + ch \<le> file_room (vol s) h cs" using assms(7) by simp
  obtain s' where s': "FAT_GET_SECTOR sector s = Inr (Some (), s')" "cache_ok s'" "same_view s' s" "vol s' = vol s"
    "map (sector_buf s') [p mod 512..<p mod 512 + ch] = map (file_byte (vol s) h cs (view s)) [p..<p + ch]"
    by (rule read_chunk [OF assms(2,5,4) le ch(2,1) assms(8)])
  have bps: "bytes_per_sector (vol s) = 512" using assms(3) by (simp add: table_ok_def)
  have "uint offset = int (p mod 512)" unfolding uint_nat assms(9) ..
  then have chunk: "min (uint (bytes_per_sector (vol s)) - uint offset) (sz - i) = int ch" using ch(1) bps assms(10) by simp
  have "ch \<le> 512" using ch(2) by simp
  then have uch: "unat (of_nat ch :: u16) = ch" "uint (of_nat ch :: u16) = int ch" "(of_int (int ch) :: u16) = of_nat ch"
    "(ucast (of_nat ch :: u16) :: u32) = of_nat ch"
    by (simp_all add: unat_of_nat uint_nat unsigned_ucast_eq word_unat_eq_iff take_bit_eq_mod)
  have "p + ch < 2 ^ 32" using le assms(5) by (simp add: placed_def)
  then have pos: "unat (position h1) = p + ch" unfolding assms(12) by (simp add: unat_of_nat_u32 del: of_nat_add)
  have h1: "h\<lparr>position := position h + of_nat ch\<rparr> = h1" using assms(6,12) by auto
  have bound: "(position h1 mod ucast (bytes_per_sector (vol s)) \<noteq> 0) = ((p + ch) mod 512 \<noteq> 0)"
    unfolding bps word_unat_eq_iff unat_mod pos by simp
  show thesis
    by (rule that [OF s'(2-4) ch],
        unfold fat_read_loop.simps if_P [OF assms(1)] fbind_run(1) Let_def chunk uch
          ftry_Some [where p = "FAT_GET_SECTOR sector", OF s'(1)] assms(9) h1)
      (use ch(2) bound uch in \<open>simp add: s'(5) assms(11,12) read_on_def cong: if_cong\<close>)
qed

lemma cluster_at_sector:
  "\<not> root_flag h \<Longrightarrow> cluster_at v h cs x = (cs @ [fat_eoc v]) ! (x div 512 div unat (sectors_per_cluster v))"
  by (simp add: cluster_at_def csize_def div_mult2_eq mult.commute [of _ "512 :: nat"])

text \<open>The step from the last sector of a cluster to the next cluster of the chain.\<close>

lemma chain_next:
  assumes "cache_ok s" "table_ok nsec (vol s)" "placed nsec (vol s) h cs" "chain (vol s) (table_byte (vol s) 0 (view s)) cs"
    "\<not> root_flag h" "nsec < 2 ^ 32" "Suc k mod unat (sectors_per_cluster (vol s)) = 0" "Suc k * 512 \<le> file_room (vol s) h cs"
    "cur_cluster h = cluster_at (vol s) h cs p" "p div 512 = k"
  obtains u where "fat_get_next_cluster (cur_cluster h) s = Inr (Some (cluster_at (vol s) h cs (Suc k * 512)), u)"
    "cache_ok u" "same_view u s" "vol u = vol s"
    "cluster_at (vol s) h cs (Suc k * 512) = fat_eoc (vol s) \<Longrightarrow> file_room (vol s) h cs = Suc k * 512"
    "cluster_at (vol s) h cs (Suc k * 512) \<noteq> fat_eoc (vol s) \<Longrightarrow>
      file_sector (vol s) h cs (Suc k) = fat_first_sector_of_cluster (vol s) (cluster_at (vol s) h cs (Suc k * 512))"
proof -
  let ?v = "vol s" and ?s = "unat (sectors_per_cluster (vol s))"
  let ?j = "k div ?s"
  have s: "0 < ?s" using assms(3,5) by (simp add: placed_def unat_gt_0)
  have j: "Suc k div ?s = Suc ?j" using assms(7) by (simp add: div_Suc)
  have at: "cluster_at ?v h cs (Suc k * 512) = (cs @ [fat_eoc ?v]) ! Suc ?j" by (simp add: cluster_at_sector [OF assms(5)] j)
  have "Suc ?j * (?s * 512) = Suc k * 512" using assms(7) j by (metis mod_0_imp_dvd dvd_div_mult_self mult.assoc)
  then have pk: "Suc k * 512 = Suc ?j * csize ?v" by (simp only: csize_def)
  have room: "file_room ?v h cs = length cs * csize ?v" using assms(5) by (simp add: file_room_def)
  have "0 < csize ?v" using s by (simp add: csize_def)
  then have jl: "Suc ?j \<le> length cs" using assms(8) unfolding pk room by (metis mult_le_cancel2)
  then have c: "cur_cluster h = cs ! ?j" using assms(9,10) cluster_at_sector [OF assms(5), of ?v cs p] by (simp add: nth_append)
  have ok: "valid_cluster ?v (cs ! ?j)" "entry_get (vtype ?v) (table_byte ?v 0 (view s)) (unat (cs ! ?j)) = cluster_at ?v h cs (Suc k * 512)"
    using assms(4) jl at by (auto simp: chain_def)
  obtain u where u: "fat_get_next_cluster (cur_cluster h) s = Inr (Some (cluster_at ?v h cs (Suc k * 512)), u)"
    "cache_ok u" "same_view u s" "vol u = ?v"
    using get_next_ok [OF assms(1,2) ok(1)] ok(2) unfolding c by metis
  show thesis
  proof (rule that [OF u])
    assume e: "cluster_at ?v h cs (Suc k * 512) = fat_eoc ?v"
    have "\<not> Suc ?j < length cs" using assms(4) e at by (auto simp: chain_def nth_append)
    then show "file_room ?v h cs = Suc k * 512" using jl unfolding pk room by simp
  next
    assume ne: "cluster_at ?v h cs (Suc k * 512) \<noteq> fat_eoc ?v"
    then have "Suc ?j < length cs" using at jl by (cases "Suc ?j = length cs") (auto simp: nth_append)
    then show "file_sector ?v h cs (Suc k) = fat_first_sector_of_cluster ?v (cluster_at ?v h cs (Suc k * 512))"
      using next_sector(3) [OF assms(3,6,5,8,7)] at by (simp add: j nth_append)
  qed
qed

text \<open>One round of the loop: it returns, or goes on with the sector that comes next.\<close>

lemma read_round:
  assumes "i < sz" "cache_ok s" "table_ok nsec (vol s)" "nsec < 2 ^ 32" "placed nsec (vol s) h cs" "unat (position h) = p"
    "p + nat (sz - i) \<le> file_room (vol s) h cs" "sector = file_sector (vol s) h cs (p div 512)" "unat offset = p mod 512"
    "root_flag h \<or> chain (vol s) (table_byte (vol s) 0 (view s)) cs" "cur_cluster h = cluster_at (vol s) h cs p"
  obtains ch u t stop where "cache_ok u" "same_view u s" "vol u = vol s" "0 < ch" "ch \<le> nat (sz - i)"
    "fat_read_loop (Suc fuel) i sz sector offset data h s =
       (if stop then fret (i + int ch, data @ map (file_byte (vol s) h cs (view s)) [p..<p + ch], read_end s cs h (p + ch)) u
        else fat_read_loop fuel (i + int ch) sz t 0 (data @ map (file_byte (vol s) h cs (view s)) [p..<p + ch])
          (read_end s cs h (p + ch)) u)"
    "stop \<Longrightarrow> i + int ch = sz" "\<not> stop \<Longrightarrow> (p + ch) mod 512 = 0"
    "\<not> stop \<Longrightarrow> i + int ch < sz \<Longrightarrow> t = file_sector (vol s) h cs ((p + ch) div 512)"
proof -
  let ?k = "p div 512" and ?s = "unat (sectors_per_cluster (vol s))"
  obtain ch where ch_eq: "ch = nat (min (512 - int (p mod 512)) (sz - i))" by blast
  let ?h1 = "h\<lparr>position := of_nat (p + ch)\<rparr>" and ?at = "cluster_at (vol s) h cs (p + ch)"
  obtain s' where s': "cache_ok s'" "same_view s' s" "vol s' = vol s" and ch: "0 < ch" "p mod 512 + ch \<le> 512" "ch \<le> nat (sz - i)"
    and step: "fat_read_loop (Suc fuel) i sz sector offset data h s =
      read_on fuel (i + int ch) sz sector (data @ map (file_byte (vol s) h cs (view s)) [p..<p + ch]) ?h1 (vol s) (p + ch) s'"
    by (rule read_step [OF assms(1-9) ch_eq refl refl, where data = data and fuel = fuel])
  note step = step [unfolded read_on_def]
  have stay: "read_end s cs h (p + ch) = ?h1" if "?at = cur_cluster h" using that by (cases h) (simp add: read_end_def)
  have sz: "int ch \<le> sz - i" using ch(1,3) by simp
  consider (part) "(p + ch) mod 512 \<noteq> 0" "p mod 512 + ch < 512" | (full) "p + ch = Suc ?k * 512"
  proof (cases "p mod 512 + ch = 512")
    case True
    then show ?thesis using full div_mult_mod_eq [of p 512] unfolding mult_Suc by linarith
  next
    case False
    then show ?thesis using part in_sector [of p ch] ch(1,2) by simp
  qed
  then show thesis
  proof cases
    case part
    have at: "?at = cur_cluster h"
      using in_sector [OF part(2)] cluster_at_sector [of h "vol s" cs] assms(11) by (cases "root_flag h") (simp_all add: cluster_at_def)
    moreover have "i + int ch = sz" using part(2) assms(1) by (simp add: ch_eq)
    ultimately show thesis using that [OF s' ch(1,3), of True] part(1) stay [OF at] step by simp
  next
    case full
    then have z: "(p + ch) mod 512 = 0" and dk: "(p + ch) div 512 = Suc ?k" by simp_all
    show thesis
    proof (cases "root_flag h")
      case True
      then have at: "?at = cur_cluster h" using assms(11) by (simp add: cluster_at_def)
      have "sector + 1 = file_sector (vol s) h cs (Suc ?k)" using True by (simp add: assms(8) file_sector_def)
      then show thesis using that [OF s' ch(1,3), of False "sector + 1"] z True stay [OF at] step dk by simp
    next
      case r: False
      have spc: "sectors_per_cluster (vol s) \<noteq> 0" using assms(5) r by (simp add: placed_def)
      have le: "Suc ?k * 512 \<le> file_room (vol s) h cs" using full assms(7) ch(3) by simp
      note nx = next_sector [OF assms(5,4) r le]
      show thesis
      proof (cases "Suc ?k mod ?s = 0")
        case False
        then have at: "?at = cur_cluster h"
          using assms(11) spc by (simp add: cluster_at_sector [OF r] dk div_Suc unat_gt_0)
        show thesis using that [OF s' ch(1,3), of False "sector + 1"] z r stay [OF at] step nx(1,2) False spc
          by (simp add: assms(8) dk)
      next
        case True
        have c': "root_flag h \<or> chain (vol s') (table_byte (vol s') 0 (view s')) cs"
          using assms(10) chain_view [OF _ assms(3) s'(2)] s'(3) by auto
        obtain u where u: "fat_get_next_cluster (cur_cluster h) s' = Inr (Some ?at, u)" "cache_ok u" "same_view u s'" "vol u = vol s"
          "?at = fat_eoc (vol s) \<Longrightarrow> file_room (vol s) h cs = p + ch"
          "?at \<noteq> fat_eoc (vol s) \<Longrightarrow> file_sector (vol s) h cs (Suc ?k) = fat_first_sector_of_cluster (vol s) ?at"
          using chain_next [of s' h cs ?k p] s'(1,3) assms(3-5,11) c' r le True unfolding full by auto
        have loop: "fat_read_loop (Suc fuel) i sz sector offset data h s =
            (if ?at = fat_eoc (vol s)
             then fret (i + int ch, data @ map (file_byte (vol s) h cs (view s)) [p..<p + ch], read_end s cs h (p + ch)) u
             else fat_read_loop fuel (i + int ch) sz (fat_first_sector_of_cluster (vol s) ?at) 0
               (data @ map (file_byte (vol s) h cs (view s)) [p..<p + ch]) (read_end s cs h (p + ch)) u)"
          using step z r nx(1) True spc
          by (simp add: assms(8) read_end_def fbind_Some [where p = "fat_get_next_cluster (cur_cluster h)", OF u(1)])
        show thesis
        proof (rule that [OF u(2) same_view_trans [OF u(3) s'(2)] u(4) ch(1,3) loop])
          show "?at = fat_eoc (vol s) \<Longrightarrow> i + int ch = sz" using u(5) assms(7) ch(3) sz by simp
        qed (use z u(6) dk in simp_all)
      qed
    qed
  qed
qed

lemma read_loop_ok:
  "\<lbrakk> nat (sz - i) < fuel; 0 \<le> i; i \<le> sz; cache_ok s; table_ok nsec (vol s); nsec < 2 ^ 32; placed nsec (vol s) h cs;
     root_flag h \<or> chain (vol s) (table_byte (vol s) 0 (view s)) cs; unat (position h) = p; p + nat (sz - i) = q;
     q \<le> file_room (vol s) h cs; cur_cluster h = cluster_at (vol s) h cs p;
     i < sz \<longrightarrow> sector = file_sector (vol s) h cs (p div 512) \<and> unat offset = p mod 512 \<rbrakk> \<Longrightarrow>
   reads_to s cs h p q sz data (fat_read_loop fuel i sz sector offset data h s)"
proof (induction fuel arbitrary: i s sector offset data h p)
  case (Suc fuel)
  show ?case
  proof (cases "i < sz")
    case False
    then have "q = p" "i = sz" using Suc.prems by simp_all
    moreover have "read_end s cs h p = h" using Suc.prems(9,12) by (cases h) (auto simp: read_end_def)
    ultimately show ?thesis using Suc.prems(4) False by (auto simp: reads_to_def fat_read_loop.simps)
  next
    case True
    then have so: "sector = file_sector (vol s) h cs (p div 512)" "unat offset = p mod 512" using Suc.prems(13) by simp_all
    have room: "p + nat (sz - i) \<le> file_room (vol s) h cs" using Suc.prems(10,11) by simp
    show ?thesis
    proof (rule read_round [OF True Suc.prems(4-7,9) room so Suc.prems(8,12), where data = data and fuel = fuel])
      fix ch u t stop
      assume u: "cache_ok u" "same_view u s" "vol u = vol s" and ch: "0 < ch" "ch \<le> nat (sz - i)"
        and r: "fat_read_loop (Suc fuel) i sz sector offset data h s =
         (if stop then fret (i + int ch, data @ map (file_byte (vol s) h cs (view s)) [p..<p + ch], read_end s cs h (p + ch)) u
          else fat_read_loop fuel (i + int ch) sz t 0 (data @ map (file_byte (vol s) h cs (view s)) [p..<p + ch])
            (read_end s cs h (p + ch)) u)"
        and st: "stop \<Longrightarrow> i + int ch = sz" "\<not> stop \<Longrightarrow> (p + ch) mod 512 = 0"
          "\<not> stop \<Longrightarrow> i + int ch < sz \<Longrightarrow> t = file_sector (vol s) h cs ((p + ch) div 512)"
      show ?thesis
      proof (cases stop)
        case True
        then have "p + ch = q" using st(1) Suc.prems(10) by simp
        then show ?thesis using r True st(1) u by (auto simp: reads_to_def)
      next
        case False
        let ?h = "h\<lparr>position := of_nat (p + ch), cur_cluster := cluster_at (vol s) h cs (p + ch)\<rparr>"
        have q: "p + ch + nat (sz - (i + int ch)) = q" "p + ch \<le> q" using Suc.prems(10) ch by simp_all
        have "q < 2 ^ 32" using Suc.prems(7,11) by (simp add: placed_def)
        then have pos: "unat (position ?h) = p + ch" using q(2) by (simp add: unat_of_nat_u32 del: of_nat_add)
        have c: "root_flag ?h \<or> chain (vol u) (table_byte (vol u) 0 (view u)) cs"
          using Suc.prems(8) chain_view [OF _ Suc.prems(5) u(2)] u(3) by auto
        have "reads_to u cs ?h (p + ch) q sz (data @ map (file_byte (vol s) h cs (view s)) [p..<p + ch])
            (fat_read_loop fuel (i + int ch) sz t 0 (data @ map (file_byte (vol s) h cs (view s)) [p..<p + ch]) ?h u)"
          by (rule Suc.IH [OF _ _ _ u(1) _ Suc.prems(6) _ c pos q(1)]) (use st(2,3) False u(3) ch Suc.prems in simp_all)
        from reads_to_step [OF this u(2,3) _ q(2) Suc.prems(11,7,6)] r False show ?thesis
          by (simp add: read_end_def)
      qed
    qed
  qed
qed simp

lemma sector_offset_ok:
  assumes "bytes_per_sector v = 512" "placed nsec v h cs" "unat (position h) = p" "cur_cluster h = cluster_at v h cs p"
  obtains sector offset where "fat_file_sector_offset v h = Inr (sector, offset)" "unat offset = p mod 512"
    "p < file_room v h cs \<Longrightarrow> sector = file_sector v h cs (p div 512)"
proof -
  have off: "unat (ucast (position h mod 512) :: u16) = p mod 512"
    using assms(3) by (simp add: unat_mod unsigned_ucast_eq take_bit_eq_mod)
  have "p < 2 ^ 32" using unsigned_less [where 'a = nat, of "position h"] assms(3) by simp
  then have small: "p div 512 < 2 ^ 32" by simp
  have d: "position h div 512 = of_nat (p div 512)"
    unfolding word_unat_eq_iff unat_div unat_of_nat_u32 [OF small] using assms(3) by simp
  show thesis
  proof (cases "root_flag h")
    case True
    then show thesis using that off assms(1,4) by (simp add: fat_file_sector_offset_def file_sector_def cluster_at_def d)
  next
    case False
    let ?s = "unat (sectors_per_cluster v)"
    have spc: "sectors_per_cluster v \<noteq> 0" "0 < ?s" using assms(2) False by (simp_all add: placed_def unat_gt_0)
    have m: "position h div 512 mod ucast (sectors_per_cluster v) = of_nat (p div 512 mod ?s)"
    proof -
      have "p div 512 mod ?s < 2 ^ 32" using small mod_less_eq_dividend [of "p div 512" ?s] by linarith
      then show ?thesis unfolding d word_unat_eq_iff unat_mod unat_of_nat_u32 [OF small] by (simp add: unat_of_nat_u32)
    qed
    have "cur_cluster h = cs ! (p div 512 div ?s)" if "p < file_room v h cs"
      using that place_arith [of p "length cs" ?s] False spc assms(4)
      by (simp add: cluster_at_def file_room_def csize_def nth_append)
    then show thesis using that off assms(1) spc False by (simp add: fat_file_sector_offset_def file_sector_def m)
  qed
qed

lemma fat_read_ok:
  assumes "cache_ok s" "table_ok nsec (vol s)" "nsec < 2 ^ 32" "placed nsec (vol s) h cs"
    "root_flag h \<or> chain (vol s) (table_byte (vol s) 0 (view s)) cs" "cur_cluster h = cluster_at (vol s) h cs (unat (position h))"
    "0 \<le> sz" "sz < 2 ^ 31" "unat (position h) + nat sz < 2 ^ 32"
    "unat (position h) + bytes_left h sz \<le> file_room (vol s) h cs" "fsize h = 0 \<or> position h \<le> fsize h"
  shows "reads_to s cs h (unat (position h)) (unat (position h) + bytes_left h sz) (int (bytes_left h sz)) [] (fat_read h sz s)"
proof -
  let ?p = "unat (position h)" and ?n = "bytes_left h sz"
  have bps: "bytes_per_sector (vol s) = 512" using assms(2) by (simp add: table_ok_def)
  obtain sector offset where so: "fat_file_sector_offset (vol s) h = Inr (sector, offset)" "unat offset = ?p mod 512"
    "?p < file_room (vol s) h cs \<Longrightarrow> sector = file_sector (vol s) h cs (?p div 512)"
    using sector_offset_ok [OF bps assms(4) refl assms(6)] by blast
  have sum: "unat (position h + of_int sz) = ?p + nat sz"
  proof -
    have "(of_int sz :: u32) = of_nat (nat sz)" using assms(7) by simp
    then show ?thesis using assms(8,9) by (subst unat_word_ariths(1)) (simp add: unat_of_nat)
  qed
  have left: "(if fsize h \<noteq> 0 \<and> position h + of_int sz > fsize h then sint (fsize h - position h) else sz) = int ?n"
  proof (cases "fsize h \<noteq> 0 \<and> position h + of_int sz > fsize h")
    case True
    then have lt: "position h \<le> fsize h" "unat (fsize h) < ?p + nat sz" using assms(11) sum by (auto simp: word_less_nat_alt)
    then have "unat (fsize h - position h) = unat (fsize h) - ?p" by (simp add: unat_sub)
    moreover have "unat (fsize h) - ?p < 2 ^ 31" using lt(2) assms(8) by simp
    ultimately have "sint (fsize h - position h) = int (unat (fsize h) - ?p)"
      by (simp add: sint_uint uint_nat signed_take_bit_int_eq_self)
    then show ?thesis using True lt by (simp add: bytes_left_def)
  next
    case False
    then show ?thesis using sum assms(7) by (auto simp: bytes_left_def word_less_nat_alt)
  qed
  have "reads_to s cs h ?p (?p + ?n) (int ?n) [] (fat_read_loop (Suc (nat (int ?n))) 0 (int ?n) sector offset [] h s)"
    by (rule read_loop_ok [OF _ _ _ assms(1-5) refl _ assms(10,6)]) (use so(2,3) assms(10) in auto)
  then show ?thesis unfolding fat_read_def fbind_run so(1) prod.case Let_def left by simp
qed

section \<open>Seeking\<close>

lemma cluster_bytes_csize: "bytes_per_sector v = 512 \<Longrightarrow> unat (cluster_bytes v) = csize v"
  using unat_u8_less [of "sectors_per_cluster v"]
  by (simp add: cluster_bytes_def csize_def unat_word_ariths(2))

lemma seek_loop_ok:
  "\<lbrakk> cache_ok s; table_ok nsec (vol s); chain (vol s) (table_byte (vol s) 0 (view s)) cs; 0 < csize (vol s);
     unat cb = csize (vol s); c = (cs @ [fat_eoc (vol s)]) ! j; j * csize (vol s) + unat offset \<le> length cs * csize (vol s);
     unat offset \<le> fuel \<rbrakk> \<Longrightarrow>
   \<exists>s'. seek_loop fuel cb offset c s = Inr (Some ((cs @ [fat_eoc (vol s)]) ! (j + unat offset div csize (vol s))), s') \<and>
     cache_ok s' \<and> same_view s' s \<and> vol s' = vol s"
proof (induction fuel arbitrary: s offset c j)
  case 0
  then show ?case by (auto simp: word_le_nat_alt)
next
  case (Suc fuel)
  let ?z = "csize (vol s)"
  show ?case
  proof (cases "cb \<le> offset")
    case False
    then show ?thesis using Suc.prems by (auto simp: word_le_nat_alt)
  next
    case True
    then have le: "?z \<le> unat offset" using Suc.prems(5) by (simp add: word_le_nat_alt)
    then have "j * ?z < length cs * ?z" using Suc.prems(4,7) by linarith
    then have j: "j < length cs" by simp
    obtain u where u: "fat_get_next_cluster c s = Inr (Some ((cs @ [fat_eoc (vol s)]) ! Suc j), u)" "cache_ok u" "same_view u s" "vol u = vol s"
      using get_next_ok [OF Suc.prems(1,2), of "cs ! j"] Suc.prems(3,6) j by (auto simp: chain_def nth_append)
    have o: "unat (offset - cb) = unat offset - ?z" using True Suc.prems(5) by (simp add: unat_sub)
    have fl: "unat offset - ?z \<le> fuel" using Suc.prems(4,8) le by linarith
    have ch: "chain (vol u) (table_byte (vol u) 0 (view u)) cs" using chain_view [OF Suc.prems(3,2) u(3)] u(4) by simp
    obtain s' where s': "seek_loop fuel cb (offset - cb) ((cs @ [fat_eoc (vol s)]) ! Suc j) u =
        Inr (Some ((cs @ [fat_eoc (vol s)]) ! (Suc j + (unat offset - ?z) div ?z)), s')" "cache_ok s'" "same_view s' u" "vol s' = vol u"
      using Suc.IH [OF u(2) _ ch, where c = "(cs @ [fat_eoc (vol s)]) ! Suc j" and j = "Suc j" and offset = "offset - cb"] Suc.prems le fl u(4) by (auto simp: o)
    have "Suc j + (unat offset - ?z) div ?z = j + unat offset div ?z" using le Suc.prems(4) by (simp add: le_div_geq)
    note s1 = s'(1) [unfolded this]
    show ?thesis using True s1 s'(2,4) u(1,4) same_view_trans [OF s'(3) u(3)] by (auto simp: fbind_def)
  qed
qed

lemma lseek_unfold:
  assumes "whence \<in> {SEEK_SET, SEEK_CUR, SEEK_END}"
  shows "fat_lseek h offset whence s =
    (let q = seek_target h offset whence in
     if root_flag h then fret (q, h\<lparr>position := q, cur_cluster := first_cluster h\<rparr>) s
     else fbind (seek_loop (unat q) (cluster_bytes (vol s)) q (first_cluster h))
        (\<lambda>c. fret (q, h\<lparr>position := q, cur_cluster := c\<rparr>)) s)"
proof -
  have "\<not> (whence \<noteq> SEEK_SET \<and> whence \<noteq> SEEK_CUR \<and> whence \<noteq> SEEK_END)" using assms by blast
  then show ?thesis unfolding fat_lseek_def seek_target_def Let_def by (simp only: if_False) simp
qed

lemma lseek_ok:
  assumes "cache_ok s" "table_ok nsec (vol s)" "placed nsec (vol s) h cs"
    "root_flag h \<or> chain (vol s) (table_byte (vol s) 0 (view s)) cs"
    "whence \<in> {SEEK_SET, SEEK_CUR, SEEK_END}" "seek_target h offset whence = q" "unat q \<le> file_room (vol s) h cs"
  shows "\<exists>s'. fat_lseek h offset whence s = Inr (Some (q, read_end s cs h (unat q)), s') \<and>
     cache_ok s' \<and> same_view s' s \<and> vol s' = vol s"
proof (cases "root_flag h")
  case True
  then show ?thesis unfolding lseek_unfold [OF assms(5)] assms(6)
    using assms(1) by (simp add: read_end_def cluster_at_def)
next
  case False
  have bps: "bytes_per_sector (vol s) = 512" using assms(2) by (simp add: table_ok_def)
  have z: "0 < csize (vol s)" "first_cluster h = (cs @ [fat_eoc (vol s)]) ! 0"
    using assms(3) False by (auto simp: placed_def csize_def unat_gt_0 nth_append)
  obtain s' where s': "seek_loop (unat q) (cluster_bytes (vol s)) q (first_cluster h) s =
      Inr (Some (cluster_at (vol s) h cs (unat q)), s')" "cache_ok s'" "same_view s' s" "vol s' = vol s"
    using seek_loop_ok [OF assms(1,2) _ z(1) cluster_bytes_csize [OF bps] z(2), of q "unat q"] assms(4,7) False
    by (auto simp: cluster_at_def file_room_def)
  have "fat_lseek h offset whence s =
      fbind (seek_loop (unat q) (cluster_bytes (vol s)) q (first_cluster h))
        (\<lambda>c. fret (q, h\<lparr>position := q, cur_cluster := c\<rparr>)) s"
    unfolding lseek_unfold [OF assms(5)] assms(6) using False by simp
  then show ?thesis using s' by (simp add: fbind_def read_end_def)
qed

end

section \<open>The file system on the ramdisk\<close>

text \<open>
  C7: \<open>fat_read\<close> returns, and puts into the buffer, the bytes of the file from the position of the
  handle on, as the file system sees them: as many as were asked for, up to the size of the file,
  over the ends of sectors and of clusters, which are found through the allocation table; the root
  area of FAT12 and FAT16 is read in the same way. The handle moves to the end of these bytes, and
  nothing that can be seen changes.
\<close>

theorem fat_read_reads_file:
  assumes "rd_ok addr base s" and "table_ok rd_sectors (vol s)" and "placed rd_sectors (vol s) h cs"
    and "root_flag h \<or> chain (vol s) (rd_table base 0 s) cs"
    and "cur_cluster h = cluster_at (vol s) h cs (unat (position h))"
    and "0 \<le> sz" and "sz < 2 ^ 31" and "unat (position h) + nat sz < 2 ^ 32"
    and "unat (position h) + bytes_left h sz \<le> file_room (vol s) h cs" and "fsize h = 0 \<or> position h \<le> fsize h"
  shows "\<exists>s'. fat_read h sz s = Inr (Some (int (bytes_left h sz),
      map (file_byte (vol s) h cs (rd_view base s)) [unat (position h)..<unat (position h) + bytes_left h sz],
      h\<lparr>position := position h + of_nat (bytes_left h sz),
        cur_cluster := cluster_at (vol s) h cs (unat (position h) + bytes_left h sz)\<rparr>), s') \<and>
    rd_ok addr base s' \<and> vol s' = vol s \<and>
    (\<forall>n. unat n < rd_sectors \<longrightarrow> same_sector (rd_view base s' n) (rd_view base s n))"
proof -
  have "rd_sectors < 2 ^ 32" by (simp add: rd_sectors_def)
  from ramdisk.fat_read_ok [OF assms(1,2) this assms(3-10)] show ?thesis
    by (auto simp: ramdisk.reads_to_def ramdisk.read_end_def ramdisk.same_view_def)
qed

text \<open>
  C10: \<open>fat_lseek\<close> with one of the three modes goes to the position asked for, or to the size of a
  file that has one, and sets the current cluster to the one that holds this position: what
  \<open>fat_read\<close> needs of a handle. Nothing that can be seen changes.
\<close>

theorem fat_lseek_moves:
  assumes "rd_ok addr base s" and "table_ok rd_sectors (vol s)" and "placed rd_sectors (vol s) h cs"
    and "root_flag h \<or> chain (vol s) (rd_table base 0 s) cs"
    and "whence \<in> {SEEK_SET, SEEK_CUR, SEEK_END}" and "unat (seek_target h offset whence) \<le> file_room (vol s) h cs"
  shows "\<exists>h' s'. fat_lseek h offset whence s = Inr (Some (seek_target h offset whence, h'), s') \<and>
    h' = h\<lparr>position := seek_target h offset whence, cur_cluster := cur_cluster h'\<rparr> \<and>
    cur_cluster h' = cluster_at (vol s) h' cs (unat (position h')) \<and>
    rd_ok addr base s' \<and> vol s' = vol s \<and>
    (\<forall>n. unat n < rd_sectors \<longrightarrow> same_sector (rd_view base s' n) (rd_view base s n))"
  using ramdisk.lseek_ok [OF assms(1-5) refl assms(6)]
  by (auto simp: ramdisk.read_end_def ramdisk.same_view_def)

text \<open>
  A floppy with a file of 600 bytes in clusters 2 and 3, sectors 33 and 34; its byte 512 is \<open>A\<close>.
\<close>

definition two_clusters :: "bytes fs" where
  "two_clusters = floppy_fs\<lparr>world := (\<lambda>_. 0)(0x82200000 + 515 := 3, 0x82200000 + 516 := 0x80, 0x82200000 + 517 := 0xFF,
     0x82200000 + 34 * 512 := 0x41)\<rparr>"

definition two_cluster_file :: fat_file_handle where
  "two_cluster_file = zero_file\<lparr>fsize := 600, first_cluster := 2, cur_cluster := 2, position := 500\<rparr>"

lemma two_clusters_vol: "vol two_clusters = floppy_vol"
  by (simp add: two_clusters_def floppy_fs_def)

lemma floppy_vol_simps: "csize floppy_vol = 512" "vtype floppy_vol = FAT_TYPE_FAT12" "fat_eoc floppy_vol = 0xFF8"
  "unat (sectors_per_cluster floppy_vol) = 1" "table_ok rd_sectors floppy_vol"
  by (simp_all add: floppy_vol_def zero_vol_def csize_def fat_eoc_def table_ok_def rd_sectors_def)

lemma two_clusters_ok: "rd_ok 4096 0x82200000 two_clusters"
  by (simp add: ramdisk.cache_ok_def two_clusters_def floppy_fs_def floppy_vol_def zero_vol_def)

lemma two_clusters_placed: "placed rd_sectors floppy_vol two_cluster_file [2, 3]"
  by (simp add: placed_def two_cluster_file_def file_room_def csize_def rd_sectors_def zero_file_def floppy_vol_def zero_vol_def)

lemma two_clusters_view: "rd_view 0x82200000 two_clusters n i = world two_clusters (0x82200000 + of_nat (unat n * 512 + i))"
  by (simp add: ramdisk.view_def ramdisk_content_def two_clusters_def floppy_fs_def)

lemma two_clusters_chain: "chain floppy_vol (rd_table 0x82200000 0 two_clusters) [2, 3]"
proof -
  have F: "rd_table 0x82200000 0 two_clusters 3 = 3" "rd_table 0x82200000 0 two_clusters 4 = 0x80" "rd_table 0x82200000 0 two_clusters 5 = 0xFF"
    unfolding table_byte_def two_clusters_view
    by (simp_all add: table_sector_def floppy_vol_def two_clusters_def floppy_fs_def)
  have "entry_get FAT_TYPE_FAT12 (rd_table 0x82200000 0 two_clusters) 2 = 3"
    "entry_get FAT_TYPE_FAT12 (rd_table 0x82200000 0 two_clusters) 3 = 0xFF8"
    by (simp_all add: entry_get_def entry_off_def get_le16_def F)
  then show ?thesis
    by (auto simp: chain_def floppy_vol_simps less_Suc_eq)
      (simp_all add: valid_cluster_def floppy_vol_def zero_vol_def entry_off_def entry_len_def)
qed

theorem fat_read_reads_file_witness:
  "\<exists>data h' s'. fat_read two_cluster_file 200 two_clusters = Inr (Some (100, data, h'), s') \<and> data ! 12 = 0x41 \<and> cur_cluster h' = 3"
proof -
  have c: "root_flag two_cluster_file \<or> chain (vol two_clusters) (rd_table 0x82200000 0 two_clusters) [2, 3]"
    using two_clusters_chain by (simp add: two_clusters_vol)
  have left: "bytes_left two_cluster_file 200 = 100" by (simp add: bytes_left_def two_cluster_file_def zero_file_def)
  have p: "unat (position two_cluster_file) = 500" by (simp add: two_cluster_file_def)
  have at: "cluster_at floppy_vol two_cluster_file [2, 3] 500 = 2" "cluster_at floppy_vol two_cluster_file [2, 3] 600 = 3"
    by (simp_all add: cluster_at_def floppy_vol_simps two_cluster_file_def zero_file_def)
  have byte: "file_byte floppy_vol two_cluster_file [2, 3] (rd_view 0x82200000 two_clusters) 512 = 0x41"
    unfolding file_byte_def two_clusters_view
    by (simp add: file_sector_def floppy_vol_simps two_cluster_file_def zero_file_def fat_first_sector_of_cluster_def)
      (simp add: floppy_vol_def two_clusters_def)
  have "file_room floppy_vol two_cluster_file [2, 3] = 1024" "fsize two_cluster_file = 600" "cur_cluster two_cluster_file = 2"
    "position two_cluster_file = 500"
    by (simp_all add: file_room_def floppy_vol_simps two_cluster_file_def zero_file_def)
  from fat_read_reads_file [OF two_clusters_ok, of two_cluster_file "[2, 3]" 200, unfolded two_clusters_vol left p, OF floppy_vol_simps(5)
      two_clusters_placed c [unfolded two_clusters_vol]] this at byte
  show ?thesis by (auto simp: nth_map)
qed

theorem fat_lseek_moves_witness:
  "\<exists>h' s'. fat_lseek two_cluster_file 50 SEEK_CUR two_clusters = Inr (Some (550, h'), s') \<and> cur_cluster h' = 3"
proof -
  have c: "root_flag two_cluster_file \<or> chain (vol two_clusters) (rd_table 0x82200000 0 two_clusters) [2, 3]"
    using two_clusters_chain by (simp add: two_clusters_vol)
  have t: "seek_target two_cluster_file 50 SEEK_CUR = 550"
    by (simp add: seek_target_def two_cluster_file_def zero_file_def SEEK_CUR_def SEEK_END_def)
  have room: "file_room floppy_vol two_cluster_file [2, 3] = 1024"
    by (simp add: file_room_def floppy_vol_simps two_cluster_file_def zero_file_def)
  from fat_lseek_moves [OF two_clusters_ok, of two_cluster_file "[2, 3]" SEEK_CUR 50, unfolded two_clusters_vol t, OF floppy_vol_simps(5)
      two_clusters_placed c [unfolded two_clusters_vol]]
  obtain h' s' where h: "fat_lseek two_cluster_file 50 SEEK_CUR two_clusters = Inr (Some (550, h'), s')"
    "h' = two_cluster_file\<lparr>position := 550, cur_cluster := cur_cluster h'\<rparr>" "cur_cluster h' = cluster_at floppy_vol h' [2, 3] (unat (position h'))"
    by (auto simp: room)
  have "\<not> root_flag h' \<and> unat (position h') = 550" by (subst (1 2) h(2)) (simp add: two_cluster_file_def zero_file_def)
  with h(3) have "cur_cluster h' = 3" by (simp add: cluster_at_def floppy_vol_simps)
  with h(1) show ?thesis by blast
qed

end
