(* ===== verification/Fat_Chain.thy ===== *)
theory Fat_Chain
  imports Fat_Read
begin

text \<open>
  Cluster chains on the ramdisk as lists: a new cluster is free before it is linked, linking it
  makes the chain one longer, unlinking a chain frees its clusters and no other, in every copy of
  the allocation table.
\<close>

section \<open>Entries as the file system sees them\<close>

definition entry_of :: "'w fat_vol_handle \<Rightarrow> (u32 \<Rightarrow> sector) \<Rightarrow> nat \<Rightarrow> u32 \<Rightarrow> u32" where
  "entry_of v V i c = entry_get (vtype v) (table_byte v i V) (unat c)"

text \<open>Every entry of every copy becomes \<open>g\<close> of the cluster and the entry.\<close>

definition entries_become :: "'w fat_vol_handle \<Rightarrow> (u32 \<Rightarrow> u32 \<Rightarrow> u32) \<Rightarrow> (u32 \<Rightarrow> sector) \<Rightarrow> (u32 \<Rightarrow> sector) \<Rightarrow> bool" where
  "entries_become v g V V' \<longleftrightarrow> (\<forall>i < unat (num_fats v). \<forall>c. valid_cluster v c \<longrightarrow> entry_of v V' i c = g c (entry_of v V i c))"

text \<open>The sectors outside the tables stay.\<close>

definition data_stays :: "nat \<Rightarrow> 'w fat_vol_handle \<Rightarrow> (u32 \<Rightarrow> sector) \<Rightarrow> (u32 \<Rightarrow> sector) \<Rightarrow> bool" where
  "data_stays nsec v V V' \<longleftrightarrow> (\<forall>n. unat n < nsec \<longrightarrow>
     (\<forall>i < unat (num_fats v). \<forall>q < unat (fat_size v). n \<noteq> table_sector v i q) \<longrightarrow> same_sector (V' n) (V n))"

lemma last_alloc1 [simp]: "table_sector (v\<lparr>last_cluster_alloc := x\<rparr>) = table_sector v"
  by (simp add: fun_eq_iff table_sector_def)

lemma last_alloc2 [simp]: "table_byte (v\<lparr>last_cluster_alloc := x\<rparr>) = table_byte v"
  by (simp add: fun_eq_iff table_byte_def)

lemma last_alloc3 [simp]: "valid_cluster (v\<lparr>last_cluster_alloc := x\<rparr>) = valid_cluster v"
  by (simp add: fun_eq_iff valid_cluster_def)

lemma last_alloc4 [simp]: "entry_of (v\<lparr>last_cluster_alloc := x\<rparr>) = entry_of v"
  by (simp add: fun_eq_iff entry_of_def)

lemma last_alloc5 [simp]: "table_ok nsec (v\<lparr>last_cluster_alloc := x\<rparr>) = table_ok nsec v"
  by (simp add: table_ok_def)

lemma last_alloc6 [simp]: "fat_eoc (v\<lparr>last_cluster_alloc := x\<rparr>) = fat_eoc v"
  by (simp add: fat_eoc_def)

lemma last_alloc7 [simp]: "entries_become (v\<lparr>last_cluster_alloc := x\<rparr>) = entries_become v"
  by (simp add: fun_eq_iff entries_become_def)

lemma last_alloc8 [simp]: "data_stays nsec (v\<lparr>last_cluster_alloc := x\<rparr>) = data_stays nsec v"
  by (simp add: fun_eq_iff data_stays_def)

lemma entries_become_trans:
  "\<lbrakk> entries_become v f A B; entries_become v g B C \<rbrakk> \<Longrightarrow> entries_become v (\<lambda>c x. g c (f c x)) A C"
  by (simp add: entries_become_def)

lemma data_stays_trans: "\<lbrakk> data_stays nsec v A B; data_stays nsec v B C \<rbrakk> \<Longrightarrow> data_stays nsec v A C"
  by (auto simp: data_stays_def same_sector_def)

text \<open>A chain in the first copy of the table, by its entries.\<close>

definition linked :: "'w fat_vol_handle \<Rightarrow> (u32 \<Rightarrow> sector) \<Rightarrow> u32 list \<Rightarrow> bool" where
  "linked v V cs \<longleftrightarrow> cs \<noteq> [] \<and> (\<forall>c\<in>set cs. valid_cluster v c \<and> c \<noteq> 0 \<and> c \<noteq> fat_eoc v) \<and>
     (\<forall>j < length cs. entry_of v V 0 (cs ! j) = (cs @ [fat_eoc v]) ! Suc j)"

context block_dev
begin

lemma entry_view:
  assumes "table_ok nsec v" "same_view s' s" "valid_cluster v c" "i < unat (num_fats v)"
  shows "entry_of v (view s') i c = entry_of v (view s) i c"
proof -
  have "table_byte v i (view s') x = table_byte v i (view s) x" if x: "x < 512 * unat (fat_size v)" for x
  proof -
    have "unat (table_sector v i (x div 512)) < nsec"
      by (rule table_sector_unat(2) [OF assms(1,4)]) (use x in auto)
    then show ?thesis using assms(2) by (simp add: same_view_def same_sector_def table_byte_def)
  qed
  then show ?thesis unfolding entry_of_def
    by (rule entry_get_cong) (use assms(3) in \<open>auto simp: valid_cluster_def\<close>)
qed

lemma view_entries: "\<lbrakk> table_ok nsec v; same_view s' s \<rbrakk> \<Longrightarrow> entries_become v (\<lambda>c x. x) (view s) (view s')"
  unfolding entries_become_def using entry_view by blast

lemma view_data: "same_view s' s \<Longrightarrow> data_stays nsec v (view s) (view s')"
  by (simp add: data_stays_def same_view_def)

lemma get_entry:
  assumes "cache_ok s" "table_ok nsec (vol s)" "valid_cluster (vol s) c"
  obtains s' where "fat_get_next_cluster c s = Inr (Some (entry_of (vol s) (view s) 0 c), s')"
    "cache_ok s'" "same_view s' s" "vol s' = vol s"
  using get_next_ok [OF assms] unfolding entry_of_def by blast

lemma set_entry:
  assumes "cache_ok s" "table_ok nsec (vol s)" "valid_cluster (vol s) c"
  obtains s' where "fat_set_next_cluster c v s = Inr (Some 0, s')" "cache_ok s'" "vol s' = vol s"
    "entries_become (vol s) (\<lambda>c' x. if c' = c then v AND entry_mask (vtype (vol s)) else x) (view s) (view s')"
    "data_stays nsec (vol s) (view s) (view s')"
proof -
  obtain s' where s': "fat_set_next_cluster c v s = Inr (Some 0, s')" "sets_copies s {..<unat (num_fats (vol s))} c v s'"
    by (rule set_next_ok [OF assms])
  have "entry_of (vol s) (view s') i c' = (if c' = c then v AND entry_mask (vtype (vol s)) else entry_of (vol s) (view s) i c')"
    if i: "i < unat (num_fats (vol s))" and c': "valid_cluster (vol s) c'" for i c'
  proof -
    have "table_byte (vol s) i (view s') x = entry_put (vtype (vol s)) (table_byte (vol s) i (view s)) (unat c) v x"
      if "x < 512 * unat (fat_size (vol s))" for x
      using s'(2) i that by (simp add: sets_copies_def)
    then have "entry_of (vol s) (view s') i c' =
        entry_get (vtype (vol s)) (entry_put (vtype (vol s)) (table_byte (vol s) i (view s)) (unat c) v) (unat c')"
      unfolding entry_of_def by (rule entry_get_cong) (use c' in \<open>auto simp: valid_cluster_def\<close>)
    then show ?thesis
      using entry_get_other [of "unat c" "unat c'"] by (auto simp: entry_of_def entry_get_put word_unat_eq_iff)
  qed
  then show thesis
    using that s' by (simp add: sets_copies_def entries_become_def data_stays_def)
qed

text \<open>Unlinking.\<close>

lemma unlink_ok:
  "\<lbrakk> cache_ok s; table_ok nsec (vol s); distinct cs; \<forall>c\<in>set cs. valid_cluster (vol s) c \<and> c \<noteq> 0 \<and> c \<noteq> fat_eoc (vol s);
     \<forall>j < length cs. entry_of (vol s) (view s) 0 (cs ! j) = (cs @ [e]) ! Suc j; e = 0 \<or> e = fat_eoc (vol s); length cs < fuel \<rbrakk> \<Longrightarrow>
   \<exists>s'. fat_chain_unlink fuel ((cs @ [e]) ! 0) r s = Inr (Some r, s') \<and> cache_ok s' \<and> vol s' = vol s \<and>
     entries_become (vol s) (\<lambda>c x. if c \<in> set cs then 0 else x) (view s) (view s') \<and> data_stays nsec (vol s) (view s) (view s')"
proof (induction cs arbitrary: fuel s)
  case Nil
  then obtain f where "fuel = Suc f" by (cases fuel) auto
  then show ?case using Nil view_entries [OF Nil(2) same_view_refl] view_data [OF same_view_refl] by (auto simp: fget_def fbind_def)
next
  case (Cons c cs)
  then obtain f where f: "fuel = Suc f" by (cases fuel) auto
  let ?v = "vol s"
  have c: "valid_cluster ?v c" "c \<noteq> 0" "c \<noteq> fat_eoc ?v" "entry_of ?v (view s) 0 c = (cs @ [e]) ! 0" "0 < num_fats ?v"
    using Cons.prems(2,4,5) by (auto simp: table_ok_def)
  obtain s1 where s1: "fat_get_next_cluster c s = Inr (Some ((cs @ [e]) ! 0), s1)" "cache_ok s1" "same_view s1 s" "vol s1 = ?v"
    using get_entry [OF Cons.prems(1,2) c(1)] c(4) by metis
  obtain s2 where s2: "fat_set_next_cluster c 0 s1 = Inr (Some 0, s2)" "cache_ok s2" "vol s2 = ?v"
    "entries_become ?v (\<lambda>c' x. if c' = c then 0 AND entry_mask (vtype ?v) else x) (view s1) (view s2)"
    "data_stays nsec ?v (view s1) (view s2)"
    using set_entry [OF s1(2), of c 0] s1(4) Cons.prems(2) c(1) by metis
  have e2: "entries_become ?v (\<lambda>c' x. if c' = c then 0 else x) (view s) (view s2)"
    using entries_become_trans [OF view_entries [OF Cons.prems(2) s1(3)] s2(4)] unfolding entries_become_def by simp
  have rest: "\<forall>j < length cs. entry_of ?v (view s2) 0 (cs ! j) = (cs @ [e]) ! Suc j"
  proof (intro allI impI)
    fix j assume j: "j < length cs"
    have "cs ! j \<noteq> c" "valid_cluster ?v (cs ! j)" using Cons.prems(3,4) j by auto
    then have "entry_of ?v (view s2) 0 (cs ! j) = entry_of ?v (view s) 0 (cs ! j)"
      using e2 c(5) by (simp add: entries_become_def word_less_nat_alt)
    also have "\<dots> = (cs @ [e]) ! Suc j" using Cons.prems(5) j by (auto dest: spec [of _ "Suc j"])
    finally show "entry_of ?v (view s2) 0 (cs ! j) = (cs @ [e]) ! Suc j" .
  qed
  obtain s' where s': "fat_chain_unlink f ((cs @ [e]) ! 0) r s2 = Inr (Some r, s')" "cache_ok s'" "vol s' = ?v"
    "entries_become ?v (\<lambda>c x. if c \<in> set cs then 0 else x) (view s2) (view s')" "data_stays nsec ?v (view s2) (view s')"
    using Cons.IH [OF s2(2), of f] Cons.prems s2(3) rest f by auto
  have "entries_become ?v (\<lambda>c' x. if c' \<in> set (c # cs) then 0 else x) (view s) (view s')"
    using entries_become_trans [OF e2 s'(4)] by (simp add: entries_become_def)
  moreover have "data_stays nsec ?v (view s) (view s')"
    using data_stays_trans [OF data_stays_trans [OF view_data [OF s1(3)] s2(5)] s'(5)] .
  ultimately show ?case using s1(1) s2(1) s'(1-3) c(2,3) by (auto simp: f fbind_def fget_def)
qed

end

section \<open>Free clusters\<close>

text \<open>The order of the search: from the last allocated cluster on, then from 2.\<close>

definition free_cluster :: "'w fat_vol_handle \<Rightarrow> (u32 \<Rightarrow> sector) \<Rightarrow> nat option" where
  "free_cluster v V = find (\<lambda>i. entry_of v V 0 (of_nat i) = 0)
     ([unat (last_cluster_alloc v)..<unat (cluster_count v)] @ [2..<unat (last_cluster_alloc v)])"

definition clusters_ok :: "'w fat_vol_handle \<Rightarrow> bool" where
  "clusters_ok v \<longleftrightarrow> 2 \<le> last_cluster_alloc v \<and> last_cluster_alloc v \<le> cluster_count v \<and> cluster_count v \<le> fat_eoc v \<and>
     (\<forall>c. 2 \<le> c \<and> c < cluster_count v \<longrightarrow> valid_cluster v c)"

lemma find_append: "find P (xs @ ys) = (case find P xs of None \<Rightarrow> find P ys | Some x \<Rightarrow> Some x)"
  by (induction xs) simp_all

lemma free_clusterD:
  assumes "free_cluster v V = Some i" "clusters_ok v"
  shows "2 \<le> i" "i < unat (cluster_count v)" "entry_of v V 0 (of_nat i) = 0" "i < 2 ^ 32"
proof -
  have u: "2 \<le> unat (last_cluster_alloc v)" "unat (last_cluster_alloc v) \<le> unat (cluster_count v)"
    using assms(2) by (simp_all add: clusters_ok_def word_le_nat_alt)
  have i: "i \<in> set ([unat (last_cluster_alloc v)..<unat (cluster_count v)] @ [2..<unat (last_cluster_alloc v)])"
    "entry_of v V 0 (of_nat i) = 0"
    using assms(1) unfolding free_cluster_def find_Some_iff by (metis nth_mem)+
  then show r: "2 \<le> i" "i < unat (cluster_count v)" "entry_of v V 0 (of_nat i) = 0" using u by auto
  then show "i < 2 ^ 32" using unsigned_less [where 'a = nat, of "cluster_count v"] by simp
qed

lemma free_cluster_None:
  "\<lbrakk> free_cluster v V = None; clusters_ok v; 2 \<le> c; c < cluster_count v \<rbrakk> \<Longrightarrow> entry_of v V 0 c \<noteq> 0"
  by (auto simp: free_cluster_def find_None_iff word_le_nat_alt word_less_nat_alt dest: spec [of _ "unat c"])

lemma clusters_valid:
  "\<lbrakk> clusters_ok v; 2 \<le> i; i < unat (cluster_count v) \<rbrakk> \<Longrightarrow> valid_cluster v (of_nat i)"
proof -
  assume a: "clusters_ok v" "2 \<le> i" "i < unat (cluster_count v)"
  have "i < 2 ^ 32" using a(3) unsigned_less [where 'a = nat, of "cluster_count v"] by simp
  then have "unat (of_nat i :: u32) = i" by (rule unat_of_nat_u32)
  then show ?thesis using a by (simp add: clusters_ok_def word_le_nat_alt word_less_nat_alt)
qed

context block_dev
begin

lemma find_zero_ok:
  "\<lbrakk> cache_ok s; table_ok nsec (vol s); \<forall>i\<in>set is. valid_cluster (vol s) (of_nat i) \<rbrakk> \<Longrightarrow>
   \<exists>s'. find_zero is s = Inr (Some (map_option of_nat (find (\<lambda>i. entry_of (vol s) (view s) 0 (of_nat i) = 0) is)), s') \<and>
     cache_ok s' \<and> same_view s' s \<and> vol s' = vol s"
proof (induction "is" arbitrary: s)
  case (Cons i "is")
  let ?v = "vol s"
  have i: "valid_cluster ?v (of_nat i)" using Cons.prems(3) by simp
  obtain s1 where s1: "fat_get_next_cluster (of_nat i) s = Inr (Some (entry_of ?v (view s) 0 (of_nat i)), s1)"
    "cache_ok s1" "same_view s1 s" "vol s1 = ?v"
    by (rule get_entry [OF Cons.prems(1,2) i])
  have n: "0 < unat (num_fats ?v)" using Cons.prems(2) by (simp add: table_ok_def word_less_nat_alt)
  have "find (\<lambda>i. entry_of ?v (view s1) 0 (of_nat i) = 0) is = find (\<lambda>i. entry_of ?v (view s) 0 (of_nat i) = 0) is"
    by (rule find_cong [OF refl]) (use entry_view [OF Cons.prems(2) s1(3) _ n] Cons.prems(3) in simp)
  with Cons.IH [OF s1(2)] Cons.prems s1(4) obtain s' where
    "find_zero is s1 = Inr (Some (map_option of_nat (find (\<lambda>i. entry_of ?v (view s) 0 (of_nat i) = 0) is)), s')"
    "cache_ok s'" "same_view s' s1" "vol s' = ?v" by auto
  then show ?case using s1 same_view_trans [OF _ s1(3)] by (auto simp: fbind_def)
qed simp

lemma free_view:
  assumes "table_ok nsec v" "clusters_ok v" "same_view s' s"
  shows "free_cluster v (view s') = free_cluster v (view s)"
proof -
  have n: "0 < unat (num_fats v)" using assms(1) by (simp add: table_ok_def word_less_nat_alt)
  have u: "2 \<le> unat (last_cluster_alloc v)" "unat (last_cluster_alloc v) \<le> unat (cluster_count v)"
    using assms(2) by (simp_all add: clusters_ok_def word_le_nat_alt)
  show ?thesis unfolding free_cluster_def
    by (rule find_cong [OF refl]) (use entry_view [OF assms(1,3) clusters_valid [OF assms(2)] n] u in auto)
qed

lemma find_free_ok:
  assumes "cache_ok s" "table_ok nsec (vol s)" "clusters_ok (vol s)"
  obtains s' where "fat_find_free_cluster s =
      Inr (Some (case free_cluster (vol s) (view s) of None \<Rightarrow> 0 | Some i \<Rightarrow> of_nat i), s')"
    "cache_ok s'" "same_view s' s"
    "vol s' = (case free_cluster (vol s) (view s) of None \<Rightarrow> vol s | Some i \<Rightarrow> (vol s)\<lparr>last_cluster_alloc := of_nat i\<rparr>)"
proof -
  let ?v = "vol s" and ?P = "\<lambda>i. entry_of (vol s) (view s) 0 (of_nat i) = (0 :: u32)"
  let ?hi = "[unat (last_cluster_alloc ?v)..<unat (cluster_count ?v)]" and ?lo = "[2..<unat (last_cluster_alloc ?v)]"
  have u: "2 \<le> unat (last_cluster_alloc ?v)" "unat (last_cluster_alloc ?v) \<le> unat (cluster_count ?v)"
    using assms(3) by (simp_all add: clusters_ok_def word_le_nat_alt)
  have "\<forall>i\<in>set ?hi. valid_cluster ?v (of_nat i)" "\<forall>i\<in>set ?lo. valid_cluster ?v (of_nat i)"
    using clusters_valid [OF assms(3)] u by auto
  note vals = this
  obtain s1 where s1: "find_zero ?hi s = Inr (Some (map_option of_nat (find ?P ?hi)), s1)" "cache_ok s1" "same_view s1 s" "vol s1 = ?v"
    using find_zero_ok [OF assms(1,2) vals(1)] by blast
  note found = that
  have finish: thesis if r: "fat_find_free_cluster s =
      (case free_cluster ?v (view s) of None \<Rightarrow> fret 0
       | Some i \<Rightarrow> fbind (vol_mod (\<lambda>h. h\<lparr>last_cluster_alloc := of_nat i\<rparr>)) (\<lambda>_. fret (of_nat i))) t"
      and t: "cache_ok t" "same_view t s" "vol t = ?v" for t
  proof (cases "free_cluster ?v (view s)")
    case None
    then show thesis by (intro found [of t]) (use r t in simp_all)
  next
    case (Some i)
    let ?t = "t\<lparr>vol := (vol t)\<lparr>last_cluster_alloc := of_nat i\<rparr>\<rparr>"
    have "view ?t = view t" by (simp add: view_def fun_eq_iff)
    then have "cache_ok ?t" "same_view ?t s" using t by (auto simp: cache_ok_def same_view_def split: option.splits)
    then show thesis by (intro found [of ?t]) (use r t(3) Some in \<open>simp_all add: vol_mod_def\<close>)
  qed
  show thesis
  proof (cases "find ?P ?hi")
    case (Some i)
    then show thesis using finish [OF _ s1(2-4)] s1(1)
      by (simp add: fat_find_free_cluster_def free_cluster_def find_append fbind_Some)
  next
    case None
    have "table_ok nsec (vol s1)" "\<forall>i\<in>set ?lo. valid_cluster (vol s1) (of_nat i)" using assms(2) vals(2) s1(4) by simp_all
    from find_zero_ok [OF s1(2) this] obtain s2 where s2:
      "find_zero ?lo s1 = Inr (Some (map_option of_nat (find (\<lambda>i. entry_of ?v (view s1) 0 (of_nat i) = 0) ?lo)), s2)"
      "cache_ok s2" "same_view s2 s1" "vol s2 = ?v" using s1(4) by auto
    have n: "0 < unat (num_fats ?v)" using assms(2) by (simp add: table_ok_def word_less_nat_alt)
    have "find (\<lambda>i. entry_of ?v (view s1) 0 (of_nat i) = 0) ?lo = find ?P ?lo"
      by (rule find_cong [OF refl]) (use entry_view [OF assms(2) s1(3) _ n] vals(2) in simp)
    note s2' = s2(1) [unfolded this]
    show thesis using finish [OF _ s2(2) same_view_trans [OF s2(3) s1(3)] s2(4)] s1(1) s2' None
      by (cases "find ?P ?lo") (simp_all add: fat_find_free_cluster_def free_cluster_def find_append fbind_Some)
  qed
qed

lemma eoc_mask: "fat_eoc v AND entry_mask (vtype v) = fat_eoc v" "fat_eoc v \<noteq> 0"
  by (cases "vtype v"; simp add: fat_eoc_def entry_mask_def)+

lemma below_eoc_mask:
  assumes "c < fat_eoc v" shows "c AND entry_mask (vtype v) = c"
proof -
  have "take_bit n c = c" if "unat c < 2 ^ n" for n
    unfolding word_unat_eq_iff unsigned_take_bit_eq by (rule take_bit_nat_eq_self [OF that])
  note t = this [of 12] this [of 16] this [of 28]
  show ?thesis
    using assms t by (cases "vtype v") (simp_all add: fat_eoc_def entry_mask_def take_bit_eq_mask mask_eq_exp_minus_1 word_less_nat_alt)
qed

lemma alloc_next_full:
  assumes "cache_ok s" "table_ok nsec (vol s)" "clusters_ok (vol s)" "valid_cluster (vol s) c"
    "entry_of (vol s) (view s) 0 c = fat_eoc (vol s)" "free_cluster (vol s) (view s) = None"
  shows "\<exists>s'. fat_alloc_next_cluster c clear s = Inr (Some 0, s') \<and> cache_ok s' \<and> same_view s' s \<and> vol s' = vol s"
proof -
  obtain s1 where s1: "fat_get_next_cluster c s = Inr (Some (fat_eoc (vol s)), s1)" "cache_ok s1" "same_view s1 s" "vol s1 = vol s"
    using get_entry [OF assms(1,2,4)] assms(5) by metis
  have none: "free_cluster (vol s1) (view s1) = None"
    using free_view [OF assms(2,3) s1(3)] assms(6) s1(4) by simp
  obtain s2 where s2: "fat_find_free_cluster s1 = Inr (Some 0, s2)" "cache_ok s2" "same_view s2 s1" "vol s2 = vol s"
    using find_free_ok [OF s1(2)] assms(2,3) s1(4) none by auto
  then show ?thesis using s1 same_view_trans [OF s2(3) s1(3)]
    by (auto simp: fat_alloc_next_cluster_def fbind_Some eio_as_def)
qed

lemma linked_entry:
  assumes "linked (vol s) (view s) cs" "c \<in> set cs"
  shows "entry_of (vol s) (view s) 0 c \<noteq> 0" "c = last cs \<longleftrightarrow> entry_of (vol s) (view s) 0 c = fat_eoc (vol s)"
proof -
  obtain j where j: "j < length cs" "c = cs ! j" using assms(2) by (metis in_set_conv_nth)
  have e: "entry_of (vol s) (view s) 0 c = (cs @ [fat_eoc (vol s)]) ! Suc j" using assms(1) j by (simp add: linked_def)
  have l: "entry_of (vol s) (view s) 0 (last cs) = fat_eoc (vol s)"
    using assms(1) by (auto simp: linked_def last_conv_nth nth_append dest: spec [of _ "length cs - 1"])
  show "entry_of (vol s) (view s) 0 c \<noteq> 0"
    using assms(1) e eoc_mask(2) [of "vol s"] j by (cases "Suc j < length cs") (auto simp: linked_def nth_append)
  show "c = last cs \<longleftrightarrow> entry_of (vol s) (view s) 0 c = fat_eoc (vol s)"
  proof (cases "Suc j < length cs")
    case True
    then have "entry_of (vol s) (view s) 0 c \<noteq> fat_eoc (vol s)" using assms(1) e by (auto simp: linked_def nth_append)
    then show ?thesis using l by auto
  next
    case False
    then have "Suc j = length cs" using j(1) by simp
    then have "c = last cs" using j(2) by (metis diff_Suc_1 last_conv_nth length_greater_0_conv zero_less_Suc)
    then show ?thesis using l by simp
  qed
qed

lemma linked_grows:
  assumes "linked (vol s) (view s) cs" "vol s' = (vol s)\<lparr>last_cluster_alloc := x\<rparr>" "0 < num_fats (vol s)" "valid_cluster (vol s) f" "f \<noteq> 0" "f \<noteq> fat_eoc (vol s)"
    "f \<notin> set cs"
    "entries_become (vol s) (\<lambda>c x. if c = f then fat_eoc (vol s) else if c = last cs then f else x) (view s) (view s')"
  shows "linked (vol s') (view s') (cs @ [f])"
proof -
  let ?e = "fat_eoc (vol s)"
  have new: "entry_of (vol s) (view s') 0 c = (if c = f then ?e else if c = last cs then f else entry_of (vol s) (view s) 0 c)"
    if "valid_cluster (vol s) c" for c
    using assms(3,8) that by (simp add: entries_become_def word_less_nat_alt)
  have "entry_of (vol s) (view s') 0 ((cs @ [f]) ! j) = (cs @ [f] @ [?e]) ! Suc j" if j: "j < length (cs @ [f])" for j
  proof (cases "j = length cs")
    case True
    then show ?thesis using new [OF assms(4)] by (simp add: nth_append)
  next
    case False
    then have jl: "j < length cs" "cs ! j \<in> set cs" using j by simp_all
    then have v: "valid_cluster (vol s) (cs ! j)" "cs ! j \<noteq> f" using assms(1,7) by (auto simp: linked_def)
    have e: "entry_of (vol s) (view s) 0 (cs ! j) = (cs @ [?e]) ! Suc j" using assms(1) jl by (simp add: linked_def)
    note le = linked_entry(2) [OF assms(1) jl(2)]
    show ?thesis
    proof (cases "Suc j < length cs")
      case True
      then have "cs ! j \<noteq> last cs" using le e assms(1) by (auto simp: linked_def nth_append)
      then show ?thesis using new [OF v(1)] v(2) e True by (simp add: nth_append)
    next
      case False
      then have s: "Suc j = length cs" using jl(1) by simp
      then have "cs ! j = last cs" using le e by (simp add: nth_append)
      then show ?thesis using new [OF v(1)] v(2) s by (simp add: nth_append)
    qed
  qed
  then show ?thesis using assms(1,4-6) by (auto simp: linked_def assms(2))
qed

lemma alloc_next_ok:
  assumes "cache_ok s" "table_ok nsec (vol s)" "clusters_ok (vol s)" "linked (vol s) (view s) cs" "free_cluster (vol s) (view s) = Some i" "f = of_nat i"
  obtains s' where "fat_alloc_next_cluster (last cs) False s = Inr (Some f, s')" "cache_ok s'"
    "vol s' = (vol s)\<lparr>last_cluster_alloc := f\<rparr>" "linked (vol s') (view s') (cs @ [f])" "f \<notin> set cs"
    "entries_become (vol s) (\<lambda>c x. if c = f then fat_eoc (vol s) else if c = last cs then f else x) (view s) (view s')"
    "data_stays nsec (vol s) (view s) (view s')"
proof -
  let ?v = "vol s" and ?e = "fat_eoc (vol s)" and ?c = "last cs"
  have c: "?c \<in> set cs" "valid_cluster ?v ?c" using assms(4) by (auto simp: linked_def)
  have ce: "entry_of ?v (view s) 0 ?c = ?e" using linked_entry(2) [OF assms(4) c(1)] by simp
  note i = free_clusterD [OF assms(5,3)]
  have fu: "unat f = i" unfolding assms(6) by (rule unat_of_nat_u32 [OF i(4)])
  have f: "valid_cluster ?v f" "f \<noteq> 0" "f < ?e" "f \<notin> set cs"
  proof -
    show "valid_cluster ?v f" using clusters_valid [OF assms(3) i(1,2)] assms(6) by simp
    show "f \<noteq> 0" using fu i(1) by auto
    have "f < cluster_count ?v" using fu i(2) by (simp add: word_less_nat_alt)
    then show "f < ?e" using assms(3) by (auto simp: clusters_ok_def intro: less_le_trans)
    show "f \<notin> set cs" using linked_entry(1) [OF assms(4)] i(3) assms(6) by auto
  qed
  have ne: "f \<noteq> ?e" "f \<noteq> ?c" using f(3,4) c(1) by auto
  obtain s1 where s1: "fat_get_next_cluster ?c s = Inr (Some ?e, s1)" "cache_ok s1" "same_view s1 s" "vol s1 = ?v"
    using get_entry [OF assms(1,2) c(2)] ce by metis
  have "free_cluster (vol s1) (view s1) = Some i" using free_view [OF assms(2,3) s1(3)] assms(5) s1(4) by simp
  then obtain s2 where s2: "fat_find_free_cluster s1 = Inr (Some f, s2)" "cache_ok s2" "same_view s2 s1"
    "vol s2 = ?v\<lparr>last_cluster_alloc := f\<rparr>"
    using find_free_ok [OF s1(2)] assms(2,3,6) s1(4) by auto
  obtain s3 where s3: "fat_set_next_cluster f ?e s2 = Inr (Some 0, s3)" "cache_ok s3" "vol s3 = vol s2"
    "entries_become ?v (\<lambda>c' x. if c' = f then ?e else x) (view s2) (view s3)" "data_stays nsec ?v (view s2) (view s3)"
    using set_entry [OF s2(2), of f ?e] assms(2) f(1) s2(4) eoc_mask(1) [of ?v] by auto
  obtain s4 where s4: "fat_set_next_cluster ?c f s3 = Inr (Some 0, s4)" "cache_ok s4" "vol s4 = vol s2"
    "entries_become ?v (\<lambda>c' x. if c' = ?c then f else x) (view s3) (view s4)" "data_stays nsec ?v (view s3) (view s4)"
    using set_entry [OF s3(2), of ?c f] assms(2) c(2) s2(4) s3(3) below_eoc_mask [OF f(3)] by auto
  have v2: "same_view s2 s" by (rule same_view_trans [OF s2(3) s1(3)])
  have ents: "entries_become ?v (\<lambda>c x. if c = f then ?e else if c = ?c then f else x) (view s) (view s4)"
    using entries_become_trans [OF entries_become_trans [OF view_entries [OF assms(2) v2] s3(4)] s4(4)] ne(2)
    unfolding entries_become_def by auto
  have vol: "vol s4 = ?v\<lparr>last_cluster_alloc := f\<rparr>" using s4(3) s2(4) by simp
  show thesis
  proof (rule that [OF _ s4(2) vol _ f(4) ents])
    have "0 < num_fats ?v" using assms(2) by (simp add: table_ok_def)
    then show "linked (vol s4) (view s4) (cs @ [f])" by (rule linked_grows [OF assms(4) vol _ f(1,2) ne(1) f(4) ents])
    show "data_stays nsec ?v (view s) (view s4)"
      using data_stays_trans [OF data_stays_trans [OF view_data [OF v2] s3(5)] s4(5)] .
    show "fat_alloc_next_cluster ?c False s = Inr (Some f, s4)"
      using s1(1) s2(1) s3(1) s4(1) f(2) by (simp add: fat_alloc_next_cluster_def eio_as_def fbind_Some)
  qed
qed

end

section \<open>The file system on the ramdisk\<close>


text \<open>
  C9: \<open>fat_chain_unlink\<close> ends on a chain without repetition after at most one round per cluster and
  one more, returns 0 and frees exactly the clusters of the chain, in every copy of the table;
  no sector outside the tables changes.
\<close>

theorem chain_unlink_frees:
  assumes "rd_ok addr base s" and "table_ok rd_sectors (vol s)" and "linked (vol s) (rd_view base s) cs" and "distinct cs"
    and "length cs < fuel"
  shows "\<exists>s'. fat_chain_unlink fuel (hd cs) 0 s = Inr (Some 0, s') \<and> rd_ok addr base s' \<and> vol s' = vol s \<and>
    entries_become (vol s) (\<lambda>c x. if c \<in> set cs then 0 else x) (rd_view base s) (rd_view base s') \<and>
    data_stays rd_sectors (vol s) (rd_view base s) (rd_view base s')"
proof -
  have "hd cs = (cs @ [fat_eoc (vol s)]) ! 0" using assms(3) by (simp add: linked_def hd_conv_nth nth_append)
  then show ?thesis using ramdisk.unlink_ok [OF assms(1,2,4), of "fat_eoc (vol s)" fuel 0] assms(3,5)
    by (simp add: linked_def)
qed

section \<open>Witnesses\<close>

text \<open>The floppy of Fat_Read with the chain of clusters 2 and 3; cluster 4 is free.\<close>

lemma floppy_clusters: "clusters_ok floppy_vol"
proof -
  have "valid_cluster floppy_vol c" if c: "c < 2847" for c
  proof -
    have "unat c < 2847" using c by (simp add: word_less_nat_alt)
    then have "unat c + unat c div 2 + 2 \<le> 4608" by linarith
    then show ?thesis using \<open>unat c < 2847\<close>
      by (simp add: valid_cluster_def floppy_vol_simps entry_off_def entry_len_def)
        (simp add: floppy_vol_def)
  qed
  then show ?thesis by (simp add: clusters_ok_def floppy_vol_simps) (simp add: floppy_vol_def)
qed

lemma two_clusters_linked: "linked floppy_vol (rd_view 0x82200000 two_clusters) [2, 3]"
  using two_clusters_chain
  by (auto simp: linked_def chain_def entry_of_def floppy_vol_simps two_clusters_vol less_Suc_eq)

lemma two_clusters_free: "entry_of floppy_vol (rd_view 0x82200000 two_clusters) 0 4 = 0"
proof -
  have "rd_table 0x82200000 0 two_clusters 6 = 0" "rd_table 0x82200000 0 two_clusters 7 = 0"
    unfolding table_byte_def two_clusters_view
    by (simp_all add: table_sector_def floppy_vol_def two_clusters_def floppy_fs_def)
  then show ?thesis
    by (simp add: entry_of_def floppy_vol_simps entry_get_def entry_off_def get_le16_def two_clusters_vol)
qed


theorem chain_unlink_frees_witness: "\<exists>s'. fat_chain_unlink 3 2 0 two_clusters = Inr (Some 0, s') \<and>
    entry_of floppy_vol (rd_view 0x82200000 s') 1 3 = 0"
proof -
  have lk: "linked (vol two_clusters) (rd_view 0x82200000 two_clusters) [2, 3]" using two_clusters_linked by (simp add: two_clusters_vol)
  have v: "valid_cluster floppy_vol 3" using two_clusters_linked by (simp add: linked_def)
  have n: "1 < unat (num_fats floppy_vol)" by (simp add: floppy_vol_def)
  from chain_unlink_frees [OF two_clusters_ok _ lk, of 3, unfolded two_clusters_vol, OF floppy_vol_simps(5)]
  obtain s' where "fat_chain_unlink 3 2 0 two_clusters = Inr (Some 0, s')"
    "entries_become floppy_vol (\<lambda>c x. if c \<in> set [2, 3] then 0 else x) (rd_view 0x82200000 two_clusters) (rd_view 0x82200000 s')"
    by auto
  then show ?thesis using v n by (auto simp: entries_become_def)
qed

end
