(* ===== verification/Spec2Isabelle.thy ===== *)
theory Spec2Isabelle
  imports Buddy_Tests Printf_Props Fork_Returns Proc_Runs Fat_Chain
begin

text \<open>
  A model of skyOS, a kernel for one RISC-V hart (rv64, Sv39) with a buddy allocator, page tables,
  preemptive processes, three system calls and a FAT file system on a ramdisk. Paths below are
  relative to src/kernel/.

  The program. \<open>main\<close> initialises the allocator (mm/pmm.c, mm/buddy.c), builds the page table of the
  kernel (mm/vms.c), sets the trap vector (proc/trap.c), mounts the FAT volume on the ramdisk
  (fs/, drivers/) and starts the program idle (\<open>execve\<close> of proc/sched.c). From then on the kernel
  only runs in traps: timer interrupts switch between processes, system calls fork, print, and
  return the pid. Processes get their page tables and memory from \<open>kalloc\<close>; fork copies memory
  through the translation of the hardware; console output and the log go through two spinlocks.

  The theories, in the order of their imports:

  Prelude holds the C integer types as machine words, the faults (\<open>panic\<close>, an access outside an
  object, a loop that does not end, and so on) and the error monad. C_Strings models
  common/strings.c over a byte-addressed memory, Le_Access the little-endian accessors of
  include/openfat/leaccess.h, Linked_List the lists of include/list.h on a heap of prev/next fields;
  the locale \<open>list_ops\<close> is the interface the allocator uses, interpreted on these lists.

  Buddy is mm/buddy.c with the page descriptors, free lists and links as its state. Buddy_Layout
  is the abstract allocator, blocks that tile the memory, Buddy_Refine the simulation between the
  two, Buddy_Props what follows for callers: soundness of allocation and release, when they return,
  and the inputs on which they do not. Buddy_Exec evaluates runs of many calls on tables; Buddy_Tests
  replays the two tests of buddy.c. Pmm is mm/pmm.c; its locale \<open>page_allocator\<close> is what the page
  tables ask of \<open>kalloc\<close>, interpreted on the buddy allocator.

  Vms is mm/vms.c: \<open>map\<close>, \<open>trans\<close> and the kernel table on the memory, \<open>lookup\<close> as the meaning of a
  tree of tables. User_Pages says which pages the tables of a process use.

  Locks is sync/lock.c, drivers/console.c and common/log.c with their recursion through \<open>panic\<close>;
  Printf is common/printf.c and Printf_Props its properties, over the locale \<open>output_keeps\<close> for
  output functions, interpreted on the buffer of snprintf.

  Block_Dev is the block device interface, the ramdisk and the partitions (drivers/, fs/mbr.c); the
  locale \<open>block_dev\<close> is what the cache asks of a device, interpreted on the ramdisk. Bpb is the boot
  sector, Fat_Cache the handles and the one-sector cache of fs/fat_core.h, Fat_Core fs/fat_core.c and
  the cluster allocation of fs/write.c, Fat_Table the table as a plain array of entries, Fat_View
  the proof that the code computes the table operations through its cache. Fat_Read says what a
  file is, the bytes of the sectors of its chain, and proves that reading and seeking follow it;
  Fat_Chain does the same for growing and freeing chains. Fat_Write, Fat_Dir, Fat_Open and Fat_Unix
  model writing, directories, files by name and paths.

  Proc is proc/sched.c and arch/isa.c on the state \<open>machine\<close> (memory, allocator, tasks, pids,
  control registers); Trap is proc/trap.c, proc/syscall.c, the register exchange of arch/entry.S and
  \<open>execve\<close>. Proc_Props has the invariant and the frame of every operation, Scheduling the timer
  trap and runs of timer traps, Syscalls the system calls, Fork_Memory what fork copies,
  Fork_Returns when it returns, Proc_Runs the well-formedness of the process table in all runs.

  Conventions. A routine that stops the kernel, leaves an object or does not end returns \<open>Inl\<close> of a
  fault; \<open>Inr\<close> is a return. Pointers to array elements (pages, tasks) are indices; pointers into
  the memory are addresses of 64 bits. Integers have the width of the C types. Arguments of the
  definitions stand for what is outside the program: the end of the kernel image, the time read by
  \<open>mtime_get\<close>, the address translation of the hardware \<open>mmu\<close>, the contents of uninitialised
  variables (\<open>junk\<close>, \<open>ent\<close>), and the result of \<open>malloc\<close>.

  Bounds and fuel. \<open>map\<close>, which may loop for ever on wrapping ranges, is a partial function:
  \<open>None\<close> is a loop that does not end, and its termination is a theorem. The loop of the formatter
  carries the length of the format as fuel, proved enough. The loops over cluster chains and
  directories carry fuel because a chain on the disk may be cyclic, the recursion through \<open>panic\<close>
  because it may be endless. The fuel that reading and seeking give themselves is proved enough in
  Fat_Read, one round per cluster and one more for unlinking a chain in Fat_Chain; used-up fuel is the fault \<open>No_Return\<close>, and no property takes a
  \<open>No_Return\<close> for a success. The allocator manages 16384 pages of 4096 bytes in blocks of orders 0
  to 13, tasks and pids have 64 slots, a task has five memory areas.

  Not modelled: the conversion of floating-point numbers in common/printf.c (\<open>_ftoa\<close>, \<open>_etoa\<close>; the
  kernel never prints one, and the model returns the fault \<open>Not_Modelled\<close>); the order of the calls
  in main.c, the stacks and the boot code of arch/entry.S, arch/sret.S, the linker script and the
  firmware calls of include/sbi.h (assembly and calls into the firmware); log lines inside modelled
  functions and functions that only print (\<open>dump_context\<close>, \<open>show_process_virtual_mem_map\<close>, \<open>logo\<close>,
  \<open>vms_test\<close>, \<open>print_tree\<close>, \<open>fstest\<close>); accessors of control registers that nothing calls; the
  table of device addresses in arch/virt.c, which nothing uses; mm/simple_allocator.c, which is not
  linked; the user programs under src/user, whose printf.c repeats that of the kernel. The
  translation look-aside buffer is not part of the state: translation reads the tables in memory,
  which is what flushing it after a change amounts to on one hart.
\<close>

end
